(* ===== verification/Prelude.thy ===== *)
theory Prelude
  imports Main "HOL-Library.Word" "HOL-Library.Multiset" "HOL-Library.Char_ord"
begin

text \<open>
  Shared vocabulary of the development: bytes and big-endian fields, Go strings as byte
  strings, the error values that flow between packages, \<^verbatim>\<open>io.ReadFull\<close> on a byte source,
  \<^verbatim>\<open>io.Writer\<close> with scripted failures, bounded Go channels, and the two generic contracts
  (\<open>frame_codec\<close>, \<open>transition_system\<close>) that the component theories interpret.
\<close>

unbundle bit_operations_syntax

named_theorems codec_simps \<open>unfolding rules for encoders and decoders\<close>
named_theorems chan_simps \<open>unfolding rules for channel operations\<close>
named_theorems step_defs \<open>definitions of the operations of a component\<close>

section \<open>Bytes and big-endian fields\<close>

type_synonym byte = "8 word"
type_synonym bytes = "byte list"

text \<open>\<open>put_be n v\<close> is Go's \<^verbatim>\<open>byte(v>>8*(n-1)), ..., byte(v>>8), byte(v)\<close>; \<open>get_be\<close> is the
  shift-and-or reader of \<^verbatim>\<open>binary.BigEndian\<close>.\<close>

definition put_be :: "nat \<Rightarrow> 'a::len word \<Rightarrow> bytes" where
  "put_be n v = map (\<lambda>i. ucast (drop_bit (8 * i) v)) (rev [0..<n])"

definition get_be :: "bytes \<Rightarrow> 'a::len word" where
  "get_be bs = foldl (\<lambda>acc b. push_bit 8 acc OR ucast b) 0 bs"

text \<open>Go strings are byte strings; the model keeps them as \<open>string\<close> and converts at the wire.\<close>

definition bytes_of_string :: "string \<Rightarrow> bytes" where
  "bytes_of_string s = map of_char s"

definition string_of_bytes :: "bytes \<Rightarrow> string" where
  "string_of_bytes bs = map (\<lambda>b. char_of (unat b)) bs"

section \<open>Errors, readers and writers\<close>

datatype go_error =
    EOF
  | ErrUnexpectedEOF
  | ErrWrite
  | ErrClosedPipe
  | ErrContext
  | ErrFrameTooLarge nat nat
  | ErrEmptyStreamHeader
  | ErrDatagramTooLarge nat nat
  | ErrDatagramShort nat
  | ErrDatagramType byte
  | ErrCorruptHeader
  | ErrTrackNameTooLong
  | ErrKindTooLong
  | ErrAuth
  | ErrBadHello
  | ErrIdle
  | ErrPeer string
  | ErrOther string

text \<open>\<^verbatim>\<open>io.ReadFull\<close> on a source whose remaining bytes are the list: no error for a zero-length
  buffer, \<open>EOF\<close> when nothing could be read, \<open>ErrUnexpectedEOF\<close> for a short read.\<close>

definition read_full :: "nat \<Rightarrow> bytes \<Rightarrow> go_error + bytes \<times> bytes" where
  "read_full n src =
     (if n \<le> length src then Inr (take n src, drop n src)
      else if src = [] then Inl EOF else Inl ErrUnexpectedEOF)"

definition bindE :: "'e + 'a \<Rightarrow> ('a \<Rightarrow> 'e + 'b) \<Rightarrow> 'e + 'b" where
  "bindE m k = (case m of Inl e \<Rightarrow> Inl e | Inr a \<Rightarrow> k a)"

text \<open>An \<^verbatim>\<open>io.Writer\<close>: the bytes that reached it and a script of the outcomes of the coming
  \<^verbatim>\<open>Write\<close> calls. \<open>None\<close> accepts the whole buffer; \<open>Some k\<close> fails after \<open>k\<close> bytes. An exhausted
  script accepts everything.\<close>

record writer =
  w_out :: bytes
  w_script :: "nat option list"

definition io_write :: "writer \<Rightarrow> bytes \<Rightarrow> go_error option \<times> writer" where
  "io_write w b =
     (case w_script w of
        [] \<Rightarrow> (None, w\<lparr>w_out := w_out w @ b\<rparr>)
      | None # s \<Rightarrow> (None, w\<lparr>w_out := w_out w @ b, w_script := s\<rparr>)
      | Some k # s \<Rightarrow> (Some ErrWrite, w\<lparr>w_out := w_out w @ take k b, w_script := s\<rparr>))"

definition good_writer :: "writer \<Rightarrow> bool" where
  "good_writer w \<longleftrightarrow> (\<forall>x \<in> set (w_script w). x = None)"

text \<open>The read loop of every drain goroutine: read frames until the reader reports an error.
  Every frame consumes at least one byte, so \<open>Suc (length src)\<close> rounds are enough
  (lemma \<open>read_loop_enough\<close> of the codec contract).\<close>

fun read_loop :: "(bytes \<Rightarrow> go_error + 'f \<times> bytes) \<Rightarrow> nat \<Rightarrow> bytes \<Rightarrow> 'f list \<times> go_error option" where
  "read_loop rd 0 src = ([], None)"
| "read_loop rd (Suc n) src =
     (case rd src of
        Inl e \<Rightarrow> ([], Some e)
      | Inr (f, rest) \<Rightarrow> (let (fs, e) = read_loop rd n rest in (f # fs, e)))"

text \<open>A sender that writes one frame after the other and stops at the first error; it also
  reports how many frames were written without error.\<close>

fun write_all :: "('w \<Rightarrow> 'f \<Rightarrow> go_error option \<times> 'w) \<Rightarrow> 'w \<Rightarrow> 'f list \<Rightarrow> nat \<times> go_error option \<times> 'w" where
  "write_all wr w [] = (0, None, w)"
| "write_all wr w (f # fs) =
     (case wr w f of
        (Some e, w') \<Rightarrow> (0, Some e, w')
      | (None, w') \<Rightarrow> (let (n, r) = write_all wr w' fs in (Suc n, r)))"

section \<open>Bounded channels\<close>

text \<open>A Go channel of capacity \<open>c_cap\<close>: its buffered values in receive order and whether it was
  closed. \<open>chan_send\<close> and \<open>chan_recv\<close> are the non-blocking \<^verbatim>\<open>select\<close> arms with a \<^verbatim>\<open>default\<close>;
  a send on a closed channel panics in Go, so it is an explicit outcome.\<close>

record 'a chan =
  c_buf :: "'a list"
  c_cap :: nat
  c_closed :: bool

datatype 'a send_result = Sent "'a chan" | Full | SendPanic

definition make_chan :: "nat \<Rightarrow> 'a chan" where
  "make_chan n = \<lparr>c_buf = [], c_cap = n, c_closed = False\<rparr>"

definition chan_send :: "'a \<Rightarrow> 'a chan \<Rightarrow> 'a send_result" where
  "chan_send x c =
     (if c_closed c then SendPanic
      else if length (c_buf c) < c_cap c then Sent (c\<lparr>c_buf := c_buf c @ [x]\<rparr>) else Full)"

definition chan_recv :: "'a chan \<Rightarrow> ('a \<times> 'a chan) option" where
  "chan_recv c = (case c_buf c of [] \<Rightarrow> None | x # xs \<Rightarrow> Some (x, c\<lparr>c_buf := xs\<rparr>))"

definition chan_drop1 :: "'a chan \<Rightarrow> 'a chan" where
  "chan_drop1 c = (case chan_recv c of None \<Rightarrow> c | Some (_, c') \<Rightarrow> c')"

definition chan_ok :: "'a chan \<Rightarrow> bool" where
  "chan_ok c \<longleftrightarrow> length (c_buf c) \<le> c_cap c"

section \<open>Lemmas on bytes\<close>

lemma length_put_be [simp]: "length (put_be n v) = n"
  by (simp add: put_be_def)

lemma put_be_Nil_iff [simp]: "put_be n v = [] \<longleftrightarrow> n = 0"
  by (metis length_0_conv length_put_be)

lemma get_be_snoc: "(get_be (bs @ [b]) :: 'a::len word) = push_bit 8 (get_be bs) OR ucast b"
  by (simp add: get_be_def)

lemma bit_byte_ge: "8 \<le> k \<Longrightarrow> \<not> bit (b :: byte) k"
  using bit_imp_le_length [of b k] by auto

lemma bit_get_be:
  "bit (get_be bs :: 'a::len word) k \<longleftrightarrow>
     k < LENGTH('a) \<and> k div 8 < length bs \<and> bit (rev bs ! (k div 8)) (k mod 8)"
proof (induction bs arbitrary: k rule: rev_induct)
  case Nil
  then show ?case by (simp add: get_be_def)
next
  case (snoc b bs)
  show ?case
  proof (cases "k < 8")
    case True
    then show ?thesis
      by (auto simp: get_be_snoc bit_simps)
  next
    case False
    then obtain j where k: "k = j + 8" by (metis le_add_diff_inverse2 not_less)
    have "(j + 8) div 8 = Suc (j div 8)" by simp
    moreover have "bit (ucast b :: 'a word) k = False" using k by (simp add: bit_simps bit_byte_ge)
    ultimately show ?thesis
      by (auto simp: get_be_snoc bit_simps snoc.IH k)
  qed
qed

lemma rev_put_be_nth: "i < n \<Longrightarrow> rev (put_be n v) ! i = ucast (drop_bit (8 * i) v)"
  by (simp add: put_be_def rev_map)

lemma get_put_be:
  "(get_be (put_be n (v :: 'b::len word)) :: 'a::len word) = ucast (take_bit (8 * n) v)"
proof (rule bit_word_eqI)
  fix k assume k: "k < LENGTH('a)"
  have "k div 8 < n \<longleftrightarrow> k < 8 * n" by auto
  then show "bit (get_be (put_be n v) :: 'a word) k = bit (ucast (take_bit (8 * n) v) :: 'a word) k"
    using k by (auto simp: bit_get_be rev_put_be_nth bit_simps dest: bit_imp_le_length)
qed

lemma put_get_be:
  assumes "8 * length bs \<le> LENGTH('a)"
  shows "put_be (length bs) (get_be bs :: 'a::len word) = bs"
proof -
  have "rev (put_be (length bs) (get_be bs :: 'a word)) = rev bs"
  proof (rule nth_equalityI)
    fix i assume "i < length (rev (put_be (length bs) (get_be bs :: 'a word)))"
    then have i: "i < length bs" by simp
    show "rev (put_be (length bs) (get_be bs :: 'a word)) ! i = rev bs ! i"
    proof (rule bit_word_eqI)
      fix k assume "k < LENGTH(8)"
      then have k: "k < 8" by simp
      then have "8 * i + k < LENGTH('a)" using i assms by linarith
      then show "bit (rev (put_be (length bs) (get_be bs :: 'a word)) ! i) k = bit (rev bs ! i) k"
        using k i by (simp add: rev_put_be_nth bit_simps bit_get_be add.commute)
    qed
  qed simp
  then show ?thesis by simp
qed


lemma length_bytes_of_string [simp]: "length (bytes_of_string s) = length s"
  by (simp add: bytes_of_string_def)

lemma length_string_of_bytes [simp]: "length (string_of_bytes bs) = length bs"
  by (simp add: string_of_bytes_def)

lemma string_of_bytes_of_string [simp]: "string_of_bytes (bytes_of_string s) = s"
proof -
  have "char_of (unat (of_char c :: byte)) = c" for c :: char
  proof -
    have "unat (of_nat (of_char c) :: byte) = of_char c"
      by (simp add: unsigned_of_nat take_bit_eq_mod)
    then have "unat (of_char c :: byte) = of_char c" by (simp only: of_nat_of_char)
    then show ?thesis by simp
  qed
  then show ?thesis by (simp add: string_of_bytes_def bytes_of_string_def comp_def)
qed

lemma bytes_of_string_of_bytes [simp]: "bytes_of_string (string_of_bytes bs) = bs"
proof -
  have "(of_char (char_of (unat b)) :: byte) = b" for b :: byte
  proof -
    have "unat b < 256" using unsigned_less [of b] by simp
    then have "(of_char (char_of (unat b)) :: nat) = unat b" by simp
    then show ?thesis by (metis of_nat_of_char of_nat_unat ucast_id)
  qed
  then show ?thesis by (simp add: string_of_bytes_def bytes_of_string_def comp_def)
qed

section \<open>Lemmas on readers and writers\<close>

lemma read_full_append [simp]: "n = length a \<Longrightarrow> read_full n (a @ b) = Inr (a, b)"
  by (simp add: read_full_def)

lemma read_full_exact [simp]: "read_full (length a) (a @ b) = Inr (a, b)"
  by simp

lemma read_full_Inr_iff:
  "read_full n src = Inr (a, b) \<longleftrightarrow> src = a @ b \<and> length a = n"
  by (auto simp: read_full_def)

lemma read_full_Inl_cases:
  "read_full n src = Inl e \<Longrightarrow> length src < n \<and> (e = EOF \<and> src = [] \<or> e = ErrUnexpectedEOF \<and> src \<noteq> [])"
  by (auto simp: read_full_def split: if_splits)

lemma read_full_short:
  "length src < n \<Longrightarrow> read_full n src = Inl (if src = [] then EOF else ErrUnexpectedEOF)"
  by (simp add: read_full_def)

lemma bindE_simps [simp]: "bindE (Inl e) k = Inl e" "bindE (Inr a) k = k a"
  by (simp_all add: bindE_def)

lemma bindE_Inr_iff: "bindE m k = Inr b \<longleftrightarrow> (\<exists>a. m = Inr a \<and> k a = Inr b)"
  by (cases m) simp_all

lemma bindE_Inl_iff: "bindE m k = Inl e \<longleftrightarrow> m = Inl e \<or> (\<exists>a. m = Inr a \<and> k a = Inl e)"
  by (cases m) auto

lemma io_write_good:
  "good_writer w \<Longrightarrow> \<exists>w'. io_write w b = (None, w') \<and> good_writer w' \<and> w_out w' = w_out w @ b"
  by (auto simp: io_write_def good_writer_def split: list.split option.split)

lemma io_write_prefix:
  "io_write w b = (r, w') \<Longrightarrow> \<exists>k. w_out w' = w_out w @ take k b \<and> (r = None \<longrightarrow> take k b = b)"
  by (auto simp: io_write_def split: list.splits option.splits intro: exI [of _ "length b"])

lemma read_loop_mono: "read_loop rd n src = (fs, Some e) \<Longrightarrow> n \<le> m \<Longrightarrow> read_loop rd m src = (fs, Some e)"
proof (induction n arbitrary: m src fs)
  case (Suc n)
  then obtain m' where "m = Suc m'" "n \<le> m'" by (cases m) auto
  then show ?case using Suc.IH [of _ _ m'] Suc.prems(1) by (auto split: sum.splits prod.splits)
qed simp

lemma list_all_update: "list_all P xs \<Longrightarrow> P x \<Longrightarrow> list_all P (xs[i := x])"
  unfolding list_all_iff using set_update_subset_insert [of xs i x] by auto

text \<open>Where a cut of a sequence of frames falls.\<close>

lemma take_concat_split:
  "k \<le> length (concat xss) \<Longrightarrow> \<exists>m t. m \<le> length xss \<and> take k (concat xss) = concat (take m xss) @ t \<and>
     (if m = length xss then t = [] else (\<exists>j < length (xss ! m). t = take j (xss ! m)))"
proof (induction xss arbitrary: k)
  case (Cons xs xss)
  show ?case
  proof (cases "k < length xs")
    case True
    then show ?thesis by (intro exI [of _ 0] exI [of _ "take k xs"]) auto
  next
    case False
    then have "k - length xs \<le> length (concat xss)" using Cons.prems by simp
    from Cons.IH [OF this] obtain m t where "m \<le> length xss" "take (k - length xs) (concat xss) = concat (take m xss) @ t"
      "if m = length xss then t = [] else (\<exists>j < length (xss ! m). t = take j (xss ! m))"
      by blast
    then show ?thesis using False by (intro exI [of _ "Suc m"] exI [of _ t]) simp
  qed
qed simp

section \<open>Lemmas on channels\<close>

lemma make_chan_sel [simp]:
  "c_buf (make_chan n) = []" "c_cap (make_chan n) = n" "c_closed (make_chan n) = False"
  by (simp_all add: make_chan_def)

lemma chan_send_ok:
  "chan_send x c = Sent c' \<Longrightarrow>
     c_buf c' = c_buf c @ [x] \<and> c_cap c' = c_cap c \<and> \<not> c_closed c' \<and> length (c_buf c) < c_cap c"
  by (auto simp: chan_send_def split: if_splits)

lemma chan_drop1_sel [simp]:
  "c_buf (chan_drop1 c) = drop 1 (c_buf c)" "c_cap (chan_drop1 c) = c_cap c"
  "c_closed (chan_drop1 c) = c_closed c"
  by (auto simp: chan_drop1_def chan_recv_def split: list.split)

lemma chan_ok_preserved [intro]:
  "chan_ok (make_chan n)"
  "chan_ok c \<Longrightarrow> chan_ok (chan_drop1 c)"
  "chan_send x c = Sent c' \<Longrightarrow> chan_ok c'"
  by (auto simp: chan_ok_def chan_send_def split: if_splits)

section \<open>Contract of a self-delimiting frame codec\<close>

text \<open>What a stream reader relies on: a well-formed frame written in front of anything is read
  back leaving the rest, reading consumes input, and a clean end of stream is \<open>EOF\<close>.\<close>

locale frame_codec =
  fixes enc :: "'f \<Rightarrow> bytes"
    and dec :: "bytes \<Rightarrow> go_error + 'f \<times> bytes"
    and ok :: "'f \<Rightarrow> bool"
  assumes dec_enc: "ok f \<Longrightarrow> dec (enc f @ rest) = Inr (f, rest)"
    and dec_consumes: "dec src = Inr (f, rest) \<Longrightarrow> length rest < length src"
    and dec_eof: "dec [] = Inl EOF"
begin

lemma read_loop_frames:
  "list_all ok fs \<Longrightarrow> length fs < n \<Longrightarrow>
     read_loop dec n (concat (map enc fs) @ tail) =
       (let (gs, e) = read_loop dec (n - length fs) tail in (fs @ gs, e))"
proof (induction fs arbitrary: n)
  case Nil
  then show ?case by (simp split: prod.split)
next
  case (Cons f fs)
  then obtain m where "n = Suc m" "length fs < m" by (cases n) auto
  with Cons show ?case by (simp add: dec_enc split: prod.split)
qed

lemma read_loop_all:
  "list_all ok fs \<Longrightarrow> length fs < n \<Longrightarrow> read_loop dec n (concat (map enc fs)) = (fs, Some EOF)"
proof -
  assume a: "list_all ok fs" "length fs < n"
  then obtain m where "n - length fs = Suc m" by (metis Suc_diff_Suc)
  with read_loop_frames [OF a, of "[]"] show ?thesis by (simp add: dec_eof)
qed

lemma read_loop_enough:
  "length src < n \<Longrightarrow> \<exists>fs e. read_loop dec n src = (fs, Some e)"
proof (induction n arbitrary: src)
  case (Suc n)
  show ?case
  proof (cases "dec src")
    case (Inr p)
    then obtain f rest where p: "p = (f, rest)" by (cases p)
    then have "length rest < n" using dec_consumes Inr Suc.prems by fastforce
    with Suc.IH obtain fs e where "read_loop dec n rest = (fs, Some e)" by blast
    then show ?thesis using Inr p by simp
  qed simp
qed simp

lemma enc_nonempty: "ok f \<Longrightarrow> enc f \<noteq> []"
  by (metis Inl_Inr_False append.right_neutral dec_enc dec_eof)

lemma enc_prefix_free:
  "ok f \<Longrightarrow> ok g \<Longrightarrow> enc f @ r = enc g @ s \<Longrightarrow> f = g \<and> r = s"
  by (metis dec_enc Inr_inject prod.inject)

lemma enc_list_inj:
  "list_all ok fs \<Longrightarrow> list_all ok gs \<Longrightarrow> concat (map enc fs) = concat (map enc gs) \<Longrightarrow> fs = gs"
  using read_loop_all [of fs "Suc (length fs + length gs)"]
    read_loop_all [of gs "Suc (length fs + length gs)"] by simp

end

text \<open>A canonical codec in addition accepts nothing but the bytes of its own frames, so a torn
  frame is never mistaken for a frame.\<close>

locale canonical_codec = frame_codec +
  assumes dec_canonical: "dec src = Inr (f, rest) \<Longrightarrow> ok f \<and> src = enc f @ rest"
begin

lemma dec_torn:
  assumes "ok f" "k < length (enc f)"
  shows "\<exists>e. dec (take k (enc f)) = Inl e"
proof (cases "dec (take k (enc f))")
  case (Inr p)
  then obtain g r where g: "ok g" "take k (enc f) = enc g @ r"
    using dec_canonical by (cases p) blast
  then have "enc f @ [] = enc g @ r @ drop k (enc f)"
    by (metis append.assoc append.right_neutral append_take_drop_id)
  then have "drop k (enc f) = []" using enc_prefix_free assms(1) g(1) by blast
  then show ?thesis using assms(2) by simp
qed simp

lemma read_loop_torn:
  assumes "list_all ok fs" "k < length (concat (map enc fs))" "length fs < n"
  shows "\<exists>m e. m < length fs \<and> read_loop dec n (take k (concat (map enc fs))) = (take m fs, Some e)
    \<and> (\<forall>j. j \<le> length fs \<longrightarrow> length (concat (map enc (take j fs))) \<le> k \<longrightarrow> j \<le> m)"
  using assms
proof (induction fs arbitrary: k n)
  case (Cons f fs)
  then obtain n' where n: "n = Suc n'" "length fs < n'" by (cases n) auto
  have ok: "ok f" "list_all ok fs" using Cons.prems(1) by auto
  show ?case
  proof (cases "k < length (enc f)")
    case True
    then obtain e where e: "dec (take k (enc f)) = Inl e" using dec_torn ok by blast
    have "j = 0" if "length (concat (map enc (take j (f # fs)))) \<le> k" for j
      using that True by (cases j) auto
    then show ?thesis using True n e by (intro exI [of _ 0] exI [of _ e]) auto
  next
    case False
    let ?k = "k - length (enc f)"
    have "?k < length (concat (map enc fs))" using Cons.prems(2) False by simp
    then obtain m e where m: "m < length fs"
      "read_loop dec n' (take ?k (concat (map enc fs))) = (take m fs, Some e)"
      "\<forall>j. j \<le> length fs \<longrightarrow> length (concat (map enc (take j fs))) \<le> ?k \<longrightarrow> j \<le> m"
      using Cons.IH [OF ok(2) _ n(2)] by blast
    have "j \<le> Suc m" if "j \<le> length (f # fs)" "length (concat (map enc (take j (f # fs)))) \<le> k" for j
      using that m(3) by (cases j) auto
    moreover have "read_loop dec n (take k (concat (map enc (f # fs)))) = (take (Suc m) (f # fs), Some e)"
      using False n m(2) ok by (simp add: dec_enc)
    ultimately show ?thesis using m(1) by (intro exI [of _ "Suc m"] exI [of _ e]) auto
  qed
qed simp

end

text \<open>A frame writer emits the codec's bytes, or a proper beginning of them when it fails.\<close>

locale frame_writer = canonical_codec +
  fixes wr :: "writer \<Rightarrow> 'a \<Rightarrow> go_error option \<times> writer"
  assumes wr_good: "ok f \<Longrightarrow> good_writer w \<Longrightarrow>
      \<exists>w'. wr w f = (None, w') \<and> good_writer w' \<and> w_out w' = w_out w @ enc f"
    and wr_prefix: "ok f \<Longrightarrow> wr w f = (r, w') \<Longrightarrow>
      \<exists>k. w_out w' = w_out w @ take k (enc f) \<and> (r = None \<longrightarrow> take k (enc f) = enc f)"
begin

lemma write_all_good:
  "list_all ok fs \<Longrightarrow> good_writer w \<Longrightarrow>
     \<exists>w'. write_all wr w fs = (length fs, None, w') \<and> w_out w' = w_out w @ concat (map enc fs)"
proof (induction fs arbitrary: w)
  case (Cons f fs)
  then obtain w1 where w1: "wr w f = (None, w1)" "good_writer w1" "w_out w1 = w_out w @ enc f"
    using wr_good by fastforce
  with Cons obtain w' where "write_all wr w1 fs = (length fs, None, w')"
    "w_out w' = w_out w1 @ concat (map enc fs)" by fastforce
  then show ?case using w1 by simp
qed simp

lemma write_all_prefix:
  "list_all ok fs \<Longrightarrow> write_all wr w fs = (n, r, w') \<Longrightarrow>
     \<exists>k. w_out w' = w_out w @ take k (concat (map enc fs))
       \<and> length (concat (map enc (take n fs))) \<le> k \<and> n \<le> length fs"
proof (induction fs arbitrary: w n)
  case (Cons f fs)
  obtain r1 w1 where w1: "wr w f = (r1, w1)" by fastforce
  then obtain k where k: "w_out w1 = w_out w @ take k (enc f)" "r1 = None \<longrightarrow> take k (enc f) = enc f"
    using wr_prefix [of f w r1 w1] Cons.prems(1) by auto
  show ?case
  proof (cases r1)
    case None
    then obtain m where m: "n = Suc m" "write_all wr w1 fs = (m, r, w')"
      using Cons.prems(2) w1 by (auto split: prod.splits)
    with Cons.IH Cons.prems(1) obtain j where
      "w_out w' = w_out w1 @ take j (concat (map enc fs))"
      "length (concat (map enc (take m fs))) \<le> j" "m \<le> length fs" by fastforce
    then show ?thesis using None k m by (intro exI [of _ "length (enc f) + j"]) simp
  next
    case (Some e)
    then have "n = 0" "w' = w1" using Cons.prems(2) w1 by auto
    then show ?thesis using k by (intro exI [of _ "min k (length (enc f))"]) (simp add: min_def)
  qed
qed simp

lemma write_read_good:
  assumes "list_all ok fs" "good_writer w" "w_out w = []"
  shows "\<exists>w'. write_all wr w fs = (length fs, None, w') \<and>
     read_loop dec (Suc (length (w_out w'))) (w_out w') = (fs, Some EOF)"
proof -
  have "length fs \<le> length (concat (map enc fs))" using assms(1)
  proof (induction fs)
    case (Cons f fs)
    then show ?case using enc_nonempty [of f] by (cases "enc f") auto
  qed simp
  moreover obtain w' where "write_all wr w fs = (length fs, None, w')" "w_out w' = concat (map enc fs)"
    using write_all_good [OF assms(1,2)] assms(3) by auto
  ultimately show ?thesis by (simp add: read_loop_all [OF assms(1)] del: read_loop.simps)
qed

lemma write_read_prefix:
  assumes "list_all ok fs" "w_out w = []" "write_all wr w fs = (n, r, w')"
  shows "\<exists>m e. n \<le> m \<and> m \<le> length fs \<and>
    read_loop dec (Suc (length fs)) (w_out w') = (take m fs, Some e)"
proof -
  obtain k where k: "w_out w' = take k (concat (map enc fs))"
    "length (concat (map enc (take n fs))) \<le> k" "n \<le> length fs"
    using write_all_prefix [OF assms(1,3)] assms(2) by auto
  show ?thesis
  proof (cases "k < length (concat (map enc fs))")
    case True
    from read_loop_torn [OF assms(1) True, of "Suc (length fs)"] show ?thesis
      using k by (metis lessI less_imp_le)
  next
    case False
    then show ?thesis using k read_loop_all [OF assms(1)]
      by (intro exI [of _ "length fs"]) (simp del: read_loop.simps)
  qed
qed

end

section \<open>Contract of a transition system with an invariant\<close>

inductive reach :: "('s \<Rightarrow> bool) \<Rightarrow> ('s \<Rightarrow> 'l \<Rightarrow> 's \<Rightarrow> bool) \<Rightarrow> 's \<Rightarrow> bool"
  for init :: "'s \<Rightarrow> bool" and step :: "'s \<Rightarrow> 'l \<Rightarrow> 's \<Rightarrow> bool" where
  reach_init: "init s \<Longrightarrow> reach init step s"
| reach_step: "reach init step s \<Longrightarrow> step s l s' \<Longrightarrow> reach init step s'"

locale transition_system =
  fixes init :: "'s \<Rightarrow> bool" and step :: "'s \<Rightarrow> 'l \<Rightarrow> 's \<Rightarrow> bool" and inv :: "'s \<Rightarrow> bool"
  assumes inv_init: "init s \<Longrightarrow> inv s"
    and inv_step: "inv s \<Longrightarrow> step s l s' \<Longrightarrow> inv s'"
begin

lemma reach_inv: "reach init step s \<Longrightarrow> inv s"
  by (induction rule: reach.induct) (auto intro: inv_init inv_step)

end

end
