(* ===== verification/Feed_Scheduler.thy ===== *)
theory Feed_Scheduler
  imports Prelude "HOL-Library.Product_Lexorder"
begin

text \<open>
  The priority scheduler of \<^verbatim>\<open>feed/scheduler.go\<close>: the binary heap of Go's \<^verbatim>\<open>container/heap\<close> on the
  \<^verbatim>\<open>workHeap\<close> slice, the operations of \<^verbatim>\<open>Scheduler\<close>, and the worker and watcher goroutines as steps
  that interleave with submitters. Work items are opaque values of type \<open>'w\<close>.
\<close>

section \<open>The heap of container/heap\<close>

text \<open>\<^verbatim>\<open>up\<close> and \<^verbatim>\<open>down\<close> work on the slice in place; \<open>lt\<close> is the \<^verbatim>\<open>Less\<close> method on elements.\<close>

definition swap_at :: "nat \<Rightarrow> nat \<Rightarrow> 'a list \<Rightarrow> 'a list" where
  "swap_at i j xs = xs[i := xs ! j, j := xs ! i]"

lemma length_swap_at [simp]: "length (swap_at i j xs) = length xs"
  by (simp add: swap_at_def)

function heap_up :: "('a \<Rightarrow> 'a \<Rightarrow> bool) \<Rightarrow> 'a list \<Rightarrow> nat \<Rightarrow> 'a list" where
  "heap_up lt xs j =
     (let i = (j - 1) div 2 in
      if i = j \<or> \<not> lt (xs ! j) (xs ! i) then xs else heap_up lt (swap_at i j xs) i)"
  by pat_completeness auto
termination by (relation "measure (\<lambda>(_, _, j). j)") auto

function heap_down :: "('a \<Rightarrow> 'a \<Rightarrow> bool) \<Rightarrow> 'a list \<Rightarrow> nat \<Rightarrow> nat \<Rightarrow> 'a list" where
  "heap_down lt xs i n =
     (let j1 = 2 * i + 1 in
      if j1 \<ge> n then xs
      else
        let j2 = j1 + 1; j = (if j2 < n \<and> lt (xs ! j2) (xs ! j1) then j2 else j1) in
        if \<not> lt (xs ! j) (xs ! i) then xs else heap_down lt (swap_at i j xs) j n)"
  by pat_completeness auto
termination by (relation "measure (\<lambda>(_, _, i, n). n - i)") (auto split: if_splits)

declare heap_up.simps [simp del] heap_down.simps [simp del]

definition heap_push :: "('a \<Rightarrow> 'a \<Rightarrow> bool) \<Rightarrow> 'a \<Rightarrow> 'a list \<Rightarrow> 'a list" where
  "heap_push lt x xs = heap_up lt (xs @ [x]) (length xs)"

definition heap_pop :: "('a \<Rightarrow> 'a \<Rightarrow> bool) \<Rightarrow> 'a list \<Rightarrow> 'a \<times> 'a list" where
  "heap_pop lt xs =
     (let n = length xs - 1; ys = heap_down lt (swap_at 0 n xs) 0 n in (ys ! n, take n ys))"

section \<open>Heap order\<close>

definition parent :: "nat \<Rightarrow> nat" where
  "parent j = (j - 1) div 2"

lemma parent_less: "parent j < j \<longleftrightarrow> 0 < j" "parent j = j \<longleftrightarrow> j = 0" "parent 0 = 0"
  by (auto simp: parent_def)

lemma parent_iff: "0 < c \<Longrightarrow> parent c = i \<longleftrightarrow> c = 2 * i + 1 \<or> c = 2 * i + 2"
  by (auto simp: parent_def)

text \<open>\<open>edges key xs n except\<close>: below \<open>n\<close>, every parent is at most its child, except at the children
  singled out.\<close>

definition edges :: "('a \<Rightarrow> 'k::linorder) \<Rightarrow> 'a list \<Rightarrow> nat \<Rightarrow> (nat \<Rightarrow> bool) \<Rightarrow> bool" where
  "edges key xs n exc \<longleftrightarrow>
     (\<forall>c < n. 0 < c \<longrightarrow> \<not> exc c \<longrightarrow> key (xs ! parent c) \<le> key (xs ! c))"

definition is_heap :: "('a \<Rightarrow> 'k::linorder) \<Rightarrow> 'a list \<Rightarrow> bool" where
  "is_heap key xs \<longleftrightarrow> edges key xs (length xs) (\<lambda>_. False)"

text \<open>The grandchildren condition that makes a repair at \<open>j\<close> possible.\<close>

definition bridge :: "('a \<Rightarrow> 'k::linorder) \<Rightarrow> 'a list \<Rightarrow> nat \<Rightarrow> nat \<Rightarrow> bool" where
  "bridge key xs n j \<longleftrightarrow>
     (0 < j \<longrightarrow> (\<forall>c < n. 0 < c \<longrightarrow> parent c = j \<longrightarrow> key (xs ! parent j) \<le> key (xs ! c)))"

lemma edgesD: "edges key xs n exc \<Longrightarrow> c < n \<Longrightarrow> 0 < c \<Longrightarrow> \<not> exc c \<Longrightarrow> key (xs ! parent c) \<le> key (xs ! c)"
  by (simp add: edges_def)

lemma bridgeD: "bridge key xs n j \<Longrightarrow> 0 < j \<Longrightarrow> c < n \<Longrightarrow> 0 < c \<Longrightarrow> parent c = j \<Longrightarrow>
   key (xs ! parent j) \<le> key (xs ! c)"
  by (simp add: bridge_def)

lemma nth_swap_at:
  "i < length xs \<Longrightarrow> j < length xs \<Longrightarrow>
     swap_at i j xs ! k = (if k = j then xs ! i else if k = i then xs ! j else xs ! k)"
  by (cases "k < length xs") (auto simp: swap_at_def nth_list_update)

lemma mset_swap_at: "i < length xs \<Longrightarrow> j < length xs \<Longrightarrow> mset (swap_at i j xs) = mset xs"
  by (simp add: swap_at_def mset_swap)

lemma up_step:
  assumes "j < length xs" "edges key xs (length xs) (\<lambda>c. c = j)" "bridge key xs (length xs) j"
    "0 < j" "key (xs ! j) < key (xs ! parent j)"
  defines "ys \<equiv> swap_at (parent j) j xs"
  shows "edges key ys (length xs) (\<lambda>c. c = parent j)" "bridge key ys (length xs) (parent j)"
proof -
  have j: "parent j < j" "parent j < length xs" using assms(1,4) parent_less(1) [of j] by simp_all
  note nth = nth_swap_at [OF j(2) assms(1), folded ys_def]
  have up: "key (xs ! parent j) \<le> key (xs ! c)" if "c < length xs" "0 < c" "parent c = parent j" "c \<noteq> j" for c
    using edgesD [OF assms(2) that(1,2)] that by simp
  have "key (ys ! parent c) \<le> key (ys ! c)" if c: "c < length xs" "0 < c" "c \<noteq> parent j" for c
  proof (cases "c = j \<or> parent c = j \<or> parent c = parent j")
    case True
    then show ?thesis
      using c(3) j(1) assms(5) up [OF c(1,2)] bridgeD [OF assms(3,4) c(1,2)] parent_less(1) [of c] c(2)
      unfolding nth by auto
  next
    case False
    then show ?thesis using edgesD [OF assms(2) c(1,2)] c(3) unfolding nth by simp
  qed
  then show "edges key ys (length xs) (\<lambda>c. c = parent j)" by (simp add: edges_def)
  have "key (ys ! parent (parent j)) \<le> key (ys ! c)"
    if c: "0 < parent j" "c < length xs" "0 < c" "parent c = parent j" for c
  proof -
    have "key (xs ! parent (parent j)) \<le> key (xs ! parent j)"
      using edgesD [OF assms(2) j(2) c(1)] j(1) by simp
    moreover have "parent (parent j) < parent j" using c(1) parent_less(1) by simp
    moreover have "c \<noteq> parent j" using c(3,4) parent_less(2) [of c] by auto
    ultimately show ?thesis using up [OF c(2,3,4)] j(1) unfolding nth by (cases "c = j") auto
  qed
  then show "bridge key ys (length xs) (parent j)" by (simp add: bridge_def)
qed

lemma heap_up_eq:
  "heap_up lt xs j = (if j = 0 \<or> \<not> lt (xs ! j) (xs ! parent j) then xs else heap_up lt (swap_at (parent j) j xs) (parent j))"
  unfolding heap_up.simps [of lt xs j] Let_def parent_def [symmetric] parent_less(2) by simp

lemma heap_up_correct:
  assumes "j < length xs" "edges key xs (length xs) (\<lambda>c. c = j)" "bridge key xs (length xs) j"
  shows "is_heap key (heap_up (\<lambda>x y. key x < key y) xs j)
    \<and> mset (heap_up (\<lambda>x y. key x < key y) xs j) = mset xs"
  using assms
proof (induction j arbitrary: xs rule: less_induct)
  case (less j)
  let ?lt = "\<lambda>x y. key x < key y"
  show ?case
  proof (cases "j = 0 \<or> \<not> key (xs ! j) < key (xs ! parent j)")
    case True
    have "edges key xs (length xs) (\<lambda>_. False)"
      unfolding edges_def
    proof (intro allI impI)
      fix c assume "c < length xs" "0 < c"
      then show "key (xs ! parent c) \<le> key (xs ! c)"
        using edgesD [OF less.prems(2)] True by (cases "c = j") auto
    qed
    moreover have "heap_up ?lt xs j = xs" using True by (subst heap_up_eq) simp
    ultimately show ?thesis by (simp add: is_heap_def)
  next
    case False
    let ?ys = "swap_at (parent j) j xs"
    have j: "0 < j" "parent j < j" "parent j < length xs"
      using False less.prems(1) parent_less(1) [of j] by simp_all
    note step = up_step [OF less.prems j(1)]
    have "is_heap key (heap_up ?lt ?ys (parent j)) \<and> mset (heap_up ?lt ?ys (parent j)) = mset ?ys"
      using step False j(3) by (intro less.IH [OF j(2)]) simp_all
    moreover have "heap_up ?lt xs j = heap_up ?lt ?ys (parent j)"
      using False by (subst heap_up_eq) simp
    ultimately show ?thesis using mset_swap_at [OF j(3) less.prems(1)] by simp
  qed
qed

text \<open>The child that \<^verbatim>\<open>down\<close> compares with: the smaller one, the left one on a tie.\<close>

lemma down_step:
  assumes "n \<le> length xs" "2 * i + 1 < n" "edges key xs n (\<lambda>c. parent c = i)" "bridge key xs n i"
    and j: "j = (if 2 * i + 2 < n \<and> key (xs ! (2 * i + 2)) < key (xs ! (2 * i + 1)) then 2 * i + 2 else 2 * i + 1)"
    and lt: "key (xs ! j) < key (xs ! i)"
  defines "ys \<equiv> swap_at i j xs"
  shows "edges key ys n (\<lambda>c. parent c = j)" "bridge key ys n j" "i < j" "j < n" "parent j = i"
proof -
  show ij: "i < j" "j < n" using assms(2) j by (auto split: if_splits)
  show pj: "parent j = i" using j ij(1) by (subst parent_iff) (auto split: if_splits)
  have il: "i < length xs" "j < length xs" using ij assms(1) by simp_all
  note nth = nth_swap_at [OF il, folded ys_def]
  have min: "key (xs ! j) \<le> key (xs ! c)" if "c < n" "0 < c" "parent c = i" for c
    using that parent_iff [of c i] j by (auto split: if_splits)
  have "key (ys ! parent c) \<le> key (ys ! c)" if c: "c < n" "0 < c" "parent c \<noteq> j" for c
  proof (cases "parent c = i")
    case True
    then have "c \<noteq> i" using c(2) parent_less(2) [of c] by auto
    then show ?thesis using True min [OF c(1,2)] lt ij(1) unfolding nth by auto
  next
    case False
    then have "c \<noteq> j" using pj by auto
    moreover have "key (xs ! parent c) \<le> key (xs ! c)" using edgesD [OF assms(3) c(1,2)] False by simp
    moreover have "key (xs ! parent i) \<le> key (xs ! j)" if "c = i"
      using bridgeD [OF assms(4), of j] that c(2) ij pj by simp
    ultimately show ?thesis using False c(3) unfolding nth by auto
  qed
  then show "edges key ys n (\<lambda>c. parent c = j)" by (simp add: edges_def)
  have "key (ys ! i) \<le> key (ys ! c)" if c: "c < n" "0 < c" "parent c = j" for c
  proof -
    have "key (xs ! j) \<le> key (xs ! c)" using edgesD [OF assms(3) c(1,2)] c(3) ij(1) by simp
    moreover have "c \<noteq> j" "c \<noteq> i" using c(2,3) parent_less(1) [of c] ij(1) by auto
    ultimately show ?thesis using ij(1) unfolding nth by simp
  qed
  then show "bridge key ys n j" using pj by (simp add: bridge_def)
qed

lemma heap_down_eq:
  "heap_down lt xs i n =
     (if 2 * i + 1 \<ge> n then xs
      else let j = (if 2 * i + 2 < n \<and> lt (xs ! (2 * i + 2)) (xs ! (2 * i + 1)) then 2 * i + 2 else 2 * i + 1) in
        if \<not> lt (xs ! j) (xs ! i) then xs else heap_down lt (swap_at i j xs) j n)"
  by (subst heap_down.simps) (simp add: Let_def)

lemma heap_down_correct:
  assumes "n \<le> length xs" "i < n \<or> n = 0" "edges key xs n (\<lambda>c. parent c = i)" "bridge key xs n i"
  defines "zs \<equiv> heap_down (\<lambda>x y. key x < key y) xs i n"
  shows "edges key zs n (\<lambda>_. False) \<and> mset zs = mset xs \<and> length zs = length xs
    \<and> (\<forall>k. n \<le> k \<longrightarrow> zs ! k = xs ! k)"
  using assms(1-4) unfolding zs_def
proof (induction "n - i" arbitrary: xs i rule: less_induct)
  case less
  let ?lt = "\<lambda>x y. key x < key y"
  define j where j: "j = (if 2 * i + 2 < n \<and> key (xs ! (2 * i + 2)) < key (xs ! (2 * i + 1)) then 2 * i + 2 else 2 * i + 1)"
  have eq: "heap_down ?lt xs i n
      = (if 2 * i + 1 \<ge> n \<or> \<not> key (xs ! j) < key (xs ! i) then xs else heap_down ?lt (swap_at i j xs) j n)"
    unfolding heap_down_eq [of ?lt xs i n] Let_def j [symmetric] by simp
  show ?case
  proof (cases "2 * i + 1 \<ge> n \<or> \<not> key (xs ! j) < key (xs ! i)")
    case True
    have "key (xs ! parent c) \<le> key (xs ! c)" if c: "c < n" "0 < c" for c
    proof (cases "parent c = i")
      case False
      then show ?thesis using edgesD [OF less.prems(3) c] by simp
    next
      case p: True
      then show ?thesis using True c parent_iff [OF c(2), of i] by (auto simp: j split: if_splits)
    qed
    then show ?thesis using eq True by (simp add: edges_def)
  next
    case False
    then have l: "2 * i + 1 < n" "key (xs ! j) < key (xs ! i)" by auto
    note step = down_step [OF less.prems(1) l(1) less.prems(3,4) j l(2)]
    define ys where "ys = swap_at i j xs"
    have il: "i < length xs" "j < length xs" using step(3,4) less.prems(1) by linarith+
    have "n - j < n - i" using step(3,4) by linarith
    from less.hyps [OF this, of ys] have "edges key (heap_down ?lt ys j n) n (\<lambda>_. False)
        \<and> mset (heap_down ?lt ys j n) = mset ys \<and> length (heap_down ?lt ys j n) = length ys
        \<and> (\<forall>k. n \<le> k \<longrightarrow> heap_down ?lt ys j n ! k = ys ! k)"
      using less.prems(1) step by (simp add: ys_def)
    then show ?thesis
      using eq l step(3,4) mset_swap_at [OF il] nth_swap_at [OF il] by (simp add: ys_def)
  qed
qed

lemma heap_min:
  assumes "is_heap key xs" "i < length xs"
  shows "key (xs ! 0) \<le> key (xs ! i)"
  using assms(2)
proof (induction i rule: less_induct)
  case (less i)
  show ?case
  proof (cases "i = 0")
    case False
    then have "parent i < i" using parent_less(1) [of i] by simp
    then have "key (xs ! 0) \<le> key (xs ! parent i)" using less by simp
    also have "\<dots> \<le> key (xs ! i)"
      using assms(1) less.prems False by (simp add: is_heap_def edges_def)
    finally show ?thesis .
  qed simp
qed

section \<open>Contract of a priority queue\<close>

locale priority_queue =
  fixes inv :: "'q \<Rightarrow> bool" and elems :: "'q \<Rightarrow> 'a multiset"
    and empty :: 'q and push :: "'a \<Rightarrow> 'q \<Rightarrow> 'q" and pop :: "'q \<Rightarrow> 'a \<times> 'q"
    and key :: "'a \<Rightarrow> 'k::linorder"
  assumes inv_empty: "inv empty" and elems_empty: "elems empty = {#}"
    and inv_push: "inv q \<Longrightarrow> inv (push x q)"
    and elems_push: "inv q \<Longrightarrow> elems (push x q) = add_mset x (elems q)"
    and inv_pop: "inv q \<Longrightarrow> elems q \<noteq> {#} \<Longrightarrow> pop q = (x, q') \<Longrightarrow> inv q'"
    and elems_pop: "inv q \<Longrightarrow> elems q \<noteq> {#} \<Longrightarrow> pop q = (x, q') \<Longrightarrow> elems q = add_mset x (elems q')"
    and pop_min: "inv q \<Longrightarrow> elems q \<noteq> {#} \<Longrightarrow> pop q = (x, q') \<Longrightarrow> y \<in># elems q \<Longrightarrow> key x \<le> key y"
begin

text \<open>Popping until nothing is left yields everything, in key order.\<close>

fun pops :: "nat \<Rightarrow> 'q \<Rightarrow> 'a list" where
  "pops 0 q = []"
| "pops (Suc n) q = (let (x, q') = pop q in x # pops n q')"

lemma pops_sorted:
  "inv q \<Longrightarrow> n = size (elems q) \<Longrightarrow> mset (pops n q) = elems q \<and> sorted (map key (pops n q))"
proof (induction n arbitrary: q)
  case (Suc n)
  obtain x q' where p: "pop q = (x, q')" by fastforce
  have ne: "elems q \<noteq> {#}" using Suc.prems(2) by auto
  note e = elems_pop [OF Suc.prems(1) ne p]
  have IH: "mset (pops n q') = elems q'" "sorted (map key (pops n q'))"
    using Suc.IH [OF inv_pop [OF Suc.prems(1) ne p]] Suc.prems(2) e by simp_all
  have "key x \<le> key y" if "y \<in> set (pops n q')" for y
    using pop_min [OF Suc.prems(1) ne p] e IH(1) that by (metis set_mset_mset insert_iff set_mset_add_mset_insert)
  then show ?case using p e IH by simp
qed simp

end

lemma heap_push_correct:
  assumes "is_heap key xs"
  shows "is_heap key (heap_push (\<lambda>x y. key x < key y) x xs)
    \<and> mset (heap_push (\<lambda>x y. key x < key y) x xs) = add_mset x (mset xs)"
proof -
  have "edges key (xs @ [x]) (length (xs @ [x])) (\<lambda>c. c = length xs)"
    unfolding edges_def
  proof (intro allI impI)
    fix c assume c: "c < length (xs @ [x])" "0 < c" "c \<noteq> length xs"
    then have "parent c < length xs" using parent_less(1) [of c] by simp
    then show "key ((xs @ [x]) ! parent c) \<le> key ((xs @ [x]) ! c)"
      using c assms by (simp add: is_heap_def edges_def nth_append)
  qed
  moreover have "bridge key (xs @ [x]) (length (xs @ [x])) (length xs)"
    unfolding bridge_def
  proof (intro allI impI)
    fix c assume c: "c < length (xs @ [x])" "0 < c" "parent c = length xs"
    then show "key ((xs @ [x]) ! parent (length xs)) \<le> key ((xs @ [x]) ! c)"
      using parent_less(1) [of c] by simp
  qed
  ultimately show ?thesis unfolding heap_push_def using heap_up_correct [of "length xs" "xs @ [x]" key] by simp
qed

lemma heap_pop_correct:
  assumes "is_heap key xs" "xs \<noteq> []" "heap_pop (\<lambda>x y. key x < key y) xs = (x, xs')"
  shows "x = xs ! 0 \<and> is_heap key xs' \<and> mset xs = add_mset x (mset xs')"
proof -
  define n where "n = length xs - 1"
  define ys where "ys = swap_at 0 n xs"
  define zs where "zs = heap_down (\<lambda>x y. key x < key y) ys 0 n"
  have l: "n < length xs" "length ys = length xs" "0 < length xs" using assms(2) by (simp_all add: n_def ys_def)
  note nth = nth_swap_at [OF l(3,1), folded ys_def]
  have "key (ys ! parent c) \<le> key (ys ! c)" if c: "c < n" "0 < c" "parent c \<noteq> 0" for c
  proof -
    have "parent c < n" using c(1,2) parent_less(1) [of c] by simp
    then show ?thesis using assms(1) l(1) c unfolding nth by (simp add: is_heap_def edges_def)
  qed
  then have "edges key ys n (\<lambda>c. parent c = 0)" by (simp add: edges_def)
  then have z: "edges key zs n (\<lambda>_. False)" "mset zs = mset ys" "length zs = length ys" "zs ! n = ys ! n"
    using heap_down_correct [of n ys 0 key] l by (auto simp: zs_def bridge_def)
  have x: "x = zs ! n" "xs' = take n zs"
    using assms(3) by (simp_all add: heap_pop_def Let_def zs_def ys_def n_def)
  have "zs = take n zs @ [zs ! n]" using l z(3) by (metis n_def One_nat_def Suc_pred take_Suc_conv_app_nth take_all order_refl)
  then have "mset zs = add_mset x (mset xs')" using x by (metis mset.simps(2) mset_append union_mset_add_mset_right add.right_neutral mset.simps(1))
  moreover have "key (xs' ! parent c) \<le> key (xs' ! c)" if c: "c < length xs'" "0 < c" for c
  proof -
    have "parent c < n" "c < n" using c x(2) parent_less(1) [of c] by auto
    then show ?thesis using edgesD [OF z(1) _ c(2)] x(2) by simp
  qed
  then have "is_heap key xs'" by (simp add: is_heap_def edges_def)
  ultimately show ?thesis using z(2,4) x(1) nth mset_swap_at [OF l(3,1)] by (simp add: ys_def)
qed

section \<open>Scheduler state and operations\<close>

record 'w workEntry =
  we_priority :: "8 word"
  we_seq :: "64 word"
  we_do :: 'w

definition workHeap_Less :: "'w workEntry \<Rightarrow> 'w workEntry \<Rightarrow> bool" where
  "workHeap_Less a b =
     (if we_priority a \<noteq> we_priority b then we_priority a < we_priority b else we_seq a < we_seq b)"

definition entry_key :: "'w workEntry \<Rightarrow> 8 word \<times> 64 word" where
  "entry_key e = (we_priority e, we_seq e)"

record SchedulerStats =
  Submitted :: "64 word"
  Completed :: "64 word"
  HighPrioRuns :: "64 word"
  LowPrioRuns :: "64 word"

definition SchedulerPriorityHighThreshold :: "8 word" where "SchedulerPriorityHighThreshold = 2"

record 'w WorkItem =
  wi_Priority :: "8 word"
  wi_Do :: 'w

record 'w Scheduler =
  sch_items :: "'w workEntry list"
  sch_seq :: "64 word"
  sch_closed :: bool
  sch_started :: bool
  sch_shutdown :: bool
  sch_stats :: SchedulerStats

definition NewScheduler :: "'w Scheduler" where
  "NewScheduler = \<lparr>sch_items = [], sch_seq = 0, sch_closed = False, sch_started = False,
     sch_shutdown = False,
     sch_stats = \<lparr>Submitted = 0, Completed = 0, HighPrioRuns = 0, LowPrioRuns = 0\<rparr>\<rparr>"

text \<open>\<open>Start\<close> also says whether it launches the worker.\<close>

definition Start :: "'w Scheduler \<Rightarrow> bool \<times> 'w Scheduler" where
  "Start s = (if sch_started s then (False, s) else (True, s\<lparr>sch_started := True\<rparr>))"

definition Submit :: "'w WorkItem \<Rightarrow> 'w Scheduler \<Rightarrow> bool \<times> 'w Scheduler" where
  "Submit item s =
     (if sch_closed s then (False, s)
      else
        let st = sch_stats s; sq = sch_seq s + 1 in
        (True, s\<lparr>sch_stats := st\<lparr>Submitted := Submitted st + 1\<rparr>, sch_seq := sq,
                 sch_items := heap_push workHeap_Less
                   \<lparr>we_priority = wi_Priority item, we_seq = sq, we_do = wi_Do item\<rparr> (sch_items s)\<rparr>))"

definition Scheduler_Close :: "'w Scheduler \<Rightarrow> 'w Scheduler" where
  "Scheduler_Close s = s\<lparr>sch_shutdown := True\<rparr>"

text \<open>The locked part of one round of the worker: \<open>None\<close> when it waits, \<open>Some None\<close> when it returns.\<close>

definition worker_next :: "'w Scheduler \<Rightarrow> ('w workEntry \<times> 'w Scheduler) option option" where
  "worker_next s =
     (if sch_items s = [] then (if sch_closed s then Some None else None)
      else let (item, rest) = heap_pop workHeap_Less (sch_items s) in
           Some (Some (item, s\<lparr>sch_items := rest\<rparr>)))"

definition count_run :: "'w workEntry \<Rightarrow> 'w Scheduler \<Rightarrow> 'w Scheduler" where
  "count_run e s =
     (let st = sch_stats s in
      s\<lparr>sch_stats := if we_priority e \<le> SchedulerPriorityHighThreshold
                     then st\<lparr>HighPrioRuns := HighPrioRuns st + 1\<rparr>
                     else st\<lparr>LowPrioRuns := LowPrioRuns st + 1\<rparr>\<rparr>)"

definition count_done :: "'w Scheduler \<Rightarrow> 'w Scheduler" where
  "count_done s = (let st = sch_stats s in s\<lparr>sch_stats := st\<lparr>Completed := Completed st + 1\<rparr>\<rparr>)"

section \<open>Goroutines\<close>

text \<open>The worker is not started, between rounds, executing an item, or has returned. The system also
  keeps whether the context was cancelled, and two histories: the entries accepted by \<open>Submit\<close> in
  order and the entries executed in order.\<close>

datatype 'w worker = WNone | WLoop | WRun "'w workEntry" | WExited

record 'w sched_sys =
  sys_sch :: "'w Scheduler"
  sys_worker :: "'w worker"
  sys_ctx :: bool
  sys_accepted :: "'w workEntry list"
  sys_executed :: "'w workEntry list"

datatype 'w sched_label =
    LStart | LSubmit "'w WorkItem" bool | LClose | LCancel | LWatch | LPop "'w workEntry" | LDone | LExit

inductive sched_step :: "'w sched_sys \<Rightarrow> 'w sched_label \<Rightarrow> 'w sched_sys \<Rightarrow> bool" where
  st_start: "Start (sys_sch s) = (b, s1) \<Longrightarrow>
     sched_step s LStart (s\<lparr>sys_sch := s1, sys_worker := (if b then WLoop else sys_worker s)\<rparr>)"
| st_submit: "Submit item (sys_sch s) = (b, s1) \<Longrightarrow>
     sched_step s (LSubmit item b)
       (s\<lparr>sys_sch := s1, sys_accepted := sys_accepted s @
           (if b then [\<lparr>we_priority = wi_Priority item, we_seq = sch_seq s1, we_do = wi_Do item\<rparr>] else [])\<rparr>)"
| st_close: "sched_step s LClose (s\<lparr>sys_sch := Scheduler_Close (sys_sch s)\<rparr>)"
| st_cancel: "sched_step s LCancel (s\<lparr>sys_ctx := True\<rparr>)"
| st_watch: "sys_worker s \<noteq> WNone \<Longrightarrow> sys_ctx s \<or> sch_shutdown (sys_sch s) \<Longrightarrow>
     sched_step s LWatch (s\<lparr>sys_sch := (sys_sch s)\<lparr>sch_closed := True\<rparr>\<rparr>)"
| st_pop: "sys_worker s = WLoop \<Longrightarrow> worker_next (sys_sch s) = Some (Some (e, s1)) \<Longrightarrow>
     sched_step s (LPop e) (s\<lparr>sys_sch := count_run e s1, sys_worker := WRun e\<rparr>)"
| st_done: "sys_worker s = WRun e \<Longrightarrow>
     sched_step s LDone (s\<lparr>sys_sch := count_done (sys_sch s), sys_worker := WLoop,
                           sys_executed := sys_executed s @ [e]\<rparr>)"
| st_exit: "sys_worker s = WLoop \<Longrightarrow> worker_next (sys_sch s) = Some None \<Longrightarrow>
     sched_step s LExit (s\<lparr>sys_worker := WExited\<rparr>)"

inductive_cases sched_step_PopE: "sched_step s (LPop e) s'"

definition sched_init :: "'w sched_sys \<Rightarrow> bool" where
  "sched_init s \<longleftrightarrow> sys_sch s = NewScheduler \<and> sys_worker s = WNone \<and> sys_accepted s = [] \<and> sys_executed s = []"

section \<open>Scheduler lemmas\<close>

lemma workHeap_Less_key: "workHeap_Less = (\<lambda>a b. entry_key a < entry_key b)"
  by (auto simp: fun_eq_iff workHeap_Less_def entry_key_def less_prod_def)

lemmas workHeap_push = heap_push_correct [where key = entry_key, folded workHeap_Less_key]
lemmas workHeap_pop = heap_pop_correct [where key = entry_key, folded workHeap_Less_key]

interpretation wq: priority_queue "is_heap entry_key" mset "[]" "heap_push workHeap_Less"
  "heap_pop workHeap_Less" entry_key
proof (unfold_locales, goal_cases)
  case 1
  then show ?case by (simp add: is_heap_def edges_def)
next
  case (7 q x q' y)
  then have "x = q ! 0" using workHeap_pop [of q x q'] by simp
  moreover have "y \<in> set q" using 7(4) by simp
  ultimately show ?case using heap_min [OF 7(1)] by (auto simp: in_set_conv_nth)
qed (simp_all add: workHeap_push workHeap_pop)

definition running :: "'w worker \<Rightarrow> 'w workEntry multiset" where
  "running w = (case w of WRun e \<Rightarrow> {#e#} | _ \<Rightarrow> {#})"

definition sched_inv :: "'w sched_sys \<Rightarrow> bool" where
  "sched_inv s \<longleftrightarrow>
     is_heap entry_key (sch_items (sys_sch s))
   \<and> mset (sys_accepted s) = mset (sys_executed s) + running (sys_worker s) + mset (sch_items (sys_sch s))
   \<and> map we_seq (sys_accepted s) = map (\<lambda>i. of_nat (Suc i)) [0..<length (sys_accepted s)]
   \<and> sch_seq (sys_sch s) = of_nat (length (sys_accepted s))
   \<and> (sys_worker s \<noteq> WNone \<longleftrightarrow> sch_started (sys_sch s))
   \<and> (sys_worker s = WExited \<longrightarrow> sch_closed (sys_sch s) \<and> sch_items (sys_sch s) = [])"

lemma worker_next_pop:
  assumes "worker_next s = Some (Some (e, s1))"
  shows "sch_items s \<noteq> []" "heap_pop workHeap_Less (sch_items s) = (e, sch_items s1)"
    "s1 = s\<lparr>sch_items := sch_items s1\<rparr>"
  using assms by (auto simp: worker_next_def split: if_splits prod.splits)

lemma sched_inv_step: "sched_step s l s' \<Longrightarrow> sched_inv s \<Longrightarrow> sched_inv s'"
proof (induction rule: sched_step.induct)
  case (st_start s b s1)
  then show ?case by (auto simp: sched_inv_def Start_def running_def split: if_splits worker.splits)
next
  case (st_submit item s b s1)
  then show ?case
    by (auto simp: sched_inv_def Submit_def Let_def wq.inv_push wq.elems_push split: if_splits)
next
  case (st_pop s e s1)
  note w = worker_next_pop [OF st_pop(2)]
  have ne: "mset (sch_items (sys_sch s)) \<noteq> {#}" using w(1) by simp
  have h: "is_heap entry_key (sch_items (sys_sch s))" using st_pop(3) by (simp add: sched_inv_def)
  have s1: "sch_seq s1 = sch_seq (sys_sch s)" "sch_started s1 = sch_started (sys_sch s)"
    by (subst w(3), simp)+
  show ?case
    using st_pop wq.inv_pop [OF h ne w(2)] wq.elems_pop [OF h ne w(2)] s1
    by (auto simp: sched_inv_def count_run_def running_def Let_def)
next
  case (st_exit s)
  then show ?case by (auto simp: sched_inv_def worker_next_def running_def split: if_splits prod.splits)
qed (auto simp: sched_inv_def running_def Scheduler_Close_def count_done_def Let_def)

lemma sched_inv_init: "sched_init s \<Longrightarrow> sched_inv s"
  by (auto simp: sched_init_def sched_inv_def NewScheduler_def is_heap_def edges_def running_def)

interpretation sched: transition_system sched_init sched_step sched_inv
  by unfold_locales (auto intro: sched_inv_init sched_inv_step)

text \<open>The worker on its own after \<open>closed\<close> was set: rounds until it returns, with the entries run.\<close>

fun worker_drain :: "nat \<Rightarrow> 'w Scheduler \<Rightarrow> 'w workEntry list \<times> bool" where
  "worker_drain 0 s = ([], False)"
| "worker_drain (Suc n) s =
     (case worker_next s of
        None \<Rightarrow> ([], False)
      | Some None \<Rightarrow> ([], True)
      | Some (Some (e, s1)) \<Rightarrow> (let (es, ret) = worker_drain n (count_done (count_run e s1)) in (e # es, ret)))"

lemma count_sel [simp]:
  "sch_items (count_done s) = sch_items s" "sch_closed (count_done s) = sch_closed s"
  "sch_items (count_run e s) = sch_items s" "sch_closed (count_run e s) = sch_closed s"
  by (simp_all add: count_done_def count_run_def Let_def)

lemma worker_drain_pops:
  assumes "is_heap entry_key (sch_items s)" "sch_closed s" "length (sch_items s) = n"
  shows "worker_drain (Suc n) s = (wq.pops n (sch_items s), True)"
  using assms
proof (induction n arbitrary: s)
  case 0
  then show ?case by (simp add: worker_next_def)
next
  case (Suc n)
  then have ne: "sch_items s \<noteq> []" "mset (sch_items s) \<noteq> {#}" by auto
  obtain e r where p: "heap_pop workHeap_Less (sch_items s) = (e, r)" by fastforce
  have r: "is_heap entry_key r" "length r = n"
    using wq.inv_pop [OF Suc.prems(1) ne(2) p] wq.elems_pop [OF Suc.prems(1) ne(2) p] Suc.prems(3)
    by (auto dest: arg_cong [of _ _ size])
  have "worker_next s = Some (Some (e, s\<lparr>sch_items := r\<rparr>))" using ne p by (simp add: worker_next_def)
  then show ?case
    using Suc.IH [of "count_done (count_run e (s\<lparr>sch_items := r\<rparr>))"] Suc.prems(2) r p
    by (simp only: worker_drain.simps(2) [of "Suc n"]) simp
qed

section \<open>Properties\<close>

text \<open>C12. In every reachable state of the scheduler, submitters, watcher and worker interleaving, the
  entry the worker takes next is the most urgent one waiting, and among equally urgent ones the one
  submitted first.\<close>

theorem scheduler_order:
  assumes "reach sched_init sched_step s" "length (sys_accepted s) < 2 ^ 64 - 1" "sched_step s (LPop e) s'"
  shows "\<exists>i < length (sys_accepted s). sys_accepted s ! i = e \<and>
    (\<forall>j < length (sys_accepted s). sys_accepted s ! j \<in> set (sch_items (sys_sch s)) \<longrightarrow>
      we_priority e < we_priority (sys_accepted s ! j) \<or>
      we_priority e = we_priority (sys_accepted s ! j) \<and> i \<le> j)"
proof -
  have inv: "sched_inv s" using assms(1) by (rule sched.reach_inv)
  obtain s1 where w: "worker_next (sys_sch s) = Some (Some (e, s1))" using assms(3) by (auto elim: sched_step_PopE)
  note p = worker_next_pop [OF w]
  have h: "is_heap entry_key (sch_items (sys_sch s))" "mset (sch_items (sys_sch s)) \<noteq> {#}"
    using inv p(1) by (simp_all add: sched_inv_def)
  have "mset (sys_accepted s) = mset (sys_executed s) + running (sys_worker s) + mset (sch_items (sys_sch s))"
    using inv by (simp add: sched_inv_def)
  moreover have "e \<in># mset (sch_items (sys_sch s))" using wq.elems_pop [OF h p(2)] by simp
  ultimately have "e \<in># mset (sys_accepted s)" by simp
  then obtain i where i: "i < length (sys_accepted s)" "sys_accepted s ! i = e" by (auto simp: in_set_conv_nth)
  have sq: "we_seq (sys_accepted s ! k) = of_nat (Suc k)" if "k < length (sys_accepted s)" for k
  proof -
    have "map we_seq (sys_accepted s) ! k = map (\<lambda>i. of_nat (Suc i)) [0..<length (sys_accepted s)] ! k"
      using inv by (simp only: sched_inv_def)
    then show ?thesis using that by simp
  qed
  have "we_priority e < we_priority (sys_accepted s ! j) \<or>
      we_priority e = we_priority (sys_accepted s ! j) \<and> i \<le> j"
    if j: "j < length (sys_accepted s)" "sys_accepted s ! j \<in> set (sch_items (sys_sch s))" for j
  proof -
    have "entry_key e \<le> entry_key (sys_accepted s ! j)" using wq.pop_min [OF h p(2)] j(2) by simp
    moreover have "i \<le> j" if "we_seq e \<le> we_seq (sys_accepted s ! j)"
    proof -
      have "(of_nat (Suc i) :: 64 word) \<le> of_nat (Suc j)" using that sq [OF i(1)] sq [OF j(1)] i(2) by simp
      moreover have "unat (of_nat (Suc i) :: 64 word) = Suc i" "unat (of_nat (Suc j) :: 64 word) = Suc j"
        using i(1) j(1) assms(2) by (simp_all add: unsigned_of_nat take_bit_nat_eq_self del: of_nat_Suc)
      ultimately show ?thesis by (metis Suc_le_mono word_le_nat_alt)
    qed
    ultimately show ?thesis by (auto simp: entry_key_def less_eq_prod_def)
  qed
  then show ?thesis using i by blast
qed

definition ex_sched0 :: "nat sched_sys" where
  "ex_sched0 = \<lparr>sys_sch = NewScheduler, sys_worker = WNone, sys_ctx = False, sys_accepted = [], sys_executed = []\<rparr>"

definition ex_sched1 :: "nat sched_sys" where
  "ex_sched1 = ex_sched0\<lparr>sys_sch := NewScheduler\<lparr>sch_started := True\<rparr>, sys_worker := WLoop\<rparr>"

definition ex_entry :: "nat workEntry" where
  "ex_entry = \<lparr>we_priority = 4, we_seq = 1, we_do = 7\<rparr>"

definition ex_sched2 :: "nat sched_sys" where
  "ex_sched2 = ex_sched1\<lparr>sys_sch := (sys_sch ex_sched1)\<lparr>sch_seq := 1, sch_items := [ex_entry],
      sch_stats := \<lparr>Submitted = 1, Completed = 0, HighPrioRuns = 0, LowPrioRuns = 0\<rparr>\<rparr>,
      sys_accepted := [ex_entry]\<rparr>"

lemma ex_sched_reach: "reach sched_init sched_step ex_sched2"
proof -
  have "reach sched_init sched_step ex_sched0"
    by (rule reach_init) (simp add: ex_sched0_def sched_init_def)
  moreover have "sched_step ex_sched0 LStart ex_sched1"
    using sched_step.st_start [of ex_sched0 True "NewScheduler\<lparr>sch_started := True\<rparr>"]
    by (simp add: ex_sched0_def ex_sched1_def Start_def NewScheduler_def)
  moreover have "sched_step ex_sched1 (LSubmit \<lparr>wi_Priority = 4, wi_Do = 7\<rparr> True) ex_sched2"
    using sched_step.st_submit [of "\<lparr>wi_Priority = 4, wi_Do = 7\<rparr>" ex_sched1 True "sys_sch ex_sched2"]
    by (simp add: ex_sched0_def ex_sched1_def ex_sched2_def ex_entry_def Submit_def NewScheduler_def
        heap_push_def heap_up_eq)
  ultimately show ?thesis by (blast intro: reach_step)
qed

theorem scheduler_order_witness:
  "\<exists>s'. sched_step ex_sched2 (LPop ex_entry) s' \<and>
    (\<exists>i < length (sys_accepted ex_sched2). sys_accepted ex_sched2 ! i = ex_entry \<and>
    (\<forall>j < length (sys_accepted ex_sched2). sys_accepted ex_sched2 ! j \<in> set (sch_items (sys_sch ex_sched2)) \<longrightarrow>
      we_priority ex_entry < we_priority (sys_accepted ex_sched2 ! j) \<or>
      we_priority ex_entry = we_priority (sys_accepted ex_sched2 ! j) \<and> i \<le> j))"
proof -
  have "heap_down workHeap_Less xs 0 0 = xs" for xs :: "nat workEntry list"
    by (subst heap_down_eq) simp
  then have "heap_pop workHeap_Less [ex_entry] = (ex_entry, [])"
    by (simp add: heap_pop_def swap_at_def)
  then have w: "worker_next (sys_sch ex_sched2) = Some (Some (ex_entry, (sys_sch ex_sched2)\<lparr>sch_items := []\<rparr>))"
    by (simp add: worker_next_def ex_sched2_def)
  have "sys_worker ex_sched2 = WLoop" by (simp add: ex_sched2_def ex_sched1_def)
  note step = sched_step.st_pop [OF this w]
  have "length (sys_accepted ex_sched2) < 2 ^ 64 - 1" by (simp add: ex_sched2_def)
  note order = scheduler_order [OF ex_sched_reach this step]
  show ?thesis by (rule exI, rule conjI, rule step, rule order)
qed

text \<open>C34. No accepted item is lost or run twice: at every moment the accepted entries are those
  executed, the one running and those waiting. When the worker has returned, everything accepted has
  been executed and \<open>Submit\<close> refuses new items.\<close>

theorem scheduler_no_loss:
  assumes "reach sched_init sched_step s"
  shows "mset (sys_accepted s) = mset (sys_executed s) + running (sys_worker s) + mset (sch_items (sys_sch s))
    \<and> (sys_worker s = WExited \<longrightarrow>
        mset (sys_executed s) = mset (sys_accepted s) \<and> (\<forall>item. Submit item (sys_sch s) = (False, sys_sch s)))"
  using sched.reach_inv [OF assms] by (auto simp: sched_inv_def running_def Submit_def)

theorem scheduler_no_loss_witness:
  "mset (sys_accepted ex_sched2) = mset (sys_executed ex_sched2) + running (sys_worker ex_sched2)
     + mset (sch_items (sys_sch ex_sched2))"
  using scheduler_no_loss [OF ex_sched_reach] by blast

text \<open>C37. Once closed, the worker terminates: after as many rounds as there are waiting items, plus
  one, it has returned, having run exactly the waiting items in order of urgency and age.\<close>

theorem scheduler_drains:
  assumes "reach sched_init sched_step s" "sch_closed (sys_sch s)"
  shows "\<exists>es. worker_drain (Suc (length (sch_items (sys_sch s)))) (sys_sch s) = (es, True)
    \<and> mset es = mset (sch_items (sys_sch s)) \<and> sorted (map entry_key es)"
proof -
  have h: "is_heap entry_key (sch_items (sys_sch s))"
    using sched.reach_inv [OF assms(1)] by (simp add: sched_inv_def)
  show ?thesis using worker_drain_pops [OF h assms(2) refl] wq.pops_sorted [OF h, of "length (sch_items (sys_sch s))"]
    by simp
qed

theorem scheduler_drains_witness:
  "\<exists>es. worker_drain 2 ((sys_sch ex_sched2)\<lparr>sch_shutdown := True, sch_closed := True\<rparr>) = (es, True)
    \<and> mset es = {#ex_entry#}"
proof -
  let ?s = "ex_sched2\<lparr>sys_sch := (sys_sch ex_sched2)\<lparr>sch_shutdown := True, sch_closed := True\<rparr>\<rparr>"
  have "sched_step ex_sched2 LClose (ex_sched2\<lparr>sys_sch := (sys_sch ex_sched2)\<lparr>sch_shutdown := True\<rparr>\<rparr>)"
    using sched_step.st_close [of ex_sched2] by (simp add: Scheduler_Close_def)
  moreover have "sched_step (ex_sched2\<lparr>sys_sch := (sys_sch ex_sched2)\<lparr>sch_shutdown := True\<rparr>\<rparr>) LWatch ?s"
    using sched_step.st_watch [of "ex_sched2\<lparr>sys_sch := (sys_sch ex_sched2)\<lparr>sch_shutdown := True\<rparr>\<rparr>"]
    by (simp add: ex_sched2_def ex_sched1_def)
  ultimately have "reach sched_init sched_step ?s" using ex_sched_reach by (blast intro: reach_step)
  from scheduler_drains [OF this] show ?thesis
    by (simp add: ex_sched2_def numeral_2_eq_2 del: worker_drain.simps)
qed

end
