(* ===== verification/Wire_Frame.thy ===== *)
theory Wire_Frame
  imports Prelude
begin

text \<open>
  Package \<^verbatim>\<open>wire\<close>: control frames, feed frames, stream headers (\<^verbatim>\<open>wire/frame.go\<close>) and the
  datagram envelope (\<^verbatim>\<open>wire/datagram.go\<close>). Readers take the bytes still to come and return the
  frame with the rest; writers make the same \<^verbatim>\<open>Write\<close> calls as the code on a scripted writer.
\<close>

section \<open>Constants\<close>

definition TypeHello :: byte where "TypeHello = 0x01"
definition TypeSDP :: byte where "TypeSDP = 0x02"
definition TypePing :: byte where "TypePing = 0x03"
definition TypePong :: byte where "TypePong = 0x04"
definition TypeError :: byte where "TypeError = 0x05"
definition TypeClose :: byte where "TypeClose = 0x06"
definition TypeData :: byte where "TypeData = 0x07"
definition TypeSwitch :: byte where "TypeSwitch = 0x08"
definition TypeSubscribe :: byte where "TypeSubscribe = 0x09"
definition TypeAnnounce :: byte where "TypeAnnounce = 0x0a"
definition TypeBackpressure :: byte where "TypeBackpressure = 0x0b"
definition TypeUnannounce :: byte where "TypeUnannounce = 0x0c"
definition TypeResume :: byte where "TypeResume = 0x0d"
definition TypeKindStats :: byte where "TypeKindStats = 0x0e"
definition TypeKeyframe :: byte where "TypeKeyframe = 0x20"
definition TypePFrame :: byte where "TypePFrame = 0x21"
definition TypeFrame :: byte where "TypeFrame = 0x22"
definition TypeStreamHeader :: byte where "TypeStreamHeader = 0x23"
definition TypeDatagramAU :: byte where "TypeDatagramAU = 0x24"

definition FlagKeyframe :: byte where "FlagKeyframe = 1"
definition FlagDiscontinuity :: byte where "FlagDiscontinuity = 2"
definition FlagPublishWall :: byte where "FlagPublishWall = 4"

definition MaxStreamHeader :: nat where "MaxStreamHeader = 1024"
definition WallExtLen :: nat where "WallExtLen = 8"
definition MaxControlPayload :: nat where "MaxControlPayload = 64 * 1024"
definition MaxFeedPayload :: nat where "MaxFeedPayload = 0xFFFFFF"
definition FeedHeaderLen :: nat where "FeedHeaderLen = 17"
definition DatagramHeaderLen :: nat where "DatagramHeaderLen = 4"
definition MaxDatagramPayload :: nat where "MaxDatagramPayload = 1100"

lemmas frame_types =
  TypeHello_def TypeSDP_def TypePing_def TypePong_def TypeError_def TypeClose_def TypeData_def
  TypeSwitch_def TypeSubscribe_def TypeAnnounce_def TypeBackpressure_def TypeUnannounce_def
  TypeResume_def TypeKindStats_def TypeKeyframe_def TypePFrame_def TypeFrame_def
  TypeStreamHeader_def TypeDatagramAU_def

lemmas frame_flags = FlagKeyframe_def FlagDiscontinuity_def FlagPublishWall_def

lemmas wire_limits =
  MaxStreamHeader_def WallExtLen_def MaxControlPayload_def MaxFeedPayload_def FeedHeaderLen_def
  DatagramHeaderLen_def MaxDatagramPayload_def

section \<open>Frames\<close>

record FeedFrame =
  ff_Type :: byte
  ff_PTSMicro :: "64 word"
  ff_Seq :: "32 word"
  ff_Flags :: byte
  ff_PubWallMicro :: "64 word"
  ff_Payload :: bytes

definition IsKeyframe :: "FeedFrame \<Rightarrow> bool" where
  "IsKeyframe f \<longleftrightarrow> ff_Type f = TypeKeyframe \<or> ff_Flags f AND FlagKeyframe \<noteq> 0"

text \<open>The three length bytes: \<^verbatim>\<open>byte(len>>16), byte(len>>8), byte(len)\<close>.\<close>

definition len3 :: "nat \<Rightarrow> bytes" where
  "len3 n = put_be 3 (of_nat n :: 64 word)"

definition read_len3 :: "bytes \<Rightarrow> nat" where
  "read_len3 bs = unat (get_be bs :: 32 word)"

section \<open>Stream header\<close>

definition WriteStreamHeader :: "writer \<Rightarrow> string \<Rightarrow> go_error option \<times> writer" where
  "WriteStreamHeader w trackName =
     (if length trackName > MaxStreamHeader
      then (Some (ErrFrameTooLarge (length trackName) MaxStreamHeader), w)
      else case io_write w (TypeStreamHeader # len3 (length trackName)) of
        (Some e, w') \<Rightarrow> (Some e, w')
      | (None, w') \<Rightarrow>
          if trackName = [] then (None, w') else io_write w' (bytes_of_string trackName))"

text \<open>\<^verbatim>\<open>PeekStreamHeader\<close> returns the track name and the first byte, with the rest of the stream.\<close>

definition PeekStreamHeader :: "bytes \<Rightarrow> go_error + (string \<times> byte) \<times> bytes" where
  "PeekStreamHeader r =
     bindE (read_full 1 r) (\<lambda>(b, r1).
       if hd b \<noteq> TypeStreamHeader then Inr (([], hd b), r1)
       else bindE (read_full 3 r1) (\<lambda>(lenBuf, r2).
         let len = read_len3 lenBuf in
         if len > MaxStreamHeader then Inl (ErrFrameTooLarge len MaxStreamHeader)
         else if len = 0 then Inl ErrEmptyStreamHeader
         else bindE (read_full len r2) (\<lambda>(name, r3). Inr ((string_of_bytes name, 0), r3))))"

section \<open>Control frames\<close>

definition ReadControlFrame :: "bytes \<Rightarrow> go_error + (byte \<times> bytes) \<times> bytes" where
  "ReadControlFrame r =
     bindE (read_full 4 r) (\<lambda>(hdr, r1).
       let typ = hdr ! 0; len = read_len3 (drop 1 hdr) in
       if len > MaxControlPayload then Inl (ErrFrameTooLarge len MaxControlPayload)
       else if len = 0 then Inr ((typ, []), r1)
       else bindE (read_full len r1) (\<lambda>(payload, r2). Inr ((typ, payload), r2)))"

definition WriteControlFrame :: "writer \<Rightarrow> byte \<Rightarrow> bytes \<Rightarrow> go_error option \<times> writer" where
  "WriteControlFrame w typ payload =
     (if length payload > MaxControlPayload
      then (Some (ErrFrameTooLarge (length payload) MaxControlPayload), w)
      else case io_write w (typ # len3 (length payload)) of
        (Some e, w') \<Rightarrow> (Some e, w')
      | (None, w') \<Rightarrow> if payload = [] then (None, w') else io_write w' payload)"

section \<open>Feed frames\<close>

definition ReadFeedFrame :: "bytes \<Rightarrow> go_error + FeedFrame \<times> bytes" where
  "ReadFeedFrame r =
     bindE (read_full FeedHeaderLen r) (\<lambda>(hdr, r1).
       let len = read_len3 (take 3 (drop 1 hdr)) in
       if len > MaxFeedPayload then Inl (ErrFrameTooLarge len MaxFeedPayload)
       else
         let f = \<lparr>ff_Type = hdr ! 0, ff_PTSMicro = get_be (take 8 (drop 4 hdr)),
                  ff_Seq = get_be (take 4 (drop 12 hdr)), ff_Flags = hdr ! 16,
                  ff_PubWallMicro = 0, ff_Payload = []\<rparr> in
         bindE (if ff_Flags f AND FlagPublishWall \<noteq> 0
                then bindE (read_full WallExtLen r1) (\<lambda>(ext, r2).
                       Inr (f\<lparr>ff_PubWallMicro := get_be ext\<rparr>, r2))
                else Inr (f, r1))
           (\<lambda>(f, r2).
             if len > 0
             then bindE (read_full len r2) (\<lambda>(p, r3). Inr (f\<lparr>ff_Payload := p\<rparr>, r3))
             else Inr (f, r2)))"

definition WriteFeedFrame ::
    "writer \<Rightarrow> byte \<Rightarrow> 64 word \<Rightarrow> 32 word \<Rightarrow> byte \<Rightarrow> bytes \<Rightarrow> go_error option \<times> writer" where
  "WriteFeedFrame w typ ptsMicro seq flags payload =
     (if length payload > MaxFeedPayload
      then (Some (ErrFrameTooLarge (length payload) MaxFeedPayload), w)
      else case io_write w ((typ # len3 (length payload)) @ put_be 8 ptsMicro @ put_be 4 seq @ [flags]) of
        (Some e, w') \<Rightarrow> (Some e, w')
      | (None, w') \<Rightarrow> if payload = [] then (None, w') else io_write w' payload)"

definition WriteFeedFrameWall ::
    "writer \<Rightarrow> byte \<Rightarrow> 64 word \<Rightarrow> 32 word \<Rightarrow> byte \<Rightarrow> 64 word \<Rightarrow> bytes \<Rightarrow> go_error option \<times> writer" where
  "WriteFeedFrameWall w typ ptsMicro seq flags pubWallMicro payload =
     (if length payload > MaxFeedPayload
      then (Some (ErrFrameTooLarge (length payload) MaxFeedPayload), w)
      else case io_write w ((typ # len3 (length payload)) @ put_be 8 ptsMicro @ put_be 4 seq
                            @ [flags OR FlagPublishWall] @ put_be 8 pubWallMicro) of
        (Some e, w') \<Rightarrow> (Some e, w')
      | (None, w') \<Rightarrow> if payload = [] then (None, w') else io_write w' payload)"

section \<open>Datagrams\<close>

definition EncodeDatagram :: "bytes \<Rightarrow> byte \<Rightarrow> 16 word \<Rightarrow> bytes \<Rightarrow> go_error + bytes" where
  "EncodeDatagram dst trackID seq payload =
     (if length payload > MaxDatagramPayload
      then Inl (ErrDatagramTooLarge (length payload) MaxDatagramPayload)
      else Inr ((dst @ [TypeDatagramAU, trackID] @ put_be 2 seq) @ payload))"

definition DecodeDatagram :: "bytes \<Rightarrow> go_error + byte \<times> 16 word \<times> bytes" where
  "DecodeDatagram b =
     (if length b < DatagramHeaderLen then Inl (ErrDatagramShort (length b))
      else if b ! 0 \<noteq> TypeDatagramAU then Inl (ErrDatagramType (b ! 0))
      else Inr (b ! 1, get_be (take 2 (drop 2 b)), drop DatagramHeaderLen b))"

section \<open>The bytes of a frame\<close>

text \<open>What one frame looks like on the wire, independent of how the writer splits its calls.\<close>

definition stream_header_bytes :: "string \<Rightarrow> bytes" where
  "stream_header_bytes name = TypeStreamHeader # len3 (length name) @ bytes_of_string name"

definition control_frame_bytes :: "byte \<times> bytes \<Rightarrow> bytes" where
  "control_frame_bytes c = fst c # len3 (length (snd c)) @ snd c"

definition has_wall :: "FeedFrame \<Rightarrow> bool" where
  "has_wall f \<longleftrightarrow> ff_Flags f AND FlagPublishWall \<noteq> 0"

definition feed_frame_bytes :: "FeedFrame \<Rightarrow> bytes" where
  "feed_frame_bytes f =
     (ff_Type f # len3 (length (ff_Payload f))) @ put_be 8 (ff_PTSMicro f) @ put_be 4 (ff_Seq f)
       @ [ff_Flags f] @ (if has_wall f then put_be 8 (ff_PubWallMicro f) else []) @ ff_Payload f"

text \<open>A frame a reader can return: the payload fits the length field and the timestamp is zero
  unless the flag announces it.\<close>

definition feed_frame_ok :: "FeedFrame \<Rightarrow> bool" where
  "feed_frame_ok f \<longleftrightarrow>
     length (ff_Payload f) \<le> MaxFeedPayload \<and> (\<not> has_wall f \<longrightarrow> ff_PubWallMicro f = 0)"

definition control_frame_ok :: "byte \<times> bytes \<Rightarrow> bool" where
  "control_frame_ok c \<longleftrightarrow> length (snd c) \<le> MaxControlPayload"

section \<open>Length field\<close>

lemma length_len3 [simp]: "length (len3 n) = 3"
  by (simp add: len3_def)

lemma read_len3_len3: "n < 2 ^ 24 \<Longrightarrow> read_len3 (len3 n) = n"
proof -
  assume n: "n < 2 ^ 24"
  have "unat (ucast (take_bit (8 * 3) (of_nat n :: 64 word)) :: 32 word) = n"
    using n by (simp add: unsigned_ucast_eq unsigned_take_bit_eq unsigned_of_nat take_bit_nat_eq_self)
  then show ?thesis by (simp add: read_len3_def len3_def get_put_be)
qed

lemma read_len3_less: "length bs = 3 \<Longrightarrow> read_len3 bs < 2 ^ 24"
proof -
  assume l: "length bs = 3"
  have "take_bit 24 (get_be bs :: 32 word) = get_be bs"
    by (rule bit_word_eqI) (auto simp: bit_simps bit_get_be l)
  then have "unat (get_be bs :: 32 word) = take_bit 24 (unat (get_be bs :: 32 word))"
    by (metis unsigned_take_bit_eq)
  then show ?thesis by (simp add: read_len3_def take_bit_eq_mod)
qed

lemma len3_read_len3: "length bs = 3 \<Longrightarrow> len3 (read_len3 bs) = bs"
proof -
  assume l: "length bs = 3"
  have "(of_nat (unat (get_be bs :: 32 word)) :: 64 word) = get_be bs"
    by (rule bit_word_eqI) (auto simp: bit_simps bit_get_be l)
  then show ?thesis using put_get_be [of bs, where 'a = 64] l by (simp add: len3_def read_len3_def)
qed


section \<open>Encoders produce the frame bytes\<close>

text \<open>Every writer of this package makes two \<^verbatim>\<open>Write\<close> calls: header, then a non-empty payload.\<close>

definition write2 :: "writer \<Rightarrow> bytes \<Rightarrow> bytes \<Rightarrow> go_error option \<times> writer" where
  "write2 w hdr payload =
     (case io_write w hdr of
        (Some e, w') \<Rightarrow> (Some e, w')
      | (None, w') \<Rightarrow> if payload = [] then (None, w') else io_write w' payload)"

lemma write2_good:
  assumes "good_writer w"
  shows "\<exists>w'. write2 w h p = (None, w') \<and> good_writer w' \<and> w_out w' = w_out w @ h @ p"
proof -
  obtain w1 where w1: "io_write w h = (None, w1)" "good_writer w1" "w_out w1 = w_out w @ h"
    using io_write_good [OF assms] by blast
  show ?thesis
  proof (cases "p = []")
    case True
    then show ?thesis using w1 by (simp add: write2_def)
  next
    case False
    then show ?thesis using w1 io_write_good [OF w1(2), of p] by (auto simp: write2_def)
  qed
qed

lemma write2_prefix:
  assumes "write2 w h p = (r, w')"
  shows "\<exists>k. w_out w' = w_out w @ take k (h @ p) \<and> (r = None \<longrightarrow> take k (h @ p) = h @ p)"
proof -
  obtain r1 w1 where w1: "io_write w h = (r1, w1)" by fastforce
  then obtain k1 where k1: "w_out w1 = w_out w @ take k1 h" "r1 = None \<longrightarrow> take k1 h = h"
    using io_write_prefix by blast
  show ?thesis
  proof (cases "r1 = None \<and> p \<noteq> []")
    case True
    then obtain k2 where "w_out w' = w_out w1 @ take k2 p" "r = None \<longrightarrow> take k2 p = p"
      using assms w1 io_write_prefix by (fastforce simp: write2_def)
    then show ?thesis using True k1 by (intro exI [of _ "length h + k2"]) auto
  next
    case False
    then have "w_out w' = w_out w @ take (min k1 (length h)) (h @ p)" "r = None \<longrightarrow> p = [] \<and> r1 = None"
      using assms w1 k1 by (auto simp: write2_def min_def split: option.splits)
    then show ?thesis using k1 by (intro exI [of _ "min k1 (length h)"]) auto
  qed
qed

lemma WriteStreamHeader_eq:
  "length name \<le> MaxStreamHeader \<Longrightarrow>
     WriteStreamHeader w name = write2 w (TypeStreamHeader # len3 (length name)) (bytes_of_string name)"
  by (auto simp: WriteStreamHeader_def write2_def bytes_of_string_def split: prod.splits option.splits)

lemma WriteControlFrame_eq:
  "length p \<le> MaxControlPayload \<Longrightarrow> WriteControlFrame w t p = write2 w (t # len3 (length p)) p"
  by (simp add: WriteControlFrame_def write2_def)

lemma WriteFeedFrame_eq:
  "length p \<le> MaxFeedPayload \<Longrightarrow>
     WriteFeedFrame w t pts sq fl p =
       write2 w ((t # len3 (length p)) @ put_be 8 pts @ put_be 4 sq @ [fl]) p"
  by (simp add: WriteFeedFrame_def write2_def)

lemma WriteFeedFrameWall_eq:
  "length p \<le> MaxFeedPayload \<Longrightarrow>
     WriteFeedFrameWall w t pts sq fl pw p =
       write2 w ((t # len3 (length p)) @ put_be 8 pts @ put_be 4 sq @ [fl OR FlagPublishWall] @ put_be 8 pw) p"
  by (simp add: WriteFeedFrameWall_def write2_def)

section \<open>Decoding what was encoded\<close>

lemma len3_bounds:
  "n \<le> MaxFeedPayload \<Longrightarrow> read_len3 (len3 n) = n"
  "n \<le> MaxControlPayload \<Longrightarrow> read_len3 (len3 n) = n"
  "n \<le> MaxStreamHeader \<Longrightarrow> read_len3 (len3 n) = n"
  by (simp_all add: read_len3_len3 wire_limits)

lemma get_put_be_word:
  "get_be (put_be 8 (v :: 64 word)) = v"
  "get_be (put_be 4 (u :: 32 word)) = u"
  "get_be (put_be 2 (x :: 16 word)) = x"
  by (simp_all add: get_put_be take_bit_word_eq_self ucast_id)

lemma ReadControlFrame_bytes:
  "control_frame_ok c \<Longrightarrow> ReadControlFrame (control_frame_bytes c @ rest) = Inr (c, rest)"
proof -
  assume "control_frame_ok c"
  moreover obtain t p where c: "c = (t, p)" by (cases c)
  ultimately have p: "length p \<le> MaxControlPayload" by (simp add: control_frame_ok_def)
  have "read_full 4 (control_frame_bytes c @ rest) = Inr (t # len3 (length p), p @ rest)"
    by (simp add: read_full_Inr_iff control_frame_bytes_def c)
  then show ?thesis using p by (simp add: ReadControlFrame_def len3_bounds c)
qed

lemma PeekStreamHeader_bytes:
  assumes "name \<noteq> []" "length name \<le> MaxStreamHeader"
  shows "PeekStreamHeader (stream_header_bytes name @ rest) = Inr ((name, 0), rest)"
proof -
  have "read_full 1 (stream_header_bytes name @ rest)
      = Inr ([TypeStreamHeader], len3 (length name) @ bytes_of_string name @ rest)"
    by (simp add: read_full_Inr_iff stream_header_bytes_def)
  then show ?thesis using assms by (simp add: PeekStreamHeader_def len3_bounds)
qed

lemma ReadFeedFrame_bytes:
  assumes "feed_frame_ok f"
  shows "ReadFeedFrame (feed_frame_bytes f @ rest) = Inr (f, rest)"
proof -
  let ?h = "(ff_Type f # len3 (length (ff_Payload f))) @ put_be 8 (ff_PTSMicro f)
              @ put_be 4 (ff_Seq f) @ [ff_Flags f]"
  let ?r = "(if has_wall f then put_be 8 (ff_PubWallMicro f) else []) @ ff_Payload f @ rest"
  have r: "read_full FeedHeaderLen (feed_frame_bytes f @ rest) = Inr (?h, ?r)"
    by (simp add: read_full_Inr_iff feed_frame_bytes_def FeedHeaderLen_def)
  have l: "read_len3 (len3 (length (ff_Payload f))) = length (ff_Payload f)"
    "length (ff_Payload f) \<le> MaxFeedPayload"
    using assms by (simp_all add: feed_frame_ok_def len3_bounds)
  have fields: "take 3 (drop 1 ?h) = len3 (length (ff_Payload f))"
    "take 8 (drop 4 ?h) = put_be 8 (ff_PTSMicro f)" "take 4 (drop 12 ?h) = put_be 4 (ff_Seq f)"
    "?h ! 16 = ff_Flags f" "?h ! 0 = ff_Type f"
    by (simp_all add: nth_append)
  show ?thesis
    using l assms unfolding ReadFeedFrame_def r bindE_simps prod.case Let_def fields
    by (auto simp: get_put_be_word WallExtLen_def has_wall_def feed_frame_ok_def)
qed

lemma read_consumes:
  "ReadControlFrame src = Inr (c, rest) \<Longrightarrow> length rest < length src"
  "ReadFeedFrame src = Inr (f, rest) \<Longrightarrow> length rest < length src"
  by (auto simp: ReadControlFrame_def ReadFeedFrame_def bindE_Inr_iff read_full_Inr_iff Let_def FeedHeaderLen_def
      split: if_splits prod.splits)

lemma read_empty [simp]:
  "ReadControlFrame [] = Inl EOF" "ReadFeedFrame [] = Inl EOF" "PeekStreamHeader [] = Inl EOF"
  by (simp_all add: ReadControlFrame_def ReadFeedFrame_def PeekStreamHeader_def read_full_def FeedHeaderLen_def)

lemma ReadControlFrame_canonical:
  assumes "ReadControlFrame src = Inr (c, rest)"
  shows "control_frame_ok c \<and> src = control_frame_bytes c @ rest"
proof -
  obtain hdr r1 where h: "src = hdr @ r1" "length hdr = 4"
    and c: "read_len3 (drop 1 hdr) \<le> MaxControlPayload" "fst c = hdr ! 0"
      "r1 = snd c @ rest" "length (snd c) = read_len3 (drop 1 hdr)"
    using assms
    by (fastforce simp: ReadControlFrame_def bindE_Inr_iff read_full_Inr_iff Let_def split: if_splits)
  have "hdr = hdr ! 0 # drop 1 hdr" using h(2) by (cases hdr) auto
  moreover have "len3 (length (snd c)) = drop 1 hdr" using len3_read_len3 [of "drop 1 hdr"] c(4) h(2) by simp
  ultimately have "hdr = fst c # len3 (length (snd c))" using c(2) by simp
  then show ?thesis using h c by (simp add: control_frame_bytes_def control_frame_ok_def)
qed

lemma feed_header_split:
  assumes "length h = 17"
  shows "h = (h ! 0 # take 3 (drop 1 h)) @ take 8 (drop 4 h) @ take 4 (drop 12 h) @ [h ! 16]"
proof -
  have "take 1 h = [h ! 0]" "drop 16 h = [h ! 16]"
    using assms by (auto simp: take_Suc_conv_app_nth Cons_nth_drop_Suc [symmetric])
  moreover have "drop 1 h = take 3 (drop 1 h) @ drop 4 h"
    using append_take_drop_id [of 3 "drop 1 h"] by (simp del: append_take_drop_id)
  moreover have "drop 4 h = take 8 (drop 4 h) @ drop 12 h"
    using append_take_drop_id [of 8 "drop 4 h"] by (simp del: append_take_drop_id)
  moreover have "drop 12 h = take 4 (drop 12 h) @ drop 16 h"
    using append_take_drop_id [of 4 "drop 12 h"] by (simp del: append_take_drop_id)
  ultimately show ?thesis by (metis append_Cons append_Nil append_assoc append_take_drop_id)
qed

lemma ReadFeedFrame_canonical:
  assumes "ReadFeedFrame src = Inr (f, rest)"
  shows "feed_frame_ok f \<and> src = feed_frame_bytes f @ rest"
proof -
  obtain h r1 where h: "src = h @ r1" "length h = 17"
    and l: "read_len3 (take 3 (drop 1 h)) = length (ff_Payload f)" "length (ff_Payload f) \<le> MaxFeedPayload"
    and f: "ff_Type f = h ! 0" "ff_PTSMicro f = get_be (take 8 (drop 4 h))"
      "ff_Seq f = get_be (take 4 (drop 12 h))" "ff_Flags f = h ! 16"
    and w: "if has_wall f then \<exists>e. length e = 8 \<and> ff_PubWallMicro f = get_be e \<and> r1 = e @ ff_Payload f @ rest
        else ff_PubWallMicro f = 0 \<and> r1 = ff_Payload f @ rest"
    using assms
    by (fastforce simp: ReadFeedFrame_def bindE_Inr_iff read_full_Inr_iff Let_def has_wall_def
        FeedHeaderLen_def WallExtLen_def split: if_splits)
  have "h = (ff_Type f # len3 (length (ff_Payload f))) @ put_be 8 (ff_PTSMicro f) @ put_be 4 (ff_Seq f) @ [ff_Flags f]"
    using feed_header_split [OF h(2)] len3_read_len3 [of "take 3 (drop 1 h)"] l f h(2)
      put_get_be [of "take 8 (drop 4 h)", where 'a = 64] put_get_be [of "take 4 (drop 12 h)", where 'a = 32]
    by simp
  moreover have "put_be 8 (get_be e :: 64 word) = e" if "length e = 8" for e
    using put_get_be [of e, where 'a = 64] that by simp
  ultimately show ?thesis using h w l
    by (auto simp: feed_frame_bytes_def feed_frame_ok_def split: if_splits)
qed

text \<open>The feed writer of a sender: with a publish timestamp when the flag asks for one.\<close>

definition send_feed :: "writer \<Rightarrow> FeedFrame \<Rightarrow> go_error option \<times> writer" where
  "send_feed w f =
     (if has_wall f
      then WriteFeedFrameWall w (ff_Type f) (ff_PTSMicro f) (ff_Seq f) (ff_Flags f) (ff_PubWallMicro f) (ff_Payload f)
      else WriteFeedFrame w (ff_Type f) (ff_PTSMicro f) (ff_Seq f) (ff_Flags f) (ff_Payload f))"

definition send_control :: "writer \<Rightarrow> byte \<times> bytes \<Rightarrow> go_error option \<times> writer" where
  "send_control w c = WriteControlFrame w (fst c) (snd c)"

lemma flag_or_idem: "x AND FlagPublishWall \<noteq> 0 \<Longrightarrow> x OR FlagPublishWall = x"
proof -
  have f: "FlagPublishWall = 2 ^ 2" by (simp add: FlagPublishWall_def)
  assume "x AND FlagPublishWall \<noteq> 0"
  then have "bit x 2" unfolding f by (simp only: and_exp_eq_0_iff_not_bit) simp
  then show ?thesis unfolding f by (intro bit_word_eqI) (auto simp only: bit_or_iff bit_exp_iff)
qed

lemma send_feed_eq:
  "feed_frame_ok f \<Longrightarrow> \<exists>h. h @ ff_Payload f = feed_frame_bytes f \<and> send_feed w f = write2 w h (ff_Payload f)"
  by (auto simp: send_feed_def feed_frame_bytes_def feed_frame_ok_def WriteFeedFrame_eq
      WriteFeedFrameWall_eq has_wall_def flag_or_idem)

interpretation control: frame_writer control_frame_bytes ReadControlFrame control_frame_ok send_control
proof (unfold_locales, goal_cases)
  case (4 src f rest)
  then show ?case by (rule ReadControlFrame_canonical)
next
  case (5 f w)
  then show ?case using write2_good [of w "fst f # len3 (length (snd f))" "snd f"]
    by (auto simp: send_control_def control_frame_ok_def WriteControlFrame_eq control_frame_bytes_def)
next
  case (6 f w r w')
  then show ?case using write2_prefix [of w "fst f # len3 (length (snd f))" "snd f" r w']
    by (simp add: send_control_def control_frame_ok_def WriteControlFrame_eq control_frame_bytes_def)
qed (simp_all add: ReadControlFrame_bytes read_consumes)

interpretation feed_codec: frame_writer feed_frame_bytes ReadFeedFrame feed_frame_ok send_feed
proof (unfold_locales, goal_cases)
  case (4 src f rest)
  then show ?case by (rule ReadFeedFrame_canonical)
next
  case (5 f w)
  then show ?case using send_feed_eq [of f w] write2_good by (metis append_assoc)
next
  case (6 f w r w')
  then show ?case using send_feed_eq [of f w] write2_prefix by metis
qed (simp_all add: ReadFeedFrame_bytes read_consumes)

section \<open>Torn frames\<close>

lemma ReadFeedFrame_header_short:
  "length src < 17 \<Longrightarrow> ReadFeedFrame src = Inl (if src = [] then EOF else ErrUnexpectedEOF)"
  by (simp add: ReadFeedFrame_def read_full_short FeedHeaderLen_def)

lemma ReadFeedFrame_body_short:
  assumes "feed_frame_ok f" "k < length (if has_wall f then put_be 8 (ff_PubWallMicro f) @ ff_Payload f else ff_Payload f)"
  shows "ReadFeedFrame (take (17 + k) (feed_frame_bytes f))
    = Inl (if k = 0 \<or> has_wall f \<and> k = 8 then EOF else ErrUnexpectedEOF)"
proof -
  let ?h = "(ff_Type f # len3 (length (ff_Payload f))) @ put_be 8 (ff_PTSMicro f)
              @ put_be 4 (ff_Seq f) @ [ff_Flags f]"
  let ?b = "if has_wall f then put_be 8 (ff_PubWallMicro f) @ ff_Payload f else ff_Payload f"
  have take17: "take (17 + k) (h @ b) = h @ take k b" if "length h = 17" for h b :: bytes
    using that by simp
  have "take (17 + k) (?h @ ?b) = ?h @ take k ?b" by (rule take17) simp
  moreover have "feed_frame_bytes f = ?h @ ?b" by (simp add: feed_frame_bytes_def)
  ultimately have r: "read_full FeedHeaderLen (take (17 + k) (feed_frame_bytes f)) = Inr (?h, take k ?b)"
    by (simp only: read_full_Inr_iff FeedHeaderLen_def) simp
  have l: "read_len3 (len3 (length (ff_Payload f))) = length (ff_Payload f)"
    "length (ff_Payload f) \<le> MaxFeedPayload"
    using assms by (simp_all add: feed_frame_ok_def len3_bounds)
  have fields: "take 3 (drop 1 ?h) = len3 (length (ff_Payload f))" "?h ! 16 = ff_Flags f"
    by (simp_all add: nth_append)
  show ?thesis
  proof (cases "has_wall f")
    case True
    show ?thesis
    proof (cases "k < 8")
      case short: True
      then show ?thesis using True l assms(2)
        unfolding ReadFeedFrame_def r bindE_simps prod.case Let_def fields
        by (simp add: WallExtLen_def has_wall_def read_full_short)
    next
      case False
      then have "read_full WallExtLen (take k ?b) = Inr (put_be 8 (ff_PubWallMicro f), take (k - 8) (ff_Payload f))"
        using True by (simp add: read_full_Inr_iff WallExtLen_def)
      then show ?thesis using True False l assms(2)
        unfolding ReadFeedFrame_def r bindE_simps prod.case Let_def fields
        by (auto simp: has_wall_def read_full_short)
    qed
  next
    case False
    then show ?thesis using l assms(2)
      unfolding ReadFeedFrame_def r bindE_simps prod.case Let_def fields
      by (auto simp: has_wall_def read_full_short)
  qed
qed

lemma length_feed_frame_bytes:
  "length (feed_frame_bytes f)
     = 17 + length (if has_wall f then put_be 8 (ff_PubWallMicro f) @ ff_Payload f else ff_Payload f)"
  by (simp add: feed_frame_bytes_def)

lemma datagram_decode_encode:
  assumes "EncodeDatagram dst trackID seq payload = Inr b"
  shows "take (length dst) b = dst \<and> DecodeDatagram (drop (length dst) b) = Inr (trackID, seq, payload)"
proof -
  have b: "b = dst @ [TypeDatagramAU, trackID] @ put_be 2 seq @ payload"
    using assms by (simp add: EncodeDatagram_def split: if_splits)
  then show ?thesis
    by (simp add: DecodeDatagram_def DatagramHeaderLen_def get_put_be_word numeral_2_eq_2 [symmetric])
qed

lemma datagram_encode_decode:
  assumes d: "DecodeDatagram d = Inr (t, s, p)" and p: "length p \<le> MaxDatagramPayload"
  shows "EncodeDatagram [] t s p = Inr d"
proof -
  have "4 \<le> length d" using d by (simp add: DecodeDatagram_def DatagramHeaderLen_def split: if_splits)
  then obtain a b c e r where "d = a # b # c # e # r"
    by (metis Suc_le_length_iff numeral_eq_Suc numeral_3_eq_3 eval_nat_numeral(2) semiring_norm(26,27))
  then show ?thesis
    using d p put_get_be [of "[c, e]", where 'a = 16]
    by (auto simp: DecodeDatagram_def EncodeDatagram_def DatagramHeaderLen_def numeral_2_eq_2 split: if_splits)
qed

section \<open>Properties\<close>

text \<open>C17. Control frames of legal size written one after the other with
  \<open>WriteControlFrame\<close> to a writer that does not fail are read back, in order and unchanged, by
  repeated \<open>ReadControlFrame\<close>, which then reports a clean end of stream.\<close>

theorem control_stream_roundtrip:
  assumes "list_all control_frame_ok fs" "good_writer w" "w_out w = []"
  shows "\<exists>w'. write_all send_control w fs = (length fs, None, w') \<and>
     read_loop ReadControlFrame (Suc (length (w_out w'))) (w_out w') = (fs, Some EOF)"
  using assms by (rule control.write_read_good)

theorem control_stream_roundtrip_witness:
  "\<exists>w'. write_all send_control \<lparr>w_out = [], w_script = [None]\<rparr> [(TypePing, []), (TypeData, [1, 2, 3])]
       = (2, None, w') \<and>
     read_loop ReadControlFrame (Suc (length (w_out w'))) (w_out w')
       = ([(TypePing, []), (TypeData, [1, 2, 3])], Some EOF)"
  using control_stream_roundtrip
    [of "[(TypePing, []), (TypeData, [1, 2, 3])]" "\<lparr>w_out = [], w_script = [None]\<rparr>"]
  by (simp add: control_frame_ok_def good_writer_def MaxControlPayload_def numeral_2_eq_2 del: read_loop.simps write_all.simps)

text \<open>C3. Whatever \<^verbatim>\<open>Write\<close> call of a feed sender fails, and after however many bytes, the receiver
  reads exactly a beginning of the frames sent, containing at least every frame whose write
  succeeded, and then an error: a torn frame is never delivered as a frame.\<close>

theorem feed_stream_fault_prefix:
  assumes "list_all feed_frame_ok fs" "w_out w = []" "write_all send_feed w fs = (n, r, w')"
  shows "\<exists>m e. n \<le> m \<and> m \<le> length fs \<and>
     read_loop ReadFeedFrame (Suc (length fs)) (w_out w') = (take m fs, Some e)"
  using assms by (rule feed_codec.write_read_prefix)

theorem feed_stream_fault_prefix_witness:
  "\<exists>m e. 1 \<le> m \<and> m \<le> 2 \<and>
     read_loop ReadFeedFrame 3
       (w_out (snd (snd (write_all send_feed \<lparr>w_out = [], w_script = [None, None, Some 5]\<rparr>
         [\<lparr>ff_Type = TypeKeyframe, ff_PTSMicro = 7, ff_Seq = 1, ff_Flags = 1, ff_PubWallMicro = 0, ff_Payload = [9]\<rparr>,
          \<lparr>ff_Type = TypePFrame, ff_PTSMicro = 8, ff_Seq = 2, ff_Flags = 0, ff_PubWallMicro = 0, ff_Payload = [4]\<rparr>]))))
     = (take m [\<lparr>ff_Type = TypeKeyframe, ff_PTSMicro = 7, ff_Seq = 1, ff_Flags = 1, ff_PubWallMicro = 0, ff_Payload = [9]\<rparr>,
          \<lparr>ff_Type = TypePFrame, ff_PTSMicro = 8, ff_Seq = 2, ff_Flags = 0, ff_PubWallMicro = 0, ff_Payload = [4]\<rparr>], Some e)"
proof -
  let ?a = "\<lparr>ff_Type = TypeKeyframe, ff_PTSMicro = 7, ff_Seq = 1, ff_Flags = 1, ff_PubWallMicro = 0, ff_Payload = [9]\<rparr>"
  let ?b = "\<lparr>ff_Type = TypePFrame, ff_PTSMicro = 8, ff_Seq = 2, ff_Flags = 0, ff_PubWallMicro = 0, ff_Payload = [4]\<rparr>"
  let ?w = "\<lparr>w_out = [], w_script = [None, None, Some 5]\<rparr>"
  obtain r w' where "write_all send_feed ?w [?a, ?b] = (1, r, w')"
    by (simp add: send_feed_def has_wall_def frame_flags WriteFeedFrame_def MaxFeedPayload_def io_write_def)
  then show ?thesis
    using feed_stream_fault_prefix [of "[?a, ?b]" ?w 1 r w']
    by (simp add: feed_frame_ok_def has_wall_def frame_flags MaxFeedPayload_def numeral_2_eq_2 numeral_3_eq_3
        del: read_loop.simps write_all.simps)
qed

text \<open>C4. \<open>ReadFeedFrame\<close> accepts exactly the wire layout: it returns a frame and a rest if and only
  if the input is that frame's bytes followed by the rest, the payload fits the 3-byte length field
  and the publish timestamp is present exactly when the flag says so.\<close>

theorem feed_frame_canonical:
  "ReadFeedFrame src = Inr (f, rest) \<longleftrightarrow> feed_frame_ok f \<and> src = feed_frame_bytes f @ rest"
  using ReadFeedFrame_canonical ReadFeedFrame_bytes by blast

text \<open>A feed frame cut short after \<open>k\<close> bytes is reported as a clean end of stream when the cut
  falls before the header, right after it, or right after the timestamp extension, and as an
  unexpected end everywhere else.\<close>

theorem feed_frame_torn:
  assumes "feed_frame_ok f" "k < length (feed_frame_bytes f)"
  shows "ReadFeedFrame (take k (feed_frame_bytes f))
    = Inl (if k = 0 \<or> k = 17 \<or> has_wall f \<and> k = 25 then EOF else ErrUnexpectedEOF)"
proof (cases "k < 17")
  case True
  then have "length (take k (feed_frame_bytes f)) = k" using assms(2) by simp
  moreover from this have "take k (feed_frame_bytes f) = [] \<longleftrightarrow> k = 0" by (metis length_0_conv)
  ultimately show ?thesis using True ReadFeedFrame_header_short [of "take k (feed_frame_bytes f)"] by auto
next
  case False
  then show ?thesis using assms ReadFeedFrame_body_short [OF assms(1), of "k - 17"]
    by (simp add: length_feed_frame_bytes) arith
qed

theorem feed_frame_torn_witness:
  "ReadFeedFrame (take 17 (feed_frame_bytes
      \<lparr>ff_Type = TypeFrame, ff_PTSMicro = 0, ff_Seq = 3, ff_Flags = 0, ff_PubWallMicro = 0, ff_Payload = [1, 2]\<rparr>))
    = Inl EOF"
  using feed_frame_torn [of "\<lparr>ff_Type = TypeFrame, ff_PTSMicro = 0, ff_Seq = 3, ff_Flags = 0,
      ff_PubWallMicro = 0, ff_Payload = [1, 2]\<rparr>" 17]
  by (simp add: feed_frame_ok_def has_wall_def MaxFeedPayload_def length_feed_frame_bytes)

text \<open>C31. The size limits hold against any peer: \<open>ReadControlFrame\<close> refuses a length above 64 KiB on
  the strength of the four header bytes alone, never returns a longer payload, and
  \<open>ReadFeedFrame\<close>, whose limit is the largest 24-bit value, never reports an oversized frame.\<close>

theorem read_limits:
  assumes "length hdr = 4" "read_len3 (drop 1 hdr) > MaxControlPayload"
  shows "ReadControlFrame (hdr @ rest) = Inl (ErrFrameTooLarge (read_len3 (drop 1 hdr)) MaxControlPayload)
    \<and> (\<forall>src t p r. ReadControlFrame src = Inr ((t, p), r) \<longrightarrow> length p \<le> MaxControlPayload)
    \<and> (\<forall>src a b. ReadFeedFrame src \<noteq> Inl (ErrFrameTooLarge a b))"
proof (intro conjI allI impI)
  show "ReadControlFrame (hdr @ rest) = Inl (ErrFrameTooLarge (read_len3 (drop 1 hdr)) MaxControlPayload)"
    using assms by (simp add: ReadControlFrame_def)
  show "length p \<le> MaxControlPayload" if "ReadControlFrame src = Inr ((t, p), r)" for src t p r
    using ReadControlFrame_canonical [OF that] by (simp add: control_frame_ok_def)
  show "ReadFeedFrame src \<noteq> Inl (ErrFrameTooLarge a b)" for src a b
  proof -
    have "read_len3 (take 3 (drop 1 h)) \<le> MaxFeedPayload" if "length h = 17" for h
      using read_len3_less [of "take 3 (drop 1 h)"] that by (simp add: MaxFeedPayload_def)
    then show ?thesis
      by (auto simp: ReadFeedFrame_def bindE_Inl_iff read_full_Inr_iff Let_def FeedHeaderLen_def
          not_less [symmetric] dest: read_full_Inl_cases split: if_splits)
  qed
qed

theorem read_limits_witness:
  "ReadControlFrame [TypeData, 0xFF, 0xFF, 0xFF, 1, 2] = Inl (ErrFrameTooLarge 0xFFFFFF MaxControlPayload)"
  using read_limits [of "[TypeData, 0xFF, 0xFF, 0xFF]" "[1, 2]"]
  by (simp add: read_len3_def get_be_def MaxControlPayload_def)

text \<open>A stream that starts with \<open>WriteStreamHeader\<close> is recognised by \<open>PeekStreamHeader\<close>, which
  returns the track name and leaves the stream at the first feed frame; a stream that starts with
  any frame of another type is left to the legacy path, its first byte handed back so that
  prepending it restores the stream.\<close>

theorem stream_header_demux:
  assumes "name \<noteq> []" "length name \<le> MaxStreamHeader" "good_writer w" "w_out w = []" "ff_Type f \<noteq> TypeStreamHeader"
  shows "\<exists>w'. WriteStreamHeader w name = (None, w') \<and>
      PeekStreamHeader (w_out w' @ rest) = Inr ((name, 0), rest)
    \<and> (\<exists>tail. PeekStreamHeader (feed_frame_bytes f @ rest) = Inr (([], ff_Type f), tail) \<and>
        ff_Type f # tail = feed_frame_bytes f @ rest)"
proof -
  obtain w' where "WriteStreamHeader w name = (None, w')" "w_out w' = stream_header_bytes name"
    using write2_good [OF assms(3), of "TypeStreamHeader # len3 (length name)" "bytes_of_string name"] assms
    by (auto simp: WriteStreamHeader_eq stream_header_bytes_def)
  moreover obtain tail where "feed_frame_bytes f @ rest = ff_Type f # tail"
    by (simp add: feed_frame_bytes_def)
  ultimately show ?thesis using assms
    by (simp add: PeekStreamHeader_bytes) (simp add: PeekStreamHeader_def read_full_def)
qed

theorem stream_header_demux_witness:
  "\<exists>w'. WriteStreamHeader \<lparr>w_out = [], w_script = []\<rparr> ''cam'' = (None, w') \<and>
      PeekStreamHeader (w_out w' @ [1, 2]) = Inr ((''cam'', 0), [1, 2])
    \<and> (\<exists>tail. PeekStreamHeader (feed_frame_bytes \<lparr>ff_Type = TypeFrame, ff_PTSMicro = 0, ff_Seq = 3,
          ff_Flags = 0, ff_PubWallMicro = 0, ff_Payload = []\<rparr> @ [1, 2]) = Inr (([], TypeFrame), tail) \<and>
        TypeFrame # tail = feed_frame_bytes \<lparr>ff_Type = TypeFrame, ff_PTSMicro = 0, ff_Seq = 3,
          ff_Flags = 0, ff_PubWallMicro = 0, ff_Payload = []\<rparr> @ [1, 2])"
  using stream_header_demux [of "''cam''" "\<lparr>w_out = [], w_script = []\<rparr>"
      "\<lparr>ff_Type = TypeFrame, ff_PTSMicro = 0, ff_Seq = 3, ff_Flags = 0, ff_PubWallMicro = 0, ff_Payload = []\<rparr>" "[1, 2]"]
  by (simp add: good_writer_def MaxStreamHeader_def frame_types)

text \<open>C32. Datagrams: decoding what \<open>EncodeDatagram\<close> appended returns the track id, sequence number
  and payload; conversely a datagram that \<open>DecodeDatagram\<close> accepts and whose payload is within the
  limit is re-encoded to the same bytes.\<close>

theorem datagram_roundtrip:
  "(EncodeDatagram dst trackID seq payload = Inr b \<longrightarrow>
      take (length dst) b = dst \<and> DecodeDatagram (drop (length dst) b) = Inr (trackID, seq, payload))
   \<and> (DecodeDatagram d = Inr (t, s, p) \<longrightarrow> length p \<le> MaxDatagramPayload \<longrightarrow>
      EncodeDatagram [] t s p = Inr d)"
  using datagram_decode_encode datagram_encode_decode by blast

theorem datagram_roundtrip_witness:
  "DecodeDatagram (drop 1 [7, TypeDatagramAU, 5, 1, 2, 9]) = Inr (5, 258, [9])
   \<and> EncodeDatagram [] 5 258 [9] = Inr [TypeDatagramAU, 5, 1, 2, 9]"
  using datagram_roundtrip [of "[7]" 5 258 "[9]" "[7, TypeDatagramAU, 5, 1, 2, 9]"
      "[TypeDatagramAU, 5, 1, 2, 9]" 5 258 "[9]"]
  by (simp add: EncodeDatagram_def DecodeDatagram_def MaxDatagramPayload_def DatagramHeaderLen_def
      put_be_def get_be_def upt_rec)

end
