(* ===== verification/Track.thy ===== *)
theory Track
  imports Prelude
begin

text \<open>
  Package \<^verbatim>\<open>track\<close>: track kinds, priorities, delivery classes and the preset constructors
  (\<^verbatim>\<open>track/track.go\<close>, \<^verbatim>\<open>track/presets.go\<close>), and the access unit of package \<^verbatim>\<open>pubsub\<close>
  (\<^verbatim>\<open>pubsub/access_unit.go\<close>). Kinds stay strings and classes and priorities stay bytes, as in the
  code, so that values outside the named constants reach the default branches.
\<close>

type_synonym Kind = string
type_synonym Priority = "8 word"
type_synonym DeliveryClass = "8 word"

definition KindVideo :: Kind where "KindVideo = ''video''"
definition KindAudio :: Kind where "KindAudio = ''audio''"
definition KindTokens :: Kind where "KindTokens = ''tokens''"
definition KindToolCalls :: Kind where "KindToolCalls = ''toolcalls''"
definition KindTelemetry :: Kind where "KindTelemetry = ''telemetry''"

definition PriorityCritical :: Priority where "PriorityCritical = 0"
definition PriorityHigh :: Priority where "PriorityHigh = 2"
definition PriorityNormal :: Priority where "PriorityNormal = 4"
definition PriorityBackground :: Priority where "PriorityBackground = 7"

definition DeliveryStreamGOP :: DeliveryClass where "DeliveryStreamGOP = 0"
definition DeliveryStreamLowLatency :: DeliveryClass where "DeliveryStreamLowLatency = 1"
definition DeliveryBidiPerCall :: DeliveryClass where "DeliveryBidiPerCall = 2"
definition DeliveryDatagramOrStream :: DeliveryClass where "DeliveryDatagramOrStream = 3"

lemmas kind_defs = KindVideo_def KindAudio_def KindTokens_def KindToolCalls_def KindTelemetry_def
lemmas priority_defs = PriorityCritical_def PriorityHigh_def PriorityNormal_def PriorityBackground_def
lemmas delivery_defs = DeliveryStreamGOP_def DeliveryStreamLowLatency_def DeliveryBidiPerCall_def
  DeliveryDatagramOrStream_def

definition DeliveryClass_String :: "DeliveryClass \<Rightarrow> string" where
  "DeliveryClass_String c =
     (if c = DeliveryStreamGOP then ''stream-gop''
      else if c = DeliveryStreamLowLatency then ''stream-low-latency''
      else if c = DeliveryBidiPerCall then ''bidi-per-call''
      else if c = DeliveryDatagramOrStream then ''datagram-or-stream''
      else ''unknown'')"

definition DefaultPriority :: "Kind \<Rightarrow> Priority" where
  "DefaultPriority k =
     (if k = KindAudio then PriorityCritical
      else if k = KindTokens \<or> k = KindToolCalls then PriorityHigh
      else if k = KindVideo then PriorityNormal
      else if k = KindTelemetry then PriorityBackground
      else PriorityNormal)"

definition DefaultDeliveryClass :: "Kind \<Rightarrow> DeliveryClass" where
  "DefaultDeliveryClass k =
     (if k = KindVideo then DeliveryStreamGOP
      else if k = KindTokens \<or> k = KindAudio then DeliveryStreamLowLatency
      else if k = KindToolCalls then DeliveryBidiPerCall
      else if k = KindTelemetry then DeliveryDatagramOrStream
      else DeliveryStreamGOP)"

record LocalTrack =
  lt_Name :: string
  lt_Kind :: Kind
  lt_Codec :: string
  lt_Priority :: Priority
  lt_Delivery :: DeliveryClass

record RemoteTrack =
  rt_Name :: string
  rt_Kind :: Kind
  rt_Codec :: string
  rt_Priority :: Priority
  rt_Delivery :: DeliveryClass

definition Video :: "string \<Rightarrow> string \<Rightarrow> LocalTrack" where
  "Video name codec = \<lparr>lt_Name = name, lt_Kind = KindVideo, lt_Codec = codec,
     lt_Priority = PriorityNormal, lt_Delivery = DefaultDeliveryClass KindVideo\<rparr>"

definition Audio :: "string \<Rightarrow> string \<Rightarrow> LocalTrack" where
  "Audio name codec = \<lparr>lt_Name = name, lt_Kind = KindAudio,
     lt_Codec = (if codec = [] then ''opus'' else codec),
     lt_Priority = PriorityCritical, lt_Delivery = DefaultDeliveryClass KindAudio\<rparr>"

definition Tokens :: "string \<Rightarrow> LocalTrack" where
  "Tokens name = \<lparr>lt_Name = name, lt_Kind = KindTokens, lt_Codec = [],
     lt_Priority = PriorityHigh, lt_Delivery = DefaultDeliveryClass KindTokens\<rparr>"

definition ToolCalls :: "string \<Rightarrow> LocalTrack" where
  "ToolCalls name = \<lparr>lt_Name = name, lt_Kind = KindToolCalls, lt_Codec = [],
     lt_Priority = PriorityHigh, lt_Delivery = DefaultDeliveryClass KindToolCalls\<rparr>"

definition Telemetry :: "string \<Rightarrow> LocalTrack" where
  "Telemetry name = \<lparr>lt_Name = name, lt_Kind = KindTelemetry, lt_Codec = [],
     lt_Priority = PriorityBackground, lt_Delivery = DefaultDeliveryClass KindTelemetry\<rparr>"

lemmas preset_defs = Video_def Audio_def Tokens_def ToolCalls_def Telemetry_def

record AccessUnit =
  au_Bytes :: bytes
  au_Keyframe :: bool
  au_PTSMicro :: "64 word"
  au_Seq :: "32 word"
  au_Discontinuity :: bool
  au_PubWallMicro :: "64 word"
  au_Meta :: "(string \<times> string) list"
  au_SyncGroup :: "32 word"
  au_Priority :: "8 word"

text \<open>The Go zero value, the base of every composite literal that names only some fields.\<close>

definition AccessUnit_zero :: AccessUnit where
  "AccessUnit_zero = \<lparr>au_Bytes = [], au_Keyframe = False, au_PTSMicro = 0, au_Seq = 0,
     au_Discontinuity = False, au_PubWallMicro = 0, au_Meta = [], au_SyncGroup = 0, au_Priority = 0\<rparr>"

definition au_size :: "AccessUnit \<Rightarrow> int" where
  "au_size au = int (length (au_Bytes au))"

definition au_total :: "AccessUnit list \<Rightarrow> int" where
  "au_total aus = sum_list (map au_size aus)"

lemma au_size_nonneg [simp]: "0 \<le> au_size au"
  by (simp add: au_size_def)

lemma au_total_simps [simp]:
  "au_total [] = 0" "au_total (x # xs) = au_size x + au_total xs" "au_total (xs @ ys) = au_total xs + au_total ys"
  by (simp_all add: au_total_def)

lemma au_total_nonneg [simp]: "0 \<le> au_total xs"
  by (induction xs) auto

lemma preset_defaults:
  assumes "t \<in> {Video n c, Audio n c, Tokens n, ToolCalls n, Telemetry n}"
  shows "lt_Priority t = DefaultPriority (lt_Kind t)" "lt_Delivery t = DefaultDeliveryClass (lt_Kind t)"
  using assms by (auto simp: preset_defs DefaultPriority_def kind_defs)

end
