(* ===== verification/Feed_Pump.thy ===== *)
theory Feed_Pump
  imports Wire_Frame Track "HOL-Library.Sublist"
begin

text \<open>
  The send side of a track (\<^verbatim>\<open>feed/pump.go\<close>): encoding and chunked writing of feed frames, the
  stream-per-GOP pump and the persistent low-latency pump. The transport is a world of send streams
  with scripted outcomes: every stream open succeeds or fails, and every \<^verbatim>\<open>Write\<close> accepts all or
  fails after some bytes, which covers deadlines, resets and closed connections. The optional
  callbacks of \<^verbatim>\<open>Config\<close> are recorded in a log. Each AU comes with the wall clock at its egress.
\<close>

section \<open>Configuration and transport\<close>

text \<open>The callback fields of \<^verbatim>\<open>Config\<close> always record into the log; interface fields that may be
  nil become flags.\<close>

record Config =
  cfg_OpenDeadlineKeyframe :: int
  cfg_WriteDeadline :: int
  cfg_TrackName :: string
  cfg_Priority :: "8 word"
  cfg_Scheduler :: bool
  cfg_Delivery :: DeliveryClass
  cfg_DatagramSender :: bool
  cfg_FallbackOpener :: bool
  cfg_TrackID :: byte
  cfg_BidiOpener :: bool
  cfg_MaxBidiResponse :: int
  cfg_AllowLeadingPFrames :: bool
  cfg_StampPublishWall :: bool
  cfg_OnBidiResponse :: bool

definition Config_zero :: Config where
  "Config_zero = \<lparr>cfg_OpenDeadlineKeyframe = 0, cfg_WriteDeadline = 0, cfg_TrackName = [], cfg_Priority = 0,
     cfg_Scheduler = False, cfg_Delivery = DeliveryStreamGOP, cfg_DatagramSender = False,
     cfg_FallbackOpener = False, cfg_TrackID = 0, cfg_BidiOpener = False, cfg_MaxBidiResponse = 0,
     cfg_AllowLeadingPFrames = False, cfg_StampPublishWall = False, cfg_OnBidiResponse = False\<rparr>"

definition DefaultOpenDeadlineKeyframe :: int where "DefaultOpenDeadlineKeyframe = 1500000000"
definition DefaultWriteDeadline :: int where "DefaultWriteDeadline = 1500000000"
definition pacingChunkBytes :: nat where "pacingChunkBytes = 16 * 1024"

definition New :: "Config \<Rightarrow> Config" where
  "New cfg =
     (let cfg1 = (if cfg_OpenDeadlineKeyframe cfg = 0
                  then cfg\<lparr>cfg_OpenDeadlineKeyframe := DefaultOpenDeadlineKeyframe\<rparr> else cfg) in
      if cfg_WriteDeadline cfg1 = 0 then cfg1\<lparr>cfg_WriteDeadline := DefaultWriteDeadline\<rparr> else cfg1)"

datatype pump_event =
    EvAttempt
  | EvOpened string "8 word"
  | EvBytes nat
  | EvDropped string
  | EvFallback string
  | EvRequestKeyframe
  | EvDatagram bytes
  | EvResponse "32 word" bytes "go_error option"

record send_stream =
  ss_w :: writer
  ss_reset :: bool
  ss_fin :: bool

text \<open>Outcomes of the coming \<^verbatim>\<open>OpenSendStream\<close> calls; an exhausted script opens faultless streams.\<close>

datatype open_outcome = OpenFails | OpenOK "nat option list"

record pump_world =
  pw_streams :: "send_stream list"
  pw_opens :: "open_outcome list"
  pw_log :: "pump_event list"

definition emit :: "pump_event \<Rightarrow> pump_world \<Rightarrow> pump_world" where
  "emit e w = w\<lparr>pw_log := pw_log w @ [e]\<rparr>"

definition add_stream :: "nat option list \<Rightarrow> pump_world \<Rightarrow> pump_world" where
  "add_stream script w =
     w\<lparr>pw_streams := pw_streams w @ [\<lparr>ss_w = \<lparr>w_out = [], w_script = script\<rparr>, ss_reset = False, ss_fin = False\<rparr>]\<rparr>"

definition OpenSendStream :: "pump_world \<Rightarrow> nat option \<times> pump_world" where
  "OpenSendStream w =
     (case pw_opens w of
        [] \<Rightarrow> (Some (length (pw_streams w)), add_stream [] w)
      | OpenFails # r \<Rightarrow> (None, w\<lparr>pw_opens := r\<rparr>)
      | OpenOK script # r \<Rightarrow> (Some (length (pw_streams w)), add_stream script (w\<lparr>pw_opens := r\<rparr>)))"

definition on_stream ::
    "nat \<Rightarrow> (writer \<Rightarrow> go_error option \<times> writer) \<Rightarrow> pump_world \<Rightarrow> go_error option \<times> pump_world" where
  "on_stream i f w =
     (let (r, wr) = f (ss_w (pw_streams w ! i)) in
      (r, w\<lparr>pw_streams := (pw_streams w)[i := (pw_streams w ! i)\<lparr>ss_w := wr\<rparr>]\<rparr>))"

definition CancelWrite :: "nat \<Rightarrow> pump_world \<Rightarrow> pump_world" where
  "CancelWrite i w = w\<lparr>pw_streams := (pw_streams w)[i := (pw_streams w ! i)\<lparr>ss_reset := True\<rparr>]\<rparr>"

definition CloseStream :: "nat \<Rightarrow> pump_world \<Rightarrow> pump_world" where
  "CloseStream i w = w\<lparr>pw_streams := (pw_streams w)[i := (pw_streams w ! i)\<lparr>ss_fin := True\<rparr>]\<rparr>"

section \<open>Encoding and writing one frame\<close>

definition appendFeedFrame ::
    "bytes \<Rightarrow> byte \<Rightarrow> 64 word \<Rightarrow> 32 word \<Rightarrow> byte \<Rightarrow> 64 word \<Rightarrow> bytes \<Rightarrow> bytes" where
  "appendFeedFrame dst typ pts seq flags pubWall payload =
     (let n = (of_nat (length payload) :: 64 word);
          flags = (if pubWall \<noteq> 0 then flags OR FlagPublishWall else flags);
          dst1 = dst @ [typ] @ put_be 3 n @ put_be 8 pts @ put_be 4 seq @ [flags];
          dst2 = (if pubWall \<noteq> 0 then dst1 @ put_be 8 pubWall else dst1) in
      dst2 @ payload)"

definition writeFeedFramePooled ::
    "writer \<Rightarrow> byte \<Rightarrow> 64 word \<Rightarrow> 32 word \<Rightarrow> byte \<Rightarrow> 64 word \<Rightarrow> bytes \<Rightarrow> go_error option \<times> writer" where
  "writeFeedFramePooled w typ pts seq flags pubWall payload =
     (if length payload > MaxFeedPayload
      then (Some (ErrFrameTooLarge (length payload) MaxFeedPayload), w)
      else io_write w (appendFeedFrame [] typ pts seq flags pubWall payload))"

definition pubWall :: "Config \<Rightarrow> 64 word \<Rightarrow> AccessUnit \<Rightarrow> 64 word" where
  "pubWall cfg now au =
     (if \<not> cfg_StampPublishWall cfg then 0
      else if au_PubWallMicro au \<noteq> 0 then au_PubWallMicro au else now)"

text \<open>The chunk loop of \<open>writeFrame\<close>: at most \<open>pacingChunkBytes\<close> per scheduled write, stopping at the
  first error.\<close>

function write_chunks :: "writer \<Rightarrow> bytes \<Rightarrow> go_error option \<times> writer" where
  "write_chunks w buf =
     (if buf = [] then (None, w)
      else case io_write w (take pacingChunkBytes buf) of
        (Some e, w') \<Rightarrow> (Some e, w')
      | (None, w') \<Rightarrow> write_chunks w' (drop pacingChunkBytes buf))"
  by pat_completeness auto
termination by (relation "measure (\<lambda>(_, buf). length buf)") (auto simp: pacingChunkBytes_def)

declare write_chunks.simps [simp del]

definition writeFrame ::
    "Config \<Rightarrow> writer \<Rightarrow> byte \<Rightarrow> 64 word \<Rightarrow> 32 word \<Rightarrow> byte \<Rightarrow> 64 word \<Rightarrow> bytes \<Rightarrow> go_error option \<times> writer" where
  "writeFrame cfg w typ pts seq flags pw payload =
     (if length payload > MaxFeedPayload
      then (Some (ErrFrameTooLarge (length payload) MaxFeedPayload), w)
      else if \<not> cfg_Scheduler cfg \<or> FeedHeaderLen + length payload \<le> pacingChunkBytes
      then writeFeedFramePooled w typ pts seq flags pw payload
      else write_chunks w (appendFeedFrame [] typ pts seq flags pw payload))"

section \<open>The stream-per-GOP pump\<close>

definition openGOPStream :: "Config \<Rightarrow> pump_world \<Rightarrow> nat option \<times> pump_world" where
  "openGOPStream cfg w =
     (case OpenSendStream w of
        (None, w1) \<Rightarrow> (None, w1)
      | (Some i, w1) \<Rightarrow>
          if cfg_TrackName cfg \<noteq> [] then
            (case on_stream i (\<lambda>s. WriteStreamHeader s (cfg_TrackName cfg)) w1 of
               (Some e, w2) \<Rightarrow> (None, CancelWrite i w2)
             | (None, w2) \<Rightarrow> (Some i, emit (EvOpened (cfg_TrackName cfg) (cfg_Priority cfg)) w2))
          else (Some i, emit (EvOpened (cfg_TrackName cfg) (cfg_Priority cfg)) w1))"

record gop_state =
  g_current :: "nat option"
  g_leading :: bool
  g_world :: pump_world

definition gop_request :: "gop_state \<Rightarrow> gop_state" where
  "gop_request st = st\<lparr>g_world := emit EvRequestKeyframe (g_world st)\<rparr>"

text \<open>The keyframe branch: reset the previous GOP's stream, open a new one. \<open>Inl\<close> is the \<^verbatim>\<open>continue\<close>
  after a failed open.\<close>

definition gop_keyframe :: "Config \<Rightarrow> gop_state \<Rightarrow> gop_state + gop_state" where
  "gop_keyframe cfg st =
     (let w0 = (case g_current st of None \<Rightarrow> g_world st | Some i \<Rightarrow> CancelWrite i (g_world st)) in
      case openGOPStream cfg w0 of
        (None, w1) \<Rightarrow> Inl (gop_request (st\<lparr>g_leading := False, g_current := None, g_world := w1\<rparr>))
      | (Some i, w1) \<Rightarrow> Inr (st\<lparr>g_leading := False, g_current := Some i, g_world := w1\<rparr>))"

text \<open>A frame without a current stream: the resume continuation, or a request for a keyframe.\<close>

definition gop_ensure :: "Config \<Rightarrow> gop_state \<Rightarrow> gop_state + gop_state" where
  "gop_ensure cfg st =
     (if g_current st \<noteq> None then Inr st
      else if \<not> g_leading st then Inl (gop_request st)
      else case openGOPStream cfg (g_world st) of
        (None, w1) \<Rightarrow> Inl (gop_request (st\<lparr>g_leading := False, g_world := w1\<rparr>))
      | (Some i, w1) \<Rightarrow> Inr (st\<lparr>g_leading := False, g_current := Some i, g_world := w1\<rparr>))"

definition gop_type :: "AccessUnit \<Rightarrow> byte" where
  "gop_type au = (if au_Keyframe au then TypeKeyframe else TypePFrame)"

definition gop_flags :: "AccessUnit \<Rightarrow> byte" where
  "gop_flags au =
     (let flags = (if au_Keyframe au then 0 OR FlagKeyframe else 0) in
      if au_Discontinuity au then flags OR FlagDiscontinuity else flags)"

definition gop_write :: "Config \<Rightarrow> 64 word \<Rightarrow> AccessUnit \<Rightarrow> gop_state \<Rightarrow> gop_state" where
  "gop_write cfg now au st =
     (case g_current st of
        None \<Rightarrow> st
      | Some i \<Rightarrow>
          (case on_stream i (\<lambda>s. writeFrame cfg s (gop_type au) (au_PTSMicro au) (au_Seq au) (gop_flags au)
                               (pubWall cfg now au) (au_Bytes au)) (g_world st) of
             (Some e, w1) \<Rightarrow> gop_request (st\<lparr>g_current := None, g_world := CancelWrite i w1\<rparr>)
           | (None, w1) \<Rightarrow>
               st\<lparr>g_world := emit (EvBytes (FeedHeaderLen + length (au_Bytes au))) w1\<rparr>))"

definition gop_step :: "Config \<Rightarrow> 64 word \<times> AccessUnit \<Rightarrow> gop_state \<Rightarrow> gop_state" where
  "gop_step cfg x st =
     (let (now, au) = x;
          st1 = st\<lparr>g_world := emit EvAttempt (g_world st)\<rparr>;
          r1 = (if au_Keyframe au then gop_keyframe cfg st1 else Inr st1) in
      case r1 of
        Inl st2 \<Rightarrow> st2
      | Inr st2 \<Rightarrow>
          (case gop_ensure cfg st2 of
             Inl st3 \<Rightarrow> st3
           | Inr st3 \<Rightarrow> gop_write cfg now au st3))"

text \<open>The pump runs until the channel is closed (\<open>None\<close>) or the context is done; the AUs are those it
  received before that. The deferred function closes the current stream.\<close>

datatype pump_end = ChannelClosed | CtxDone

definition pump_result :: "pump_end \<Rightarrow> go_error option" where
  "pump_result e = (case e of ChannelClosed \<Rightarrow> None | CtxDone \<Rightarrow> Some ErrContext)"

definition close_current :: "nat option \<Rightarrow> pump_world \<Rightarrow> pump_world" where
  "close_current c w = (case c of None \<Rightarrow> w | Some i \<Rightarrow> CloseStream i w)"

definition runStreamGOP ::
    "Config \<Rightarrow> (64 word \<times> AccessUnit) list \<Rightarrow> pump_end \<Rightarrow> pump_world \<Rightarrow> go_error option \<times> pump_world" where
  "runStreamGOP cfg xs e w =
     (let st = fold (gop_step cfg) xs
                 \<lparr>g_current = None, g_leading = cfg_AllowLeadingPFrames cfg, g_world = w\<rparr> in
      (pump_result e, close_current (g_current st) (g_world st)))"

section \<open>The low-latency pump\<close>

definition openStream_ll :: "Config \<Rightarrow> pump_world \<Rightarrow> nat option \<times> pump_world" where
  "openStream_ll cfg w =
     (case OpenSendStream w of
        (None, w1) \<Rightarrow> (None, w1)
      | (Some i, w1) \<Rightarrow>
          if cfg_TrackName cfg \<noteq> [] then
            (case on_stream i (\<lambda>s. WriteStreamHeader s (cfg_TrackName cfg)) w1 of
               (Some e, w2) \<Rightarrow> (None, CancelWrite i w2)
             | (None, w2) \<Rightarrow> (Some i, emit (EvOpened (cfg_TrackName cfg) (cfg_Priority cfg)) w2))
          else (Some i, emit (EvOpened (cfg_TrackName cfg) (cfg_Priority cfg)) w1))"

definition ll_flags :: "AccessUnit \<Rightarrow> byte" where
  "ll_flags au = (if au_Discontinuity au then FlagKeyframe OR FlagDiscontinuity else FlagKeyframe)"

record ll_state =
  l_stream :: "nat option"
  l_world :: pump_world

definition ll_write :: "Config \<Rightarrow> 64 word \<Rightarrow> AccessUnit \<Rightarrow> nat \<Rightarrow> pump_world \<Rightarrow> ll_state" where
  "ll_write cfg now au i w =
     (case on_stream i (\<lambda>s. writeFrame cfg s TypeKeyframe (au_PTSMicro au) (au_Seq au) (ll_flags au)
                          (pubWall cfg now au) (au_Bytes au)) w of
        (Some e, w1) \<Rightarrow> \<lparr>l_stream = None, l_world = emit (EvDropped ''write_deadline'') (CancelWrite i w1)\<rparr>
      | (None, w1) \<Rightarrow>
          \<lparr>l_stream = Some i, l_world = emit (EvBytes (FeedHeaderLen + length (au_Bytes au))) w1\<rparr>)"

definition ll_step :: "Config \<Rightarrow> 64 word \<times> AccessUnit \<Rightarrow> ll_state \<Rightarrow> ll_state" where
  "ll_step cfg x st =
     (let (now, au) = x; w = emit EvAttempt (l_world st) in
      case l_stream st of
        Some i \<Rightarrow> ll_write cfg now au i w
      | None \<Rightarrow>
          (case openStream_ll cfg w of
             (None, w1) \<Rightarrow> \<lparr>l_stream = None, l_world = emit (EvDropped ''stream_open_failed'') w1\<rparr>
           | (Some i, w1) \<Rightarrow> ll_write cfg now au i w1))"

definition ll_start :: "Config \<Rightarrow> pump_world \<Rightarrow> ll_state" where
  "ll_start cfg w =
     (case openStream_ll cfg w of
        (None, w1) \<Rightarrow> \<lparr>l_stream = None, l_world = emit (EvDropped ''stream_open_failed'') w1\<rparr>
      | (Some i, w1) \<Rightarrow> \<lparr>l_stream = Some i, l_world = w1\<rparr>)"

definition runStreamLowLatency ::
    "Config \<Rightarrow> (64 word \<times> AccessUnit) list \<Rightarrow> pump_end \<Rightarrow> pump_world \<Rightarrow> go_error option \<times> pump_world" where
  "runStreamLowLatency cfg xs e w =
     (let st = fold (ll_step cfg) xs (ll_start cfg w) in
      (pump_result e, close_current (l_stream st) (l_world st)))"

section \<open>One frame on the wire\<close>

definition encoded_frame :: "byte \<Rightarrow> 64 word \<Rightarrow> 32 word \<Rightarrow> byte \<Rightarrow> 64 word \<Rightarrow> bytes \<Rightarrow> FeedFrame" where
  "encoded_frame typ pts seq flags pw payload =
     \<lparr>ff_Type = typ, ff_PTSMicro = pts, ff_Seq = seq,
      ff_Flags = (if pw \<noteq> 0 then flags OR FlagPublishWall else flags),
      ff_PubWallMicro = pw, ff_Payload = payload\<rparr>"

lemma encoded_has_wall:
  "flags AND FlagPublishWall = 0 \<Longrightarrow> has_wall (encoded_frame typ pts seq flags pw payload) \<longleftrightarrow> pw \<noteq> 0"
  by (simp add: has_wall_def encoded_frame_def bit.conj_disj_distrib2) (simp add: FlagPublishWall_def)

lemma encoded_ok:
  "flags AND FlagPublishWall = 0 \<Longrightarrow> length payload \<le> MaxFeedPayload \<Longrightarrow>
     feed_frame_ok (encoded_frame typ pts seq flags pw payload)"
  by (simp add: feed_frame_ok_def encoded_has_wall) (simp add: encoded_frame_def)

lemma appendFeedFrame_bytes:
  "flags AND FlagPublishWall = 0 \<Longrightarrow>
     appendFeedFrame dst typ pts seq flags pw payload
       = dst @ feed_frame_bytes (encoded_frame typ pts seq flags pw payload)"
  by (simp add: feed_frame_bytes_def encoded_has_wall)
     (simp add: appendFeedFrame_def encoded_frame_def len3_def Let_def)

lemma write_chunks_prefix:
  "write_chunks w buf = (r, w') \<Longrightarrow>
     \<exists>k. w_out w' = w_out w @ take k buf \<and> (r = None \<longrightarrow> take k buf = buf)"
proof (induction w buf rule: write_chunks.induct)
  case (1 w buf)
  show ?case
  proof (cases "buf = []")
    case True
    then show ?thesis using "1.prems" by (auto simp: write_chunks.simps)
  next
    case False
    obtain r1 w1 where w1: "io_write w (take pacingChunkBytes buf) = (r1, w1)" by fastforce
    then obtain k1 where k1: "w_out w1 = w_out w @ take k1 (take pacingChunkBytes buf)"
      "r1 = None \<longrightarrow> take k1 (take pacingChunkBytes buf) = take pacingChunkBytes buf"
      using io_write_prefix by blast
    show ?thesis
    proof (cases r1)
      case (Some e)
      then show ?thesis using "1.prems" False w1 k1
        by (intro exI [of _ "min k1 pacingChunkBytes"]) (auto simp: write_chunks.simps [of w buf])
    next
      case None
      then have "write_chunks w1 (drop pacingChunkBytes buf) = (r, w')"
        using "1.prems" False w1 by (simp add: write_chunks.simps [of w buf])
      then obtain k2 where "w_out w' = w_out w1 @ take k2 (drop pacingChunkBytes buf)"
        "r = None \<longrightarrow> take k2 (drop pacingChunkBytes buf) = drop pacingChunkBytes buf"
        using "1.IH" [OF False w1 [symmetric] None] by blast
      then show ?thesis using None k1
        by (intro exI [of _ "pacingChunkBytes + k2"]) (simp add: take_add)
    qed
  qed
qed

lemma write_chunks_good:
  "good_writer w \<Longrightarrow> \<exists>w'. write_chunks w buf = (None, w') \<and> good_writer w' \<and> w_out w' = w_out w @ buf"
proof (induction w buf rule: write_chunks.induct)
  case (1 w buf)
  show ?case
  proof (cases "buf = []")
    case True
    then show ?thesis using "1.prems" by (simp add: write_chunks.simps)
  next
    case False
    obtain w1 where w1: "io_write w (take pacingChunkBytes buf) = (None, w1)" "good_writer w1"
      "w_out w1 = w_out w @ take pacingChunkBytes buf"
      using io_write_good [OF "1.prems"] by blast
    then show ?thesis
      using "1.IH" [OF False w1(1) [symmetric] refl w1(2)] False by (simp add: write_chunks.simps [of w buf])
  qed
qed

lemma writeFrame_prefix:
  assumes "writeFrame cfg w typ pts seq flags pw payload = (r, w')"
  shows "\<exists>k. w_out w' = w_out w @ take k (appendFeedFrame [] typ pts seq flags pw payload)
    \<and> (r = None \<longrightarrow> length payload \<le> MaxFeedPayload \<and>
        take k (appendFeedFrame [] typ pts seq flags pw payload) = appendFeedFrame [] typ pts seq flags pw payload)"
proof (cases "length payload > MaxFeedPayload")
  case True
  then show ?thesis using assms by (intro exI [of _ 0]) (auto simp: writeFrame_def)
next
  case False
  then have "r = r' \<and> w' = w'' \<Longrightarrow> ?thesis" if
    "io_write w (appendFeedFrame [] typ pts seq flags pw payload) = (r', w'')
     \<or> write_chunks w (appendFeedFrame [] typ pts seq flags pw payload) = (r', w'')" for r' w''
    using that io_write_prefix write_chunks_prefix by (metis not_less)
  then show ?thesis using assms False
    by (simp add: writeFrame_def writeFeedFramePooled_def split: if_splits)
qed

lemma writeFrame_good:
  assumes "good_writer w" "length payload \<le> MaxFeedPayload"
  shows "\<exists>w'. writeFrame cfg w typ pts seq flags pw payload = (None, w') \<and> good_writer w' \<and>
    w_out w' = w_out w @ appendFeedFrame [] typ pts seq flags pw payload"
  using assms io_write_good [OF assms(1)] write_chunks_good [OF assms(1)]
  by (simp add: writeFrame_def writeFeedFramePooled_def)

lemma pump_flags [simp]:
  "gop_flags au AND FlagPublishWall = 0" "ll_flags au AND FlagPublishWall = 0"
  by (auto simp: gop_flags_def ll_flags_def frame_flags Let_def)

section \<open>What a send stream carries\<close>

text \<open>\<open>segments xs bs c\<close>: the lists \<open>bs\<close> are disjoint contiguous blocks of \<open>xs\<close>, in order; when \<open>c\<close>
  holds the last of them reaches the end of \<open>xs\<close> and may still grow.\<close>

inductive segments :: "'a list \<Rightarrow> 'a list list \<Rightarrow> bool \<Rightarrow> bool" where
  seg_nil: "segments [] [] False"
| seg_skip: "segments xs bs c \<Longrightarrow> segments (xs @ [x]) bs False"
| seg_close: "segments xs bs c \<Longrightarrow> segments xs bs False"
| seg_new: "segments xs bs c \<Longrightarrow> segments xs (bs @ [[]]) True"
| seg_ext: "segments xs (bs @ [b]) True \<Longrightarrow> segments (xs @ [x]) (bs @ [b @ [x]]) True"

lemma segments_blocks:
  "segments xs bs c \<Longrightarrow>
     subseq (concat bs) xs \<and> (\<forall>b\<in>set bs. sublist b xs) \<and> (c \<longrightarrow> bs \<noteq> [] \<and> suffix (last bs) xs)"
proof (induction rule: segments.induct)
  case (seg_ext xs bs b x)
  then have "subseq (concat bs @ b) xs" by simp
  then have "subseq ((concat bs @ b) @ [x]) (xs @ [x])" by (intro list_emb_append_mono) simp_all
  moreover have "suffix (b @ [x]) (xs @ [x])" using seg_ext.IH by simp
  moreover have "sublist c (xs @ [x])" if "c \<in> set bs" for c
    using seg_ext.IH that by (simp add: sublist_append)
  ultimately show ?case by (simp add: suffix_imp_sublist)
next
  case (seg_skip xs bs c x)
  then show ?case by (simp add: subseq_rev_drop_many sublist_append)
qed auto

definition track_header :: "Config \<Rightarrow> bytes" where
  "track_header cfg = (if cfg_TrackName cfg = [] then [] else stream_header_bytes (cfg_TrackName cfg))"

definition full_stream :: "Config \<Rightarrow> ('x \<Rightarrow> FeedFrame) \<Rightarrow> 'x list \<Rightarrow> bytes" where
  "full_stream cfg fr b = track_header cfg @ concat (map (feed_frame_bytes \<circ> fr) b)"

definition stream_carries :: "Config \<Rightarrow> ('x \<Rightarrow> FeedFrame) \<Rightarrow> 'x list \<Rightarrow> send_stream \<Rightarrow> bool" where
  "stream_carries cfg fr b s \<longleftrightarrow>
     (if ss_reset s
      then prefix (w_out (ss_w s)) (full_stream cfg fr b) \<and>
           (b \<noteq> [] \<longrightarrow> prefix (full_stream cfg fr (butlast b)) (w_out (ss_w s)))
      else w_out (ss_w s) = full_stream cfg fr b)"

lemma full_stream_simps [simp]:
  "full_stream cfg fr [] = track_header cfg"
  "full_stream cfg fr (b @ [x]) = full_stream cfg fr b @ feed_frame_bytes (fr x)"
  by (simp_all add: full_stream_def)

text \<open>The pump loop's invariant: \<open>bs\<close> are the AUs handed to each stream, \<open>cur\<close> the current stream.\<close>

definition pump_inv ::
    "Config \<Rightarrow> ('x \<Rightarrow> FeedFrame) \<Rightarrow> 'x list \<Rightarrow> 'x list list \<Rightarrow> nat option \<Rightarrow> pump_world \<Rightarrow> bool" where
  "pump_inv cfg fr xs bs cur w \<longleftrightarrow>
     segments xs bs (cur \<noteq> None) \<and>
     list_all2 (stream_carries cfg fr) bs (pw_streams w) \<and>
     (case cur of
        None \<Rightarrow> (\<forall>s\<in>set (pw_streams w). ss_reset s)
      | Some i \<Rightarrow> Suc i = length bs \<and> (\<forall>s\<in>set (butlast (pw_streams w)). ss_reset s) \<and>
                  \<not> ss_reset (last (pw_streams w)) \<and> \<not> ss_fin (last (pw_streams w)))"

lemma emit_streams [simp]: "pw_streams (emit e w) = pw_streams w" "pw_opens (emit e w) = pw_opens w"
  by (simp_all add: emit_def)

lemma pump_inv_cong: "pw_streams w' = pw_streams w \<Longrightarrow> pump_inv cfg fr xs bs cur w' = pump_inv cfg fr xs bs cur w"
  unfolding pump_inv_def by (simp only:)

lemma pump_inv_emit [simp]: "pump_inv cfg fr xs bs cur (emit e w) = pump_inv cfg fr xs bs cur w"
  by (rule pump_inv_cong) simp

lemma pump_inv_skip: "pump_inv cfg fr xs bs None w \<Longrightarrow> pump_inv cfg fr (xs @ [x]) bs None w"
  by (auto simp: pump_inv_def intro: seg_skip)

lemma pump_inv_current:
  assumes "pump_inv cfg fr xs bs (Some i) w"
  obtains bs' b ss s where "bs = bs' @ [b]" "pw_streams w = ss @ [s]" "i = length ss" "length bs' = length ss"
    "segments xs (bs' @ [b]) True" "list_all2 (stream_carries cfg fr) bs' ss" "\<forall>t\<in>set ss. ss_reset t"
    "w_out (ss_w s) = full_stream cfg fr b" "\<not> ss_reset s" "\<not> ss_fin s"
proof -
  have a: "list_all2 (stream_carries cfg fr) bs (pw_streams w)" "Suc i = length bs" "segments xs bs True"
    using assms by (simp_all add: pump_inv_def)
  then have "bs \<noteq> []" "pw_streams w \<noteq> []" by (auto dest: list_all2_lengthD)
  then obtain bs' b ss s where b: "bs = bs' @ [b]" "pw_streams w = ss @ [s]" by (metis rev_exhaust)
  moreover have "length bs' = length ss" using a(1) b by (auto dest: list_all2_lengthD)
  moreover have "\<not> ss_reset s" "\<not> ss_fin s" "\<forall>t\<in>set ss. ss_reset t" using assms b by (simp_all add: pump_inv_def)
  moreover have "list_all2 (stream_carries cfg fr) bs' ss" "stream_carries cfg fr b s"
    using a(1) b \<open>length bs' = length ss\<close> by (simp_all add: list_all2_append)
  ultimately show ?thesis using that [of bs' b ss s] a by (simp add: stream_carries_def)
qed

lemma pump_inv_cancel:
  assumes "pump_inv cfg fr xs bs (Some i) w"
  shows "pump_inv cfg fr xs bs None (CancelWrite i w)"
  using assms
proof (rule pump_inv_current)
  fix bs' b ss s
  assume b: "bs = bs' @ [b]" "pw_streams w = ss @ [s]" "i = length ss" "length bs' = length ss"
    "segments xs (bs' @ [b]) True" "list_all2 (stream_carries cfg fr) bs' ss" "\<forall>t\<in>set ss. ss_reset t"
    "w_out (ss_w s) = full_stream cfg fr b" "\<not> ss_reset s" "\<not> ss_fin s"
  have "b \<noteq> [] \<Longrightarrow> prefix (full_stream cfg fr (butlast b)) (full_stream cfg fr b)"
    by (cases b rule: rev_cases) simp_all
  then show ?thesis using b
    by (auto simp: pump_inv_def CancelWrite_def list_all2_append stream_carries_def intro: seg_close)
qed

lemma pump_inv_close:
  assumes "pump_inv cfg fr xs bs cur w"
  shows "list_all2 (stream_carries cfg fr) bs (pw_streams (close_current cur w))"
proof (cases cur)
  case (Some i)
  from assms [unfolded Some] show ?thesis
  proof (rule pump_inv_current)
    fix bs' b ss s
    assume b: "bs = bs' @ [b]" "pw_streams w = ss @ [s]" "i = length ss" "length bs' = length ss"
      "list_all2 (stream_carries cfg fr) bs' ss" "w_out (ss_w s) = full_stream cfg fr b" "\<not> ss_reset s"
    then show ?thesis
      using Some by (simp add: close_current_def CloseStream_def list_all2_append stream_carries_def)
  qed
qed (use assms in \<open>simp add: pump_inv_def close_current_def\<close>)

section \<open>The pumps keep the invariant\<close>

lemma WriteStreamHeader_prefix:
  assumes "WriteStreamHeader w name = (r, w')"
  shows "\<exists>k. w_out w' = w_out w @ take k (stream_header_bytes name)
    \<and> (r = None \<longrightarrow> take k (stream_header_bytes name) = stream_header_bytes name)"
proof (cases "length name \<le> MaxStreamHeader")
  case True
  then show ?thesis
    using assms write2_prefix [of w "TypeStreamHeader # len3 (length name)" "bytes_of_string name" r w']
    by (simp add: WriteStreamHeader_eq stream_header_bytes_def)
next
  case False
  then show ?thesis using assms by (intro exI [of _ 0]) (auto simp: WriteStreamHeader_def)
qed

lemma OpenSendStream_cases:
  assumes "OpenSendStream w = (o', w')"
  obtains "o' = None" "pw_streams w' = pw_streams w"
  | s where "o' = Some (length (pw_streams w))" "pw_streams w' = pw_streams w @ [s]"
      "w_out (ss_w s) = []" "\<not> ss_reset s" "\<not> ss_fin s"
  using assms by (auto simp: OpenSendStream_def add_stream_def split: list.splits open_outcome.splits)

lemma openGOPStream_cases:
  assumes "openGOPStream cfg w = (o', w')"
  obtains "o' = None" "pw_streams w' = pw_streams w"
  | s where "o' = None" "pw_streams w' = pw_streams w @ [s]" "ss_reset s" "stream_carries cfg fr [] s"
  | s where "o' = Some (length (pw_streams w))" "pw_streams w' = pw_streams w @ [s]"
      "\<not> ss_reset s" "\<not> ss_fin s" "stream_carries cfg fr [] s"
proof -
  obtain r1 w1 where w1: "OpenSendStream w = (r1, w1)" by fastforce
  then show ?thesis
  proof (rule OpenSendStream_cases)
    assume "r1 = None" "pw_streams w1 = pw_streams w"
    then show ?thesis using assms w1 that(1) by (simp add: openGOPStream_def)
  next
    fix s
    assume s: "r1 = Some (length (pw_streams w))" "pw_streams w1 = pw_streams w @ [s]"
      "w_out (ss_w s) = []" "\<not> ss_reset s" "\<not> ss_fin s"
    obtain r2 wr where r2: "WriteStreamHeader (ss_w s) (cfg_TrackName cfg) = (r2, wr)" by fastforce
    obtain k where k: "w_out wr = take k (stream_header_bytes (cfg_TrackName cfg))"
      "r2 = None \<longrightarrow> w_out wr = stream_header_bytes (cfg_TrackName cfg)"
      using WriteStreamHeader_prefix [OF r2] s(3) by auto
    consider "cfg_TrackName cfg = []" | "cfg_TrackName cfg \<noteq> []" "r2 = None"
      | e where "cfg_TrackName cfg \<noteq> []" "r2 = Some e" by fastforce
    then show ?thesis
    proof cases
      case 1
      then show ?thesis using assms w1 s that(3) [of s]
        by (auto simp: openGOPStream_def stream_carries_def track_header_def emit_def)
    next
      case 2
      then show ?thesis using assms w1 s r2 k that(3) [of "s\<lparr>ss_w := wr\<rparr>"]
        by (auto simp: openGOPStream_def stream_carries_def track_header_def emit_def on_stream_def)
    next
      case 3
      then show ?thesis using assms w1 s r2 k that(2) [of "s\<lparr>ss_w := wr, ss_reset := True\<rparr>"]
        by (auto simp: openGOPStream_def stream_carries_def track_header_def on_stream_def CancelWrite_def
            take_is_prefix)
    qed
  qed
qed

lemma openStream_ll_eq: "openStream_ll = openGOPStream"
  by (intro ext) (simp add: openStream_ll_def openGOPStream_def)

lemma pump_inv_open:
  assumes "pump_inv cfg fr xs bs None w" "openGOPStream cfg w = (o', w')"
  shows "(o' = None \<and> (pump_inv cfg fr xs bs None w' \<or> pump_inv cfg fr xs (bs @ [[]]) None w'))
    \<or> (o' = Some (length bs) \<and> pump_inv cfg fr xs (bs @ [[]]) (Some (length bs)) w')"
proof -
  have a: "segments xs bs False" "list_all2 (stream_carries cfg fr) bs (pw_streams w)"
    "\<forall>s\<in>set (pw_streams w). ss_reset s"
    using assms(1) by (simp_all add: pump_inv_def)
  note len = list_all2_lengthD [OF a(2)]
  from assms(2) show ?thesis
  proof (rule openGOPStream_cases [where fr = fr])
    assume "o' = None" "pw_streams w' = pw_streams w"
    then show ?thesis using assms(1) pump_inv_cong by metis
  next
    fix s assume "o' = None" "pw_streams w' = pw_streams w @ [s]" "ss_reset s" "stream_carries cfg fr [] s"
    then show ?thesis using a by (simp add: pump_inv_def seg_close [OF seg_new] list_all2_appendI)
  next
    fix s assume "o' = Some (length (pw_streams w))" "pw_streams w' = pw_streams w @ [s]"
      "\<not> ss_reset s" "\<not> ss_fin s" "stream_carries cfg fr [] s"
    then show ?thesis using a len by (simp add: pump_inv_def seg_new list_all2_appendI)
  qed
qed

lemma pump_inv_write:
  assumes inv: "pump_inv cfg fr xs (bs @ [b]) (Some i) w" and "on_stream i f w = (r, w')"
    and pre: "\<And>s r s'. f s = (r, s') \<Longrightarrow> \<exists>k. w_out s' = w_out s @ take k (feed_frame_bytes (fr x))
        \<and> (r = None \<longrightarrow> take k (feed_frame_bytes (fr x)) = feed_frame_bytes (fr x))"
  shows "(r = None \<longrightarrow> pump_inv cfg fr (xs @ [x]) (bs @ [b @ [x]]) (Some i) w')
    \<and> (r \<noteq> None \<longrightarrow> pump_inv cfg fr (xs @ [x]) (bs @ [b @ [x]]) None (CancelWrite i w'))"
  using inv
proof (rule pump_inv_current)
  fix bs' b' ss s
  assume s: "bs @ [b] = bs' @ [b']" "pw_streams w = ss @ [s]" "i = length ss" "length bs' = length ss"
    "segments xs (bs' @ [b']) True" "list_all2 (stream_carries cfg fr) bs' ss" "\<forall>t\<in>set ss. ss_reset t"
    "w_out (ss_w s) = full_stream cfg fr b'" "\<not> ss_reset s" "\<not> ss_fin s"
  obtain wr where f: "f (ss_w s) = (r, wr)" "pw_streams w' = ss @ [s\<lparr>ss_w := wr\<rparr>]"
    using assms(2) s by (auto simp: on_stream_def split: prod.splits)
  obtain k where k: "w_out wr = full_stream cfg fr b @ take k (feed_frame_bytes (fr x))"
    "r = None \<longrightarrow> take k (feed_frame_bytes (fr x)) = feed_frame_bytes (fr x)"
    using pre [OF f(1)] s by auto
  have "segments (xs @ [x]) (bs @ [b @ [x]]) True" using s seg_ext by auto
  then show ?thesis using s f k
    by (auto simp: pump_inv_def list_all2_append stream_carries_def CancelWrite_def take_is_prefix
        intro: seg_close)
qed

definition gop_frame :: "Config \<Rightarrow> 64 word \<times> AccessUnit \<Rightarrow> FeedFrame" where
  "gop_frame cfg x = encoded_frame (gop_type (snd x)) (au_PTSMicro (snd x)) (au_Seq (snd x)) (gop_flags (snd x))
     (pubWall cfg (fst x) (snd x)) (au_Bytes (snd x))"

definition ll_frame :: "Config \<Rightarrow> 64 word \<times> AccessUnit \<Rightarrow> FeedFrame" where
  "ll_frame cfg x = encoded_frame TypeKeyframe (au_PTSMicro (snd x)) (au_Seq (snd x)) (ll_flags (snd x))
     (pubWall cfg (fst x) (snd x)) (au_Bytes (snd x))"

text \<open>The frames of one GOP stream: a keyframe followed by its P-frames. Only the first stream of a
  resumed pump may start with a P-frame.\<close>

definition gop_shape :: "Config \<Rightarrow> nat \<Rightarrow> (64 word \<times> AccessUnit) list \<Rightarrow> bool" where
  "gop_shape cfg i b \<longleftrightarrow>
     (case b of [] \<Rightarrow> True
      | x # ys \<Rightarrow> (au_Keyframe (snd x) \<or> cfg_AllowLeadingPFrames cfg \<and> i = 0) \<and>
                 (\<forall>y\<in>set ys. \<not> au_Keyframe (snd y)))"

definition gop_shapes :: "Config \<Rightarrow> (64 word \<times> AccessUnit) list list \<Rightarrow> bool" where
  "gop_shapes cfg bs \<longleftrightarrow> (\<forall>i < length bs. gop_shape cfg i (bs ! i))"

lemma gop_shapes_snoc: "gop_shapes cfg (bs @ [b]) \<longleftrightarrow> gop_shapes cfg bs \<and> gop_shape cfg (length bs) b"
  by (auto simp: gop_shapes_def nth_append less_Suc_eq)

lemma gop_shape_simps [simp]:
  "gop_shape cfg i []"
  "gop_shape cfg i [x] \<longleftrightarrow> au_Keyframe (snd x) \<or> cfg_AllowLeadingPFrames cfg \<and> i = 0"
  by (simp_all add: gop_shape_def)

lemma gop_shape_ext: "b \<noteq> [] \<Longrightarrow> gop_shape cfg i (b @ [x]) \<longleftrightarrow> gop_shape cfg i b \<and> \<not> au_Keyframe (snd x)"
  by (cases b) (auto simp: gop_shape_def)

definition gop_inv :: "Config \<Rightarrow> (64 word \<times> AccessUnit) list \<Rightarrow> (64 word \<times> AccessUnit) list list \<Rightarrow> gop_state \<Rightarrow> bool" where
  "gop_inv cfg xs bs st \<longleftrightarrow>
     pump_inv cfg (gop_frame cfg) xs bs (g_current st) (g_world st) \<and> gop_shapes cfg bs \<and>
     (g_current st \<noteq> None \<longrightarrow> last bs \<noteq> []) \<and>
     (g_leading st \<longrightarrow> cfg_AllowLeadingPFrames cfg \<and> bs = [])"

text \<open>Between the open and the write of one step: the frame still fits the shape of the stream.\<close>

definition gop_mid :: "Config \<Rightarrow> (64 word \<times> AccessUnit) list \<Rightarrow> (64 word \<times> AccessUnit) list list \<Rightarrow>
    (64 word \<times> AccessUnit) \<Rightarrow> gop_state \<Rightarrow> bool" where
  "gop_mid cfg xs bs x st \<longleftrightarrow>
     pump_inv cfg (gop_frame cfg) xs bs (g_current st) (g_world st) \<and> g_current st \<noteq> None \<and>
     gop_shapes cfg (butlast bs @ [last bs @ [x]]) \<and> \<not> g_leading st"

lemma gop_request_sel [simp]:
  "g_current (gop_request st) = g_current st" "g_leading (gop_request st) = g_leading st"
  "g_world (gop_request st) = emit EvRequestKeyframe (g_world st)"
  by (simp_all add: gop_request_def)

lemma gop_open_fail:
  assumes "pump_inv cfg (gop_frame cfg) xs bs None w" "openGOPStream cfg w = (None, w')" "gop_shapes cfg bs"
  shows "\<exists>bs'. gop_inv cfg (xs @ [x]) bs'
    (gop_request (st\<lparr>g_leading := False, g_current := None, g_world := w'\<rparr>))"
  using pump_inv_open [OF assms(1,2)] assms(3)
  by (auto simp: gop_inv_def gop_shapes_snoc intro: pump_inv_skip)

lemma gop_open_ok:
  assumes "pump_inv cfg (gop_frame cfg) xs bs None w" "openGOPStream cfg w = (Some i, w')" "gop_shapes cfg bs"
    and "au_Keyframe (snd x) \<or> cfg_AllowLeadingPFrames cfg \<and> bs = []"
  shows "gop_mid cfg xs (bs @ [[]]) x (st\<lparr>g_leading := False, g_current := Some i, g_world := w'\<rparr>)"
  using pump_inv_open [OF assms(1,2)] assms(3,4) by (auto simp: gop_mid_def gop_shapes_snoc)

lemma gop_keyframe_step:
  assumes "gop_inv cfg xs bs st" "au_Keyframe (snd x)"
  shows "case gop_keyframe cfg st of
      Inl st' \<Rightarrow> \<exists>bs'. gop_inv cfg (xs @ [x]) bs' st'
    | Inr st' \<Rightarrow> \<exists>bs'. gop_mid cfg xs bs' x st'"
proof -
  define w0 where "w0 = (case g_current st of None \<Rightarrow> g_world st | Some i \<Rightarrow> CancelWrite i (g_world st))"
  have w0: "pump_inv cfg (gop_frame cfg) xs bs None w0" "gop_shapes cfg bs"
    using assms(1) pump_inv_cancel by (auto simp: gop_inv_def w0_def split: option.splits)
  obtain r w1 where r: "openGOPStream cfg w0 = (r, w1)" by fastforce
  show ?thesis
  proof (cases r)
    case None
    then show ?thesis using gop_open_fail [OF w0(1) _ w0(2), of w1 x st] r
      by (simp add: gop_keyframe_def w0_def Let_def)
  next
    case (Some i)
    then show ?thesis using gop_open_ok [OF w0(1) _ w0(2), of i w1 x st] r assms(2)
      by (auto simp: gop_keyframe_def w0_def Let_def)
  qed
qed

lemma gop_ensure_current: "gop_mid cfg xs bs x st \<Longrightarrow> gop_ensure cfg st = Inr st"
  by (simp add: gop_mid_def gop_ensure_def)

lemma gop_ensure_step:
  assumes "gop_inv cfg xs bs st" "\<not> au_Keyframe (snd x)"
  shows "case gop_ensure cfg st of
      Inl st' \<Rightarrow> \<exists>bs'. gop_inv cfg (xs @ [x]) bs' st'
    | Inr st' \<Rightarrow> \<exists>bs'. gop_mid cfg xs bs' x st'"
proof (cases "g_current st")
  case (Some i)
  have inv: "pump_inv cfg (gop_frame cfg) xs bs (Some i) (g_world st)" using assms(1) Some by (simp add: gop_inv_def)
  then obtain bs0 b where b: "bs = bs0 @ [b]" by (rule pump_inv_current)
  then have "gop_mid cfg xs bs x st" using assms Some inv
    by (auto simp: gop_inv_def gop_mid_def gop_shapes_snoc gop_shape_ext)
  then show ?thesis using gop_ensure_current by auto
next
  case None
  have inv: "pump_inv cfg (gop_frame cfg) xs bs None (g_world st)" "gop_shapes cfg bs"
    using assms(1) None by (simp_all add: gop_inv_def)
  show ?thesis
  proof (cases "g_leading st")
    case False
    then have "gop_inv cfg (xs @ [x]) bs (gop_request st)"
      using inv None by (simp add: gop_inv_def pump_inv_skip)
    then show ?thesis using False None by (auto simp: gop_ensure_def)
  next
    case True
    obtain r w1 where r: "openGOPStream cfg (g_world st) = (r, w1)" by fastforce
    have st: "st\<lparr>g_leading := False, g_world := w1\<rparr> = st\<lparr>g_leading := False, g_current := None, g_world := w1\<rparr>"
      using None by (cases st) simp
    show ?thesis
      using gop_open_fail [OF inv(1) _ inv(2), of w1 x st] gop_open_ok [OF inv(1) _ inv(2), of _ w1 x st]
        r None True assms(1)
      by (cases r) (auto simp: gop_ensure_def st gop_inv_def)
  qed
qed

lemma gop_write_step:
  assumes "gop_mid cfg xs bs x st"
  shows "\<exists>bs'. gop_inv cfg (xs @ [x]) bs' (gop_write cfg (fst x) (snd x) st)"
proof -
  obtain i where i: "g_current st = Some i" "pump_inv cfg (gop_frame cfg) xs bs (Some i) (g_world st)"
    using assms by (auto simp: gop_mid_def)
  from i(2) obtain bs0 b where b: "bs = bs0 @ [b]" by (rule pump_inv_current)
  define f where "f = (\<lambda>s. writeFrame cfg s (gop_type (snd x)) (au_PTSMicro (snd x)) (au_Seq (snd x))
    (gop_flags (snd x)) (pubWall cfg (fst x) (snd x)) (au_Bytes (snd x)))"
  have pre: "\<exists>k. w_out s' = w_out s @ take k (feed_frame_bytes (gop_frame cfg x))
      \<and> (r = None \<longrightarrow> take k (feed_frame_bytes (gop_frame cfg x)) = feed_frame_bytes (gop_frame cfg x))"
    if "f s = (r, s')" for s r s'
    using writeFrame_prefix [OF that [unfolded f_def]] by (auto simp: appendFeedFrame_bytes gop_frame_def)
  obtain r w' where r: "on_stream i f (g_world st) = (r, w')" by fastforce
  have sh: "gop_shapes cfg (bs0 @ [b @ [x]])" "\<not> g_leading st" using assms b by (simp_all add: gop_mid_def)
  note inv = pump_inv_write [OF i(2) [unfolded b] r pre]
  show ?thesis
  proof (cases r)
    case None
    then have "gop_inv cfg (xs @ [x]) (bs0 @ [b @ [x]])
        (st\<lparr>g_world := emit (EvBytes (FeedHeaderLen + length (au_Bytes (snd x)))) w'\<rparr>)"
      using inv sh i(1) by (simp add: gop_inv_def)
    then show ?thesis using None r i(1) by (auto simp: gop_write_def f_def)
  next
    case (Some e)
    then have "gop_inv cfg (xs @ [x]) (bs0 @ [b @ [x]])
        (gop_request (st\<lparr>g_current := None, g_world := CancelWrite i w'\<rparr>))"
      using inv sh by (simp add: gop_inv_def)
    then show ?thesis using Some r i(1) by (auto simp: gop_write_def f_def)
  qed
qed

lemma gop_step_inv:
  assumes "gop_inv cfg xs bs st"
  shows "\<exists>bs'. gop_inv cfg (xs @ [x]) bs' (gop_step cfg x st)"
proof -
  define st1 where "st1 = st\<lparr>g_world := emit EvAttempt (g_world st)\<rparr>"
  have inv: "gop_inv cfg xs bs st1" using assms by (simp add: gop_inv_def st1_def)
  show ?thesis
  proof (cases "au_Keyframe (snd x)")
    case True
    show ?thesis
    proof (cases "gop_keyframe cfg st1")
      case (Inl st2)
      then show ?thesis using gop_keyframe_step [OF inv True] True
        by (simp add: gop_step_def Let_def st1_def [symmetric] split_beta)
    next
      case (Inr st2)
      then obtain bs' where mid: "gop_mid cfg xs bs' x st2" using gop_keyframe_step [OF inv True] by auto
      then show ?thesis using gop_write_step [OF mid] Inr True
        by (simp add: gop_step_def Let_def st1_def [symmetric] split_beta gop_ensure_current [OF mid])
    qed
  next
    case False
    show ?thesis
    proof (cases "gop_ensure cfg st1")
      case (Inl st2)
      then show ?thesis using gop_ensure_step [OF inv False] False
        by (simp add: gop_step_def Let_def st1_def [symmetric] split_beta)
    next
      case (Inr st2)
      then obtain bs' where mid: "gop_mid cfg xs bs' x st2" using gop_ensure_step [OF inv False] by auto
      then show ?thesis using gop_write_step [OF mid] Inr False
        by (simp add: gop_step_def Let_def st1_def [symmetric] split_beta)
    qed
  qed
qed

lemma gop_fold_inv:
  assumes "gop_inv cfg ys bs st"
  shows "\<exists>bs'. gop_inv cfg (ys @ xs) bs' (fold (gop_step cfg) xs st)"
  using assms
proof (induction xs arbitrary: ys bs st)
  case (Cons x xs)
  obtain bs' where "gop_inv cfg (ys @ [x]) bs' (gop_step cfg x st)" using gop_step_inv [OF Cons.prems] by blast
  from Cons.IH [OF this] show ?case by simp
qed auto

lemma pump_inv_segments: "pump_inv cfg fr xs bs cur w \<Longrightarrow> subseq (concat bs) xs \<and> (\<forall>b\<in>set bs. sublist b xs)"
  unfolding pump_inv_def using segments_blocks by blast

lemma pump_inv_ends:
  assumes "pump_inv cfg fr xs bs cur w"
  shows "(\<forall>s\<in>set (butlast (pw_streams (close_current cur w))). ss_reset s) \<and>
    (\<forall>s\<in>set (pw_streams (close_current cur w)). ss_reset s \<or> ss_fin s)"
proof (cases cur)
  case None
  then show ?thesis using assms by (auto simp: pump_inv_def close_current_def dest: in_set_butlastD)
next
  case (Some i)
  from assms [unfolded Some] show ?thesis
  proof (rule pump_inv_current)
    fix bs' b ss s
    assume "pw_streams w = ss @ [s]" "i = length ss" "\<forall>t\<in>set ss. ss_reset t"
    then show ?thesis using Some by (simp add: close_current_def CloseStream_def)
  qed
qed

section \<open>The low-latency pump keeps the invariant\<close>

lemma ll_write_pre:
  assumes "writeFrame cfg s TypeKeyframe (au_PTSMicro (snd x)) (au_Seq (snd x)) (ll_flags (snd x))
     (pubWall cfg (fst x) (snd x)) (au_Bytes (snd x)) = (r, s')"
  shows "\<exists>k. w_out s' = w_out s @ take k (feed_frame_bytes (ll_frame cfg x))
      \<and> (r = None \<longrightarrow> take k (feed_frame_bytes (ll_frame cfg x)) = feed_frame_bytes (ll_frame cfg x))"
  using writeFrame_prefix [OF assms] by (auto simp: appendFeedFrame_bytes ll_frame_def)

definition ll_inv :: "Config \<Rightarrow> (64 word \<times> AccessUnit) list \<Rightarrow> ll_state \<Rightarrow> bool" where
  "ll_inv cfg xs st \<longleftrightarrow> (\<exists>bs. pump_inv cfg (ll_frame cfg) xs bs (l_stream st) (l_world st))"

lemma ll_write_inv:
  assumes "pump_inv cfg (ll_frame cfg) xs bs (Some i) w"
  shows "ll_inv cfg (xs @ [x]) (ll_write cfg (fst x) (snd x) i w)"
proof -
  from assms obtain bs0 b where b: "bs = bs0 @ [b]" by (rule pump_inv_current)
  define f where "f = (\<lambda>s. writeFrame cfg s TypeKeyframe (au_PTSMicro (snd x)) (au_Seq (snd x))
    (ll_flags (snd x)) (pubWall cfg (fst x) (snd x)) (au_Bytes (snd x)))"
  obtain r w' where r: "on_stream i f w = (r, w')" by fastforce
  have "(r = None \<longrightarrow> pump_inv cfg (ll_frame cfg) (xs @ [x]) (bs0 @ [b @ [x]]) (Some i) w') \<and>
    (r \<noteq> None \<longrightarrow> pump_inv cfg (ll_frame cfg) (xs @ [x]) (bs0 @ [b @ [x]]) None (CancelWrite i w'))"
    by (rule pump_inv_write [OF assms [unfolded b] r]) (rule ll_write_pre, simp add: f_def)
  then show ?thesis using r by (cases r) (auto simp: ll_inv_def ll_write_def f_def)
qed

lemma ll_step_inv:
  assumes "ll_inv cfg xs st"
  shows "ll_inv cfg (xs @ [x]) (ll_step cfg x st)"
proof -
  obtain bs where inv: "pump_inv cfg (ll_frame cfg) xs bs (l_stream st) (emit EvAttempt (l_world st))"
    using assms by (auto simp: ll_inv_def)
  show ?thesis
  proof (cases "l_stream st")
    case (Some i)
    then show ?thesis using ll_write_inv [of cfg xs bs i "emit EvAttempt (l_world st)" x] inv
      by (simp add: ll_step_def Let_def split_beta)
  next
    case None
    obtain r w1 where r: "openGOPStream cfg (emit EvAttempt (l_world st)) = (r, w1)" by fastforce
    show ?thesis using pump_inv_open [OF inv [unfolded None] r] r None ll_write_inv [of cfg xs "bs @ [[]]" _ w1 x]
      by (cases r) (auto simp: ll_step_def Let_def split_beta openStream_ll_eq ll_inv_def intro: pump_inv_skip)
  qed
qed

lemma ll_start_inv: "pw_streams w = [] \<Longrightarrow> ll_inv cfg [] (ll_start cfg w)"
proof -
  assume "pw_streams w = []"
  then have inv: "pump_inv cfg (ll_frame cfg) [] [] None w" by (simp add: pump_inv_def seg_nil)
  obtain r w1 where r: "openGOPStream cfg w = (r, w1)" by fastforce
  show ?thesis using pump_inv_open [OF inv r] r
    by (cases r) (auto simp: ll_start_def openStream_ll_eq ll_inv_def)
qed

lemma ll_fold_inv: "ll_inv cfg ys st \<Longrightarrow> ll_inv cfg (ys @ xs) (fold (ll_step cfg) xs st)"
proof (induction xs arbitrary: ys st)
  case (Cons x xs)
  from Cons.IH [OF ll_step_inv [OF Cons.prems], of x] show ?case by simp
qed simp

text \<open>Every AU is accounted for: one attempt, and then its bytes or a drop.\<close>

definition attempts :: "pump_event list \<Rightarrow> nat" where
  "attempts es = length (filter (\<lambda>e. e = EvAttempt) es)"

definition outcomes :: "pump_event list \<Rightarrow> nat" where
  "outcomes es = length (filter (\<lambda>e. case e of EvBytes _ \<Rightarrow> True | EvDropped _ \<Rightarrow> True | _ \<Rightarrow> False) es)"

lemma stream_op_log [simp]:
  "pw_log (CancelWrite i w) = pw_log w" "pw_log (CloseStream i w) = pw_log w"
  "pw_log (emit e w) = pw_log w @ [e]" "OpenSendStream w = (j, w') \<Longrightarrow> pw_log w' = pw_log w"
  "on_stream i f w = (r, w') \<Longrightarrow> pw_log w' = pw_log w"
  by (auto simp: CancelWrite_def CloseStream_def emit_def OpenSendStream_def add_stream_def on_stream_def
      split: list.splits open_outcome.splits prod.splits)

lemma close_current_log [simp]: "pw_log (close_current c w) = pw_log w"
  by (simp add: close_current_def split: option.split)

lemma openGOPStream_log:
  "openGOPStream cfg w = (r, w') \<Longrightarrow>
     attempts (pw_log w') = attempts (pw_log w) \<and> outcomes (pw_log w') = outcomes (pw_log w)"
  by (auto simp: openGOPStream_def attempts_def outcomes_def split: prod.splits option.splits if_splits)

lemma ll_write_log:
  "attempts (pw_log (l_world (ll_write cfg now au i w))) = attempts (pw_log w) \<and>
   outcomes (pw_log (l_world (ll_write cfg now au i w))) = Suc (outcomes (pw_log w))"
  by (auto simp: ll_write_def attempts_def outcomes_def split: prod.split option.split)

lemma ll_step_log:
  "attempts (pw_log (l_world (ll_step cfg x st))) = Suc (attempts (pw_log (l_world st))) \<and>
   outcomes (pw_log (l_world (ll_step cfg x st))) = Suc (outcomes (pw_log (l_world st)))"
proof -
  have e: "attempts (pw_log (emit EvAttempt w)) = Suc (attempts (pw_log w))"
    "outcomes (pw_log (emit EvAttempt w)) = outcomes (pw_log w)" for w
    by (simp_all add: attempts_def outcomes_def)
  obtain r w1 where r: "openGOPStream cfg (emit EvAttempt (l_world st)) = (r, w1)" by fastforce
  note o' = openGOPStream_log [OF r]
  have "outcomes (pw_log (emit (EvDropped d) w1)) = Suc (outcomes (pw_log w1))"
    "attempts (pw_log (emit (EvDropped d) w1)) = attempts (pw_log w1)" for d
    by (simp_all add: attempts_def outcomes_def)
  then show ?thesis using o' r e
    by (cases "l_stream st"; cases r) (simp_all add: ll_step_def Let_def split_beta openStream_ll_eq ll_write_log)
qed

lemma ll_fold_log:
  "attempts (pw_log (l_world (fold (ll_step cfg) xs st))) = length xs + attempts (pw_log (l_world st)) \<and>
   outcomes (pw_log (l_world (fold (ll_step cfg) xs st))) = length xs + outcomes (pw_log (l_world st))"
  by (induction xs arbitrary: st) (simp_all add: ll_step_log)

section \<open>Properties\<close>

text \<open>C18. The optimised encoder of the send path agrees with the wire package: for a payload within
  the limit, \<open>writeFrame\<close> (pooled, or chunked under a scheduler) puts on a faultless stream exactly the
  bytes that \<open>WriteFeedFrame\<close>, or \<open>WriteFeedFrameWall\<close> for a stamped frame, puts there, and returns nil.\<close>

theorem writeFrame_equivalent:
  assumes "good_writer w" "length payload \<le> MaxFeedPayload"
  shows "fst (writeFrame cfg w typ pts seq flags pw payload) = None \<and>
    w_out (snd (writeFrame cfg w typ pts seq flags pw payload)) =
    w_out (snd (if pw = 0 then WriteFeedFrame w typ pts seq flags payload
                else WriteFeedFrameWall w typ pts seq flags pw payload))"
proof -
  obtain w' where "writeFrame cfg w typ pts seq flags pw payload = (None, w')"
    "w_out w' = w_out w @ appendFeedFrame [] typ pts seq flags pw payload"
    using writeFrame_good [OF assms(1,2)] by blast
  moreover obtain w1 where "WriteFeedFrame w typ pts seq flags payload = (None, w1)"
    "w_out w1 = w_out w @ (typ # len3 (length payload)) @ put_be 8 pts @ put_be 4 seq @ [flags] @ payload"
    using write2_good [OF assms(1), of "(typ # len3 (length payload)) @ put_be 8 pts @ put_be 4 seq @ [flags]" payload]
      assms(2) by (auto simp: WriteFeedFrame_eq)
  moreover obtain w2 where "WriteFeedFrameWall w typ pts seq flags pw payload = (None, w2)"
    "w_out w2 = w_out w @ (typ # len3 (length payload)) @ put_be 8 pts @ put_be 4 seq
       @ [flags OR FlagPublishWall] @ put_be 8 pw @ payload"
    using write2_good [OF assms(1), of "(typ # len3 (length payload)) @ put_be 8 pts @ put_be 4 seq
       @ [flags OR FlagPublishWall] @ put_be 8 pw" payload] assms(2) by (auto simp: WriteFeedFrameWall_eq)
  ultimately show ?thesis
    by (simp add: appendFeedFrame_def len3_def Let_def)
qed

theorem writeFrame_equivalent_witness:
  "fst (writeFrame (Config_zero\<lparr>cfg_Scheduler := True\<rparr>) \<lparr>w_out = [], w_script = [None, None]\<rparr> TypeFrame 7 1 0 9 [1, 2]) = None \<and>
    w_out (snd (writeFrame (Config_zero\<lparr>cfg_Scheduler := True\<rparr>) \<lparr>w_out = [], w_script = [None, None]\<rparr> TypeFrame 7 1 0 9 [1, 2])) =
    w_out (snd (WriteFeedFrameWall \<lparr>w_out = [], w_script = [None, None]\<rparr> TypeFrame 7 1 0 9 [1, 2]))"
  using writeFrame_equivalent [of "\<lparr>w_out = [], w_script = [None, None]\<rparr>" "[1, 2]"
      "Config_zero\<lparr>cfg_Scheduler := True\<rparr>" TypeFrame 7 1 0 9]
  by (simp add: good_writer_def MaxFeedPayload_def)

text \<open>A whole run of the stream-per-GOP pump ends in a state that satisfies the loop invariant.\<close>

lemma runStreamGOP_run:
  assumes "pw_streams w = []"
  shows "\<exists>bs st. gop_inv cfg xs bs st \<and> snd (runStreamGOP cfg xs e w) = close_current (g_current st) (g_world st)"
proof -
  define st where "st = fold (gop_step cfg) xs
    \<lparr>g_current = None, g_leading = cfg_AllowLeadingPFrames cfg, g_world = w\<rparr>"
  have "gop_inv cfg [] [] \<lparr>g_current = None, g_leading = cfg_AllowLeadingPFrames cfg, g_world = w\<rparr>"
    using assms by (simp add: gop_inv_def pump_inv_def seg_nil gop_shapes_def)
  from gop_fold_inv [OF this, of xs] obtain bs where "gop_inv cfg xs bs st" by (auto simp: st_def)
  moreover have "snd (runStreamGOP cfg xs e w) = close_current (g_current st) (g_world st)"
    by (simp add: runStreamGOP_def st_def Let_def)
  ultimately show ?thesis by blast
qed

text \<open>C14. Whatever opens and writes fail, the stream-per-GOP pump splits the AUs it consumed into
  disjoint contiguous blocks, one per stream in order: every stream that was not reset carries the track
  header and exactly its block's frames, a reset one a beginning of that which lacks at most the last
  frame; every block is a keyframe followed by non-keyframes (only a resumed pump's first stream may
  start with a P-frame); and at most the last stream was not reset, which is then closed.\<close>

theorem runStreamGOP_streams:
  assumes "pw_streams w = []"
  shows "\<exists>bs. subseq (concat bs) xs \<and> (\<forall>b\<in>set bs. sublist b xs) \<and>
    list_all2 (stream_carries cfg (gop_frame cfg)) bs (pw_streams (snd (runStreamGOP cfg xs e w))) \<and>
    gop_shapes cfg bs \<and>
    (\<forall>s\<in>set (butlast (pw_streams (snd (runStreamGOP cfg xs e w)))). ss_reset s) \<and>
    (\<forall>s\<in>set (pw_streams (snd (runStreamGOP cfg xs e w))). ss_reset s \<or> ss_fin s)"
proof -
  obtain bs st where inv: "gop_inv cfg xs bs st"
    and run: "snd (runStreamGOP cfg xs e w) = close_current (g_current st) (g_world st)"
    using runStreamGOP_run [OF assms] by blast
  from inv have p: "pump_inv cfg (gop_frame cfg) xs bs (g_current st) (g_world st)" by (simp add: gop_inv_def)
  have "(\<forall>s\<in>set (butlast (pw_streams (close_current (g_current st) (g_world st)))). ss_reset s) \<and>
    (\<forall>s\<in>set (pw_streams (close_current (g_current st) (g_world st))). ss_reset s \<or> ss_fin s)"
    using pump_inv_ends [OF p] .
  then show ?thesis using pump_inv_segments [OF p] pump_inv_close [OF p] inv
    unfolding run gop_inv_def by blast
qed

theorem runStreamGOP_streams_witness:
  "\<exists>bs. subseq (concat bs) [(1, AccessUnit_zero\<lparr>au_Keyframe := True\<rparr>)] \<and>
    (\<forall>b\<in>set bs. sublist b [(1, AccessUnit_zero\<lparr>au_Keyframe := True\<rparr>)]) \<and>
    list_all2 (stream_carries Config_zero (gop_frame Config_zero)) bs
      (pw_streams (snd (runStreamGOP Config_zero [(1, AccessUnit_zero\<lparr>au_Keyframe := True\<rparr>)] ChannelClosed
        \<lparr>pw_streams = [], pw_opens = [OpenOK [Some 3]], pw_log = []\<rparr>))) \<and>
    gop_shapes Config_zero bs \<and>
    (\<forall>s\<in>set (butlast (pw_streams (snd (runStreamGOP Config_zero [(1, AccessUnit_zero\<lparr>au_Keyframe := True\<rparr>)]
       ChannelClosed \<lparr>pw_streams = [], pw_opens = [OpenOK [Some 3]], pw_log = []\<rparr>)))). ss_reset s) \<and>
    (\<forall>s\<in>set (pw_streams (snd (runStreamGOP Config_zero [(1, AccessUnit_zero\<lparr>au_Keyframe := True\<rparr>)]
       ChannelClosed \<lparr>pw_streams = [], pw_opens = [OpenOK [Some 3]], pw_log = []\<rparr>))). ss_reset s \<or> ss_fin s)"
  by (rule runStreamGOP_streams) simp

text \<open>C21. Whatever opens and writes fail, the low-latency pump hands disjoint contiguous blocks of the
  AUs to its streams in order; a stream that was not reset carries exactly its block, only the last stream
  can be of that kind, and it is closed. Every AU is attempted once and ends as written bytes or as a
  reported drop.\<close>

theorem runStreamLowLatency_streams:
  assumes "pw_streams w = []"
  shows "(\<exists>bs. subseq (concat bs) xs \<and> (\<forall>b\<in>set bs. sublist b xs) \<and>
      list_all2 (stream_carries cfg (ll_frame cfg)) bs (pw_streams (snd (runStreamLowLatency cfg xs e w)))) \<and>
    (\<forall>s\<in>set (butlast (pw_streams (snd (runStreamLowLatency cfg xs e w)))). ss_reset s) \<and>
    (\<forall>s\<in>set (pw_streams (snd (runStreamLowLatency cfg xs e w))). ss_reset s \<or> ss_fin s) \<and>
    attempts (pw_log (snd (runStreamLowLatency cfg xs e w))) = length xs + attempts (pw_log w) \<and>
    outcomes (pw_log (snd (runStreamLowLatency cfg xs e w))) =
      length xs + (if fst (openStream_ll cfg w) = None then 1 else 0) + outcomes (pw_log w)"
proof -
  define st where "st = fold (ll_step cfg) xs (ll_start cfg w)"
  have run: "snd (runStreamLowLatency cfg xs e w) = close_current (l_stream st) (l_world st)"
    by (simp add: runStreamLowLatency_def st_def Let_def)
  have "ll_inv cfg xs st" using ll_fold_inv [OF ll_start_inv [OF assms], of cfg xs] by (simp add: st_def)
  then obtain bs where p: "pump_inv cfg (ll_frame cfg) xs bs (l_stream st) (l_world st)" by (auto simp: ll_inv_def)
  obtain r w1 where r: "openGOPStream cfg w = (r, w1)" by fastforce
  have "attempts (pw_log (l_world (ll_start cfg w))) = attempts (pw_log w) \<and>
    outcomes (pw_log (l_world (ll_start cfg w))) =
      (if fst (openStream_ll cfg w) = None then 1 else 0) + outcomes (pw_log w)"
    using openGOPStream_log [OF r] r
    by (cases r) (simp_all add: ll_start_def openStream_ll_eq attempts_def outcomes_def)
  then show ?thesis
    using pump_inv_segments [OF p] pump_inv_close [OF p] pump_inv_ends [OF p] ll_fold_log [of cfg xs "ll_start cfg w"]
    unfolding run by (auto simp: st_def [symmetric])
qed

theorem runStreamLowLatency_streams_witness:
  "(\<exists>bs. subseq (concat bs) [(1, AccessUnit_zero)] \<and> (\<forall>b\<in>set bs. sublist b [(1, AccessUnit_zero)]) \<and>
      list_all2 (stream_carries Config_zero (ll_frame Config_zero)) bs
        (pw_streams (snd (runStreamLowLatency Config_zero [(1, AccessUnit_zero)] CtxDone
          \<lparr>pw_streams = [], pw_opens = [OpenFails], pw_log = []\<rparr>)))) \<and>
    attempts (pw_log (snd (runStreamLowLatency Config_zero [(1, AccessUnit_zero)] CtxDone
          \<lparr>pw_streams = [], pw_opens = [OpenFails], pw_log = []\<rparr>))) = 1 \<and>
    outcomes (pw_log (snd (runStreamLowLatency Config_zero [(1, AccessUnit_zero)] CtxDone
          \<lparr>pw_streams = [], pw_opens = [OpenFails], pw_log = []\<rparr>))) = 2"
  using runStreamLowLatency_streams
    [of "\<lparr>pw_streams = [], pw_opens = [OpenFails], pw_log = []\<rparr>" "[(1, AccessUnit_zero)]" Config_zero CtxDone]
  by (simp add: attempts_def outcomes_def openStream_ll_def OpenSendStream_def)

end
