(* ===== verification/Feed_Datagram.thy ===== *)
theory Feed_Datagram
  imports Feed_Pump
begin

text \<open>
  The datagram-first pump (\<^verbatim>\<open>feed/datagram.go\<close>): every AU is sent as one datagram; an AU that does
  not fit, or that the transport refuses, goes to a lazily opened fallback stream, or is dropped with a
  reason. The outcomes of \<^verbatim>\<open>SendDatagram\<close> are a script; an exhausted script accepts.
\<close>

definition dropReasonDatagramTooLarge :: string where "dropReasonDatagramTooLarge = ''datagram_too_large''"
definition dropReasonSendFailed :: string where "dropReasonSendFailed = ''send_failed''"
definition dropReasonFallbackWriteFailed :: string where "dropReasonFallbackWriteFailed = ''fallback_write_failed''"
definition dropReasonFallbackOpenFailed :: string where "dropReasonFallbackOpenFailed = ''fallback_open_failed''"

definition ErrDatagramSenderNil :: go_error where
  "ErrDatagramSenderNil = ErrOther ''feed: DatagramSender required for DeliveryDatagramOrStream''"

record dg_state =
  d_seq :: "16 word"
  d_fallback :: "nat option"
  d_sends :: "bool list"
  d_sent :: "bytes list"
  d_world :: pump_world

definition SendDatagram :: "bytes \<Rightarrow> dg_state \<Rightarrow> bool \<times> dg_state" where
  "SendDatagram b st =
     (case d_sends st of
        [] \<Rightarrow> (True, st\<lparr>d_sent := d_sent st @ [b]\<rparr>)
      | True # r \<Rightarrow> (True, st\<lparr>d_sent := d_sent st @ [b], d_sends := r\<rparr>)
      | False # r \<Rightarrow> (False, st\<lparr>d_sends := r\<rparr>))"

text \<open>\<open>openFallback\<close>: \<open>Inr None\<close> is the nil stream with a nil error when no opener is configured.\<close>

definition openFallback :: "Config \<Rightarrow> pump_world \<Rightarrow> (unit + nat option) \<times> pump_world" where
  "openFallback cfg w =
     (if \<not> cfg_FallbackOpener cfg then (Inr None, w)
      else case OpenSendStream w of
        (None, w1) \<Rightarrow> (Inl (), w1)
      | (Some i, w1) \<Rightarrow>
          if cfg_TrackName cfg \<noteq> [] then
            (case on_stream i (\<lambda>s. WriteStreamHeader s (cfg_TrackName cfg)) w1 of
               (Some e, w2) \<Rightarrow> (Inl (), CancelWrite i w2)
             | (None, w2) \<Rightarrow> (Inr (Some i), emit (EvOpened (cfg_TrackName cfg) (cfg_Priority cfg)) w2))
          else (Inr (Some i), emit (EvOpened (cfg_TrackName cfg) (cfg_Priority cfg)) w1))"

definition writeFallback :: "Config \<Rightarrow> nat \<Rightarrow> 64 word \<times> AccessUnit \<Rightarrow> pump_world \<Rightarrow> bool \<times> pump_world" where
  "writeFallback cfg i x w =
     (let (now, au) = x in
      case on_stream i (\<lambda>s. writeFeedFramePooled s TypeKeyframe (au_PTSMicro au) (au_Seq au) (ll_flags au)
                          (pubWall cfg now au) (au_Bytes au)) w of
        (Some e, w1) \<Rightarrow> (False, w1)
      | (None, w1) \<Rightarrow> (True, emit (EvBytes (FeedHeaderLen + length (au_Bytes au))) w1))"

definition fallback_write ::
    "Config \<Rightarrow> nat \<Rightarrow> 64 word \<times> AccessUnit \<Rightarrow> string \<Rightarrow> pump_world \<Rightarrow> nat option \<times> pump_world" where
  "fallback_write cfg i x reason w =
     (case writeFallback cfg i x w of
        (False, w1) \<Rightarrow> (None, emit (EvDropped dropReasonFallbackWriteFailed) (CancelWrite i w1))
      | (True, w1) \<Rightarrow> (Some i, emit (EvFallback reason) w1))"

definition fallbackOrDrop ::
    "Config \<Rightarrow> 64 word \<times> AccessUnit \<Rightarrow> string \<Rightarrow> nat option \<Rightarrow> pump_world \<Rightarrow> nat option \<times> pump_world" where
  "fallbackOrDrop cfg x reason fb w =
     (if \<not> cfg_FallbackOpener cfg then (fb, emit (EvDropped reason) w)
      else case fb of
        Some i \<Rightarrow> fallback_write cfg i x reason w
      | None \<Rightarrow>
          (case openFallback cfg w of
             (Inl _, w1) \<Rightarrow> (None, emit (EvDropped dropReasonFallbackOpenFailed) w1)
           | (Inr None, w1) \<Rightarrow> (None, w1)
           | (Inr (Some i), w1) \<Rightarrow> fallback_write cfg i x reason w1))"

definition dg_spill :: "Config \<Rightarrow> 64 word \<times> AccessUnit \<Rightarrow> string \<Rightarrow> dg_state \<Rightarrow> dg_state" where
  "dg_spill cfg x reason st =
     (let (fb, w) = fallbackOrDrop cfg x reason (d_fallback st) (d_world st) in
      st\<lparr>d_fallback := fb, d_world := w, d_seq := d_seq st + 1\<rparr>)"

definition dg_step :: "Config \<Rightarrow> 64 word \<times> AccessUnit \<Rightarrow> dg_state \<Rightarrow> dg_state" where
  "dg_step cfg x st =
     (let st1 = st\<lparr>d_world := emit EvAttempt (d_world st)\<rparr> in
      case EncodeDatagram [] (cfg_TrackID cfg) (d_seq st1) (au_Bytes (snd x)) of
        Inl _ \<Rightarrow> dg_spill cfg x dropReasonDatagramTooLarge st1
      | Inr encoded \<Rightarrow>
          (case SendDatagram encoded st1 of
             (False, st2) \<Rightarrow> dg_spill cfg x dropReasonSendFailed st2
           | (True, st2) \<Rightarrow>
               st2\<lparr>d_world := emit (EvBytes (length encoded)) (d_world st2), d_seq := d_seq st2 + 1\<rparr>))"

definition runDatagramOrStream ::
    "Config \<Rightarrow> (64 word \<times> AccessUnit) list \<Rightarrow> pump_end \<Rightarrow> bool list \<Rightarrow> pump_world \<Rightarrow> go_error option \<times> dg_state" where
  "runDatagramOrStream cfg xs e sends w =
     (let st0 = \<lparr>d_seq = 0, d_fallback = None, d_sends = sends, d_sent = [], d_world = w\<rparr> in
      if \<not> cfg_DatagramSender cfg then (Some ErrDatagramSenderNil, st0)
      else let st = fold (dg_step cfg) xs st0 in
        (pump_result e, st\<lparr>d_world := close_current (d_fallback st) (d_world st)\<rparr>))"

section \<open>Which path an AU took\<close>

text \<open>\<open>ms ! i\<close> tells whether AU \<open>i\<close> went out as a datagram.\<close>

definition as_datagrams :: "bool list \<Rightarrow> 'x list \<Rightarrow> (nat \<times> 'x) list" where
  "as_datagrams ms xs = map snd (filter fst (zip ms (enumerate 0 xs)))"

definition spilled :: "bool list \<Rightarrow> 'x list \<Rightarrow> 'x list" where
  "spilled ms xs = map snd (filter (\<lambda>p. \<not> fst p) (zip ms xs))"

lemma as_datagrams_snoc:
  "length ms = length xs \<Longrightarrow>
     as_datagrams (ms @ [m]) (xs @ [x]) = as_datagrams ms xs @ (if m then [(length xs, x)] else [])"
  by (simp add: as_datagrams_def enumerate_append_eq)

lemma spilled_snoc:
  "length ms = length xs \<Longrightarrow> spilled (ms @ [m]) (xs @ [x]) = spilled ms xs @ (if m then [] else [x])"
  by (simp add: spilled_def)

definition dg_inv :: "Config \<Rightarrow> (64 word \<times> AccessUnit) list \<Rightarrow> bool list \<Rightarrow> dg_state \<Rightarrow> bool" where
  "dg_inv cfg xs ms st \<longleftrightarrow>
     length ms = length xs \<and> d_seq st = of_nat (length xs) \<and>
     map DecodeDatagram (d_sent st) =
       map (\<lambda>(i, x). Inr (cfg_TrackID cfg, of_nat i, au_Bytes (snd x))) (as_datagrams ms xs) \<and>
     (\<not> cfg_FallbackOpener cfg \<longrightarrow> d_fallback st = None) \<and>
     (\<exists>bs. pump_inv cfg (ll_frame cfg) (spilled ms xs) bs (d_fallback st) (d_world st))"

lemma openFallback_eq:
  "cfg_FallbackOpener cfg \<Longrightarrow> openFallback cfg w =
     (case openGOPStream cfg w of (None, w1) \<Rightarrow> (Inl (), w1) | (Some i, w1) \<Rightarrow> (Inr (Some i), w1))"
  by (auto simp: openFallback_def openGOPStream_def split: prod.split option.split)

lemma writeFeedFramePooled_eq:
  "writeFeedFramePooled w typ pts sq fl pw p = writeFrame Config_zero w typ pts sq fl pw p"
  by (simp add: writeFrame_def writeFeedFramePooled_def Config_zero_def)

lemma fallback_write_inv:
  assumes "pump_inv cfg (ll_frame cfg) ys bs (Some i) w"
  shows "\<exists>bs'. pump_inv cfg (ll_frame cfg) (ys @ [x]) bs' (fst (fallback_write cfg i x reason w))
    (snd (fallback_write cfg i x reason w))"
proof -
  from assms obtain bs0 b where b: "bs = bs0 @ [b]" by (rule pump_inv_current)
  define f where "f = (\<lambda>s. writeFeedFramePooled s TypeKeyframe (au_PTSMicro (snd x)) (au_Seq (snd x))
    (ll_flags (snd x)) (pubWall cfg (fst x) (snd x)) (au_Bytes (snd x)))"
  obtain r w' where r: "on_stream i f w = (r, w')" by fastforce
  have pre: "\<exists>k. w_out s' = w_out s @ take k (feed_frame_bytes (ll_frame cfg x))
      \<and> (r = None \<longrightarrow> take k (feed_frame_bytes (ll_frame cfg x)) = feed_frame_bytes (ll_frame cfg x))"
    if "f s = (r, s')" for s r s'
    using writeFrame_prefix [OF that [unfolded f_def writeFeedFramePooled_eq]]
    by (auto simp: appendFeedFrame_bytes ll_frame_def)
  have "(r = None \<longrightarrow> pump_inv cfg (ll_frame cfg) (ys @ [x]) (bs0 @ [b @ [x]]) (Some i) w') \<and>
    (r \<noteq> None \<longrightarrow> pump_inv cfg (ll_frame cfg) (ys @ [x]) (bs0 @ [b @ [x]]) None (CancelWrite i w'))"
    by (rule pump_inv_write [OF assms [unfolded b] r pre])
  then show ?thesis using r by (cases r) (auto simp: fallback_write_def writeFallback_def f_def split_beta)
qed

lemma fallbackOrDrop_inv:
  assumes "pump_inv cfg (ll_frame cfg) ys bs fb w" "\<not> cfg_FallbackOpener cfg \<longrightarrow> fb = None"
  shows "\<exists>bs'. pump_inv cfg (ll_frame cfg) (ys @ [x]) bs' (fst (fallbackOrDrop cfg x reason fb w))
    (snd (fallbackOrDrop cfg x reason fb w))"
proof (cases "cfg_FallbackOpener cfg")
  case False
  then show ?thesis using assms by (auto simp: fallbackOrDrop_def intro: pump_inv_skip)
next
  case True
  show ?thesis
  proof (cases fb)
    case (Some i)
    then show ?thesis using fallback_write_inv [of cfg ys bs i w x reason] assms(1) True
      by (simp add: fallbackOrDrop_def)
  next
    case None
    obtain r w1 where r: "openGOPStream cfg w = (r, w1)" by fastforce
    show ?thesis
      using pump_inv_open [OF assms(1) [unfolded None] r] r None True fallback_write_inv [of cfg ys "bs @ [[]]" _ w1 x reason]
      by (cases r) (auto simp: fallbackOrDrop_def openFallback_eq intro: pump_inv_skip)
  qed
qed

lemma fallbackOrDrop_none: "\<not> cfg_FallbackOpener cfg \<Longrightarrow> fst (fallbackOrDrop cfg x reason fb w) = fb"
  by (simp add: fallbackOrDrop_def)

lemma SendDatagram_cases:
  "SendDatagram b st = (r, st') \<Longrightarrow>
     d_seq st' = d_seq st \<and> d_fallback st' = d_fallback st \<and> d_world st' = d_world st \<and>
     d_sent st' = d_sent st @ (if r then [b] else [])"
  by (auto simp: SendDatagram_def split: list.splits bool.splits)

lemma dg_spill_inv:
  assumes "dg_inv cfg xs ms st"
  shows "dg_inv cfg (xs @ [x]) (ms @ [False]) (dg_spill cfg x reason st)"
proof -
  obtain bs where "pump_inv cfg (ll_frame cfg) (spilled ms xs) bs (d_fallback st) (d_world st)"
    "\<not> cfg_FallbackOpener cfg \<longrightarrow> d_fallback st = None"
    using assms by (auto simp: dg_inv_def)
  from fallbackOrDrop_inv [OF this, of x reason] assms show ?thesis
    by (auto simp: dg_inv_def dg_spill_def split_beta as_datagrams_snoc spilled_snoc fallbackOrDrop_none)
qed

lemma dg_inv_cong:
  "d_seq st' = d_seq st \<Longrightarrow> d_fallback st' = d_fallback st \<Longrightarrow> pw_streams (d_world st') = pw_streams (d_world st) \<Longrightarrow>
     d_sent st' = d_sent st \<Longrightarrow> dg_inv cfg xs ms st' = dg_inv cfg xs ms st"
  unfolding dg_inv_def by (simp only: pump_inv_cong [of "d_world st'" "d_world st"])

lemma dg_step_inv:
  assumes "dg_inv cfg xs ms st"
  shows "\<exists>m. dg_inv cfg (xs @ [x]) (ms @ [m]) (dg_step cfg x st)"
proof -
  define st1 where "st1 = st\<lparr>d_world := emit EvAttempt (d_world st)\<rparr>"
  have inv: "dg_inv cfg xs ms st1" using assms by (simp add: st1_def dg_inv_def)
  show ?thesis
  proof (cases "EncodeDatagram [] (cfg_TrackID cfg) (d_seq st1) (au_Bytes (snd x))")
    case (Inl e)
    then show ?thesis using dg_spill_inv [OF inv, of x dropReasonDatagramTooLarge]
      by (auto simp: dg_step_def Let_def st1_def [symmetric])
  next
    case (Inr enc)
    obtain r st2 where r: "SendDatagram enc st1 = (r, st2)" by fastforce
    note st2 = SendDatagram_cases [OF r]
    have dec: "DecodeDatagram enc = Inr (cfg_TrackID cfg, d_seq st1, au_Bytes (snd x))"
      using datagram_decode_encode [OF Inr] by simp
    show ?thesis
    proof (cases r)
      case True
      then have "dg_inv cfg (xs @ [x]) (ms @ [True])
          (st2\<lparr>d_world := emit (EvBytes (length enc)) (d_world st2), d_seq := d_seq st2 + 1\<rparr>)"
        using inv st2 dec by (simp add: dg_inv_def as_datagrams_snoc spilled_snoc)
      then show ?thesis using True Inr r by (auto simp: dg_step_def Let_def st1_def [symmetric])
    next
      case False
      then have "dg_inv cfg xs ms st2" using inv st2 dg_inv_cong [of st2 st1] by simp
      from dg_spill_inv [OF this, of x dropReasonSendFailed] show ?thesis
        using False Inr r by (auto simp: dg_step_def Let_def st1_def [symmetric])
    qed
  qed
qed

lemma dg_fold_inv: "dg_inv cfg ys ms st \<Longrightarrow> \<exists>ms'. dg_inv cfg (ys @ xs) ms' (fold (dg_step cfg) xs st)"
proof (induction xs arbitrary: ys ms st)
  case (Cons x xs)
  obtain m where "dg_inv cfg (ys @ [x]) (ms @ [m]) (dg_step cfg x st)" using dg_step_inv [OF Cons.prems] by blast
  from Cons.IH [OF this] show ?case by simp
qed auto

section \<open>Accounting\<close>

lemma fallback_write_log:
  "attempts (pw_log (snd (fallback_write cfg i x reason w))) = attempts (pw_log w) \<and>
   outcomes (pw_log (snd (fallback_write cfg i x reason w))) = Suc (outcomes (pw_log w))"
  by (cases x) (auto simp: fallback_write_def writeFallback_def attempts_def outcomes_def
      split: prod.split option.split)

lemma fallbackOrDrop_log:
  "attempts (pw_log (snd (fallbackOrDrop cfg x reason fb w))) = attempts (pw_log w) \<and>
   outcomes (pw_log (snd (fallbackOrDrop cfg x reason fb w))) = Suc (outcomes (pw_log w))"
proof (cases "cfg_FallbackOpener cfg \<and> fb = None")
  case True
  obtain r w1 where r: "openGOPStream cfg w = (r, w1)" by fastforce
  show ?thesis using True r openGOPStream_log [OF r] fallback_write_log [of cfg _ x reason w1]
    by (cases r) (auto simp: fallbackOrDrop_def openFallback_eq attempts_def outcomes_def)
next
  case False
  then show ?thesis using fallback_write_log [of cfg _ x reason w]
    by (auto simp: fallbackOrDrop_def attempts_def outcomes_def)
qed

lemma dg_step_log:
  "attempts (pw_log (d_world (dg_step cfg x st))) = Suc (attempts (pw_log (d_world st))) \<and>
   outcomes (pw_log (d_world (dg_step cfg x st))) = Suc (outcomes (pw_log (d_world st)))"
proof -
  define st1 where "st1 = st\<lparr>d_world := emit EvAttempt (d_world st)\<rparr>"
  have e: "attempts (pw_log (d_world st1)) = Suc (attempts (pw_log (d_world st)))"
    "outcomes (pw_log (d_world st1)) = outcomes (pw_log (d_world st))"
    by (simp_all add: st1_def attempts_def outcomes_def)
  have spill: "attempts (pw_log (d_world (dg_spill cfg x reason s))) = attempts (pw_log (d_world s))"
    "outcomes (pw_log (d_world (dg_spill cfg x reason s))) = Suc (outcomes (pw_log (d_world s)))" for reason s
    using fallbackOrDrop_log by (simp_all add: dg_spill_def split_beta)
  show ?thesis
  proof (cases "EncodeDatagram [] (cfg_TrackID cfg) (d_seq st1) (au_Bytes (snd x))")
    case (Inl a)
    then show ?thesis using e spill by (simp add: dg_step_def Let_def st1_def [symmetric])
  next
    case (Inr enc)
    obtain r st2 where r: "SendDatagram enc st1 = (r, st2)" by fastforce
    have "attempts (l @ [EvBytes n]) = attempts l" "outcomes (l @ [EvBytes n]) = Suc (outcomes l)" for l n
      by (simp_all add: attempts_def outcomes_def)
    then show ?thesis using e spill Inr r SendDatagram_cases [OF r]
      by (cases r) (simp_all add: dg_step_def Let_def st1_def [symmetric])
  qed
qed

lemma dg_fold_log:
  "attempts (pw_log (d_world (fold (dg_step cfg) xs st))) = length xs + attempts (pw_log (d_world st)) \<and>
   outcomes (pw_log (d_world (fold (dg_step cfg) xs st))) = length xs + outcomes (pw_log (d_world st))"
  by (induction xs arbitrary: st) (simp_all add: dg_step_log)

section \<open>Property\<close>

text \<open>C24. The datagram-first pump sends every AU on exactly one path. There is a choice \<open>ms\<close> of path per
  AU such that the receiver decodes, from the datagrams in order, the track id, the AU's index modulo
  \<open>2^16\<close> and its payload for exactly the AUs chosen for datagrams, while the fallback streams carry
  disjoint contiguous blocks of the others; every AU is attempted once and ends as written bytes or as a
  reported drop.\<close>

theorem runDatagramOrStream_paths:
  assumes "pw_streams w = []" "cfg_DatagramSender cfg"
  shows "(\<exists>ms bs. length ms = length xs \<and>
      map DecodeDatagram (d_sent (snd (runDatagramOrStream cfg xs e sends w))) =
        map (\<lambda>(i, x). Inr (cfg_TrackID cfg, of_nat i, au_Bytes (snd x))) (as_datagrams ms xs) \<and>
      subseq (concat bs) (spilled ms xs) \<and> (\<forall>b\<in>set bs. sublist b (spilled ms xs)) \<and>
      list_all2 (stream_carries cfg (ll_frame cfg)) bs
        (pw_streams (d_world (snd (runDatagramOrStream cfg xs e sends w))))) \<and>
    attempts (pw_log (d_world (snd (runDatagramOrStream cfg xs e sends w)))) = length xs + attempts (pw_log w) \<and>
    outcomes (pw_log (d_world (snd (runDatagramOrStream cfg xs e sends w)))) = length xs + outcomes (pw_log w)"
proof -
  define st0 where "st0 = \<lparr>d_seq = 0, d_fallback = None, d_sends = sends, d_sent = [], d_world = w\<rparr>"
  define st where "st = fold (dg_step cfg) xs st0"
  have run: "snd (runDatagramOrStream cfg xs e sends w) = st\<lparr>d_world := close_current (d_fallback st) (d_world st)\<rparr>"
    using assms(2) by (simp add: runDatagramOrStream_def st_def st0_def Let_def)
  have "dg_inv cfg [] [] st0" using assms(1)
    by (auto simp: dg_inv_def st0_def as_datagrams_def spilled_def pump_inv_def intro: exI [of _ "[]"] seg_nil)
  from dg_fold_inv [OF this, of xs] obtain ms where inv: "dg_inv cfg xs ms st" by (auto simp: st_def)
  then obtain bs where p: "pump_inv cfg (ll_frame cfg) (spilled ms xs) bs (d_fallback st) (d_world st)"
    by (auto simp: dg_inv_def)
  have log: "attempts (pw_log (d_world st)) = length xs + attempts (pw_log w) \<and>
    outcomes (pw_log (d_world st)) = length xs + outcomes (pw_log w)"
    using dg_fold_log [of cfg xs st0] by (simp add: st_def st0_def)
  have "length ms = length xs \<and>
    map DecodeDatagram (d_sent st) =
        map (\<lambda>(i, x). Inr (cfg_TrackID cfg, of_nat i, au_Bytes (snd x))) (as_datagrams ms xs)"
    using inv by (simp add: dg_inv_def)
  then show ?thesis using pump_inv_segments [OF p] pump_inv_close [OF p] log unfolding run
    by (intro conjI exI [of _ ms] exI [of _ bs]) simp_all
qed

theorem runDatagramOrStream_paths_witness:
  "(\<exists>ms bs. length ms = length [(1 :: 64 word, AccessUnit_zero), (2, AccessUnit_zero)] \<and>
      map DecodeDatagram (d_sent (snd (runDatagramOrStream (Config_zero\<lparr>cfg_DatagramSender := True\<rparr>)
      [(1, AccessUnit_zero), (2, AccessUnit_zero)] ChannelClosed [True, False]
      \<lparr>pw_streams = [], pw_opens = [], pw_log = []\<rparr>))) =
        map (\<lambda>(i, x). Inr (cfg_TrackID (Config_zero\<lparr>cfg_DatagramSender := True\<rparr>), of_nat i, au_Bytes (snd x)))
          (as_datagrams ms [(1 :: 64 word, AccessUnit_zero), (2, AccessUnit_zero)]) \<and>
      subseq (concat bs) (spilled ms [(1 :: 64 word, AccessUnit_zero), (2, AccessUnit_zero)]) \<and> (\<forall>b\<in>set bs. sublist b (spilled ms [(1 :: 64 word, AccessUnit_zero), (2, AccessUnit_zero)])) \<and>
      list_all2 (stream_carries (Config_zero\<lparr>cfg_DatagramSender := True\<rparr>)
          (ll_frame (Config_zero\<lparr>cfg_DatagramSender := True\<rparr>))) bs
        (pw_streams (d_world (snd (runDatagramOrStream (Config_zero\<lparr>cfg_DatagramSender := True\<rparr>)
      [(1, AccessUnit_zero), (2, AccessUnit_zero)] ChannelClosed [True, False]
      \<lparr>pw_streams = [], pw_opens = [], pw_log = []\<rparr>))))) \<and>
    attempts (pw_log (d_world (snd (runDatagramOrStream (Config_zero\<lparr>cfg_DatagramSender := True\<rparr>)
      [(1, AccessUnit_zero), (2, AccessUnit_zero)] ChannelClosed [True, False]
      \<lparr>pw_streams = [], pw_opens = [], pw_log = []\<rparr>)))) = length [(1 :: 64 word, AccessUnit_zero), (2, AccessUnit_zero)] + attempts (pw_log \<lparr>pw_streams = [], pw_opens = [], pw_log = []\<rparr>) \<and>
    outcomes (pw_log (d_world (snd (runDatagramOrStream (Config_zero\<lparr>cfg_DatagramSender := True\<rparr>)
      [(1, AccessUnit_zero), (2, AccessUnit_zero)] ChannelClosed [True, False]
      \<lparr>pw_streams = [], pw_opens = [], pw_log = []\<rparr>)))) = length [(1 :: 64 word, AccessUnit_zero), (2, AccessUnit_zero)] + outcomes (pw_log \<lparr>pw_streams = [], pw_opens = [], pw_log = []\<rparr>)"
  by (rule runDatagramOrStream_paths) simp_all

end
