(* ===== verification/Feed_Bidi.thy ===== *)
theory Feed_Bidi
  imports Feed_Datagram
begin

text \<open>
  One bidirectional stream per call (\<^verbatim>\<open>feed/bidi.go\<close>) and the dispatch of \<^verbatim>\<open>Pump.Run\<close>
  (\<^verbatim>\<open>feed/pump.go\<close>). A call's environment says whether the open succeeds, how the writes on its
  stream go, and what the peer answers before its FIN, reset or the call's timeout. The pump's loop and
  the per-call goroutines interleave, so the pump is a step relation.
\<close>

definition ErrBidiOpenerNil :: go_error where
  "ErrBidiOpenerNil = ErrOther ''feed: BidiOpener required for DeliveryBidiPerCall''"

definition ErrBidiResponseTooLarge :: go_error where
  "ErrBidiResponseTooLarge = ErrOther ''feed: bidi response exceeded MaxBidiResponse''"

definition DefaultMaxBidiResponse :: int where "DefaultMaxBidiResponse = int MaxFeedPayload"

record bidi_env =
  be_open :: bool
  be_script :: "nat option list"
  be_resp :: bytes
  be_err :: "go_error option"

record bidi_call =
  bc_out :: bytes
  bc_fin :: bool
  bc_cancel_write :: bool
  bc_cancel_read :: bool
  bc_log :: "pump_event list"

definition bidi_maxResp :: "Config \<Rightarrow> int" where
  "bidi_maxResp cfg = (if cfg_MaxBidiResponse cfg \<le> 0 then DefaultMaxBidiResponse else cfg_MaxBidiResponse cfg)"

text \<open>\<^verbatim>\<open>io.ReadAll(io.LimitReader(stream, maxResp+1))\<close>: \<^verbatim>\<open>maxResp+1\<close> is an \<^verbatim>\<open>int64\<close> addition, a limit
  that is not positive reads nothing, and reaching the limit ends the read without error.\<close>

definition int64_add :: "int \<Rightarrow> int \<Rightarrow> int" where
  "int64_add a b = sint (word_of_int (a + b) :: 64 word)"

definition read_limited :: "int \<Rightarrow> bidi_env \<Rightarrow> bytes \<times> go_error option" where
  "read_limited n env =
     (if int (length (be_resp env)) < n then (be_resp env, be_err env)
      else (take (nat n) (be_resp env), None))"

definition bidi_response :: "Config \<Rightarrow> AccessUnit \<Rightarrow> bidi_env \<Rightarrow> bidi_call \<Rightarrow> bidi_call" where
  "bidi_response cfg au env c =
     (if \<not> cfg_OnBidiResponse cfg then c\<lparr>bc_cancel_read := True\<rparr>
      else let maxResp = bidi_maxResp cfg;
               (resp, readErr) = read_limited (int64_add maxResp 1) env in
        if int (length resp) > maxResp
        then c\<lparr>bc_cancel_read := True,
               bc_log := bc_log c @ [EvResponse (au_Seq au) (take (nat maxResp) resp)
                  (case readErr of None \<Rightarrow> Some ErrBidiResponseTooLarge | Some e \<Rightarrow> Some e)]\<rparr>
        else c\<lparr>bc_log := bc_log c @ [EvResponse (au_Seq au) resp readErr]\<rparr>)"

definition bidi_drop :: "string \<Rightarrow> bytes \<Rightarrow> bidi_call" where
  "bidi_drop reason out =
     \<lparr>bc_out = out, bc_fin = False, bc_cancel_write = True, bc_cancel_read = True, bc_log = [EvDropped reason]\<rparr>"

definition bidi_write_frame :: "Config \<Rightarrow> 64 word \<Rightarrow> AccessUnit \<Rightarrow> writer \<Rightarrow> go_error option \<times> writer" where
  "bidi_write_frame cfg now au w =
     (let pw = pubWall cfg now au in
      if pw \<noteq> 0 then WriteFeedFrameWall w TypeKeyframe (au_PTSMicro au) (au_Seq au) (ll_flags au) pw (au_Bytes au)
      else WriteFeedFrame w TypeKeyframe (au_PTSMicro au) (au_Seq au) (ll_flags au) (au_Bytes au))"

definition bidi_request :: "Config \<Rightarrow> 64 word \<Rightarrow> AccessUnit \<Rightarrow> bidi_env \<Rightarrow> writer \<Rightarrow> bidi_call" where
  "bidi_request cfg now au env w =
     (case bidi_write_frame cfg now au w of
        (Some e, w1) \<Rightarrow> bidi_drop ''bidi_write_failed'' (w_out w1)
      | (None, w1) \<Rightarrow>
          bidi_response cfg au env
            \<lparr>bc_out = w_out w1, bc_fin = True, bc_cancel_write = False, bc_cancel_read = False,
             bc_log = [EvBytes (FeedHeaderLen + length (au_Bytes au))]\<rparr>)"

definition bidi_goroutine :: "Config \<Rightarrow> 64 word \<times> AccessUnit \<Rightarrow> bidi_env \<Rightarrow> bidi_call" where
  "bidi_goroutine cfg x env =
     (let (now, au) = x; w = \<lparr>w_out = [], w_script = be_script env\<rparr> in
      if \<not> be_open env
      then \<lparr>bc_out = [], bc_fin = False, bc_cancel_write = False, bc_cancel_read = False,
            bc_log = [EvDropped ''bidi_open_failed'']\<rparr>
      else if cfg_TrackName cfg \<noteq> [] then
        (case WriteStreamHeader w (cfg_TrackName cfg) of
           (Some e, w1) \<Rightarrow> bidi_drop ''bidi_header_failed'' (w_out w1)
         | (None, w1) \<Rightarrow> bidi_request cfg now au env w1)
      else bidi_request cfg now au env w)"

section \<open>The pump and its calls\<close>

text \<open>\<open>b_todo\<close> are the AUs still to come, with the environment of their call; \<open>b_flight\<close> the calls
  started and not finished; \<open>b_inflight\<close> the \<^verbatim>\<open>bidiInFlight\<close> counter; \<open>b_stop\<close> the result once the
  loop has left and only \<^verbatim>\<open>wg.Wait\<close> remains.\<close>

type_synonym bidi_au = "(64 word \<times> AccessUnit) \<times> bidi_env"

record bidi_state =
  b_todo :: "bidi_au list"
  b_flight :: "bidi_au list"
  b_finished :: "(bidi_au \<times> bidi_call) list"
  b_inflight :: "64 word"
  b_attempts :: nat
  b_stop :: "pump_end option"
  b_returned :: bool

definition bidi_init :: "bidi_au list \<Rightarrow> bidi_state" where
  "bidi_init xs = \<lparr>b_todo = xs, b_flight = [], b_finished = [], b_inflight = 0, b_attempts = 0,
     b_stop = None, b_returned = False\<rparr>"

datatype bidi_label = BSpawn | BFinish nat | BStop pump_end | BReturn

definition bidi_spawn :: "bidi_state \<Rightarrow> bidi_state" where
  "bidi_spawn s = s\<lparr>b_todo := tl (b_todo s), b_flight := b_flight s @ [hd (b_todo s)],
     b_inflight := b_inflight s + 1, b_attempts := Suc (b_attempts s)\<rparr>"

definition bidi_finish :: "Config \<Rightarrow> nat \<Rightarrow> bidi_state \<Rightarrow> bidi_state" where
  "bidi_finish cfg i s = s\<lparr>b_flight := take i (b_flight s) @ drop (Suc i) (b_flight s),
     b_finished := b_finished s @ [(b_flight s ! i, bidi_goroutine cfg (fst (b_flight s ! i)) (snd (b_flight s ! i)))],
     b_inflight := b_inflight s - 1\<rparr>"

inductive runBidiPerCall :: "Config \<Rightarrow> bidi_state \<Rightarrow> bidi_label \<Rightarrow> bidi_state \<Rightarrow> bool" for cfg where
  spawn: "b_stop s = None \<Longrightarrow> b_todo s \<noteq> [] \<Longrightarrow> runBidiPerCall cfg s BSpawn (bidi_spawn s)"
| finish: "i < length (b_flight s) \<Longrightarrow> runBidiPerCall cfg s (BFinish i) (bidi_finish cfg i s)"
| stop: "b_stop s = None \<Longrightarrow> e = ChannelClosed \<longrightarrow> b_todo s = [] \<Longrightarrow>
    runBidiPerCall cfg s (BStop e) (s\<lparr>b_stop := Some e\<rparr>)"
| ret: "b_stop s \<noteq> None \<Longrightarrow> b_flight s = [] \<Longrightarrow> \<not> b_returned s \<Longrightarrow>
    runBidiPerCall cfg s BReturn (s\<lparr>b_returned := True\<rparr>)"

inductive_cases runBidiPerCall_cases: "runBidiPerCall cfg s l s'"

text \<open>\<open>Pump.Run\<close>: which implementation runs for a delivery class.\<close>

datatype pump_kind = RunStreamGOP | RunStreamLowLatency | RunDatagramOrStream | RunBidiPerCall

definition Run_dispatch :: "Config \<Rightarrow> pump_kind" where
  "Run_dispatch cfg =
     (if cfg_Delivery cfg = DeliveryStreamLowLatency then RunStreamLowLatency
      else if cfg_Delivery cfg = DeliveryDatagramOrStream
      then (if cfg_DatagramSender cfg then RunDatagramOrStream else RunStreamGOP)
      else if cfg_Delivery cfg = DeliveryBidiPerCall
      then (if cfg_BidiOpener cfg then RunBidiPerCall else RunStreamGOP)
      else RunStreamGOP)"

section \<open>Lemmas\<close>

definition bidi_inv :: "Config \<Rightarrow> bidi_au list \<Rightarrow> bidi_state \<Rightarrow> bool" where
  "bidi_inv cfg xs s \<longleftrightarrow>
     b_inflight s = of_nat (length (b_flight s)) \<and>
     mset xs = mset (b_todo s) + mset (b_flight s) + mset (map fst (b_finished s)) \<and>
     b_attempts s = length (b_flight s) + length (b_finished s) \<and>
     (\<forall>(x, c) \<in> set (b_finished s). c = bidi_goroutine cfg (fst x) (snd x)) \<and>
     (b_returned s \<longrightarrow> b_flight s = [] \<and> b_stop s \<noteq> None) \<and>
     (b_stop s = Some ChannelClosed \<longrightarrow> b_todo s = [])"

lemma mset_remove_nth:
  "i < length ys \<Longrightarrow> mset ys = add_mset (ys ! i) (mset (take i ys @ drop (Suc i) ys))"
  by (metis add_mset_add_single id_take_nth_drop mset.simps(2) mset_append union_mset_add_mset_right)

lemma bidi_step_inv:
  assumes "bidi_inv cfg xs s" "runBidiPerCall cfg s l s'"
  shows "bidi_inv cfg xs s'"
  using assms(2)
proof (cases rule: runBidiPerCall.cases)
  case spawn
  then obtain y r where "b_todo s = y # r" by (cases "b_todo s") auto
  then show ?thesis using spawn assms(1) by (auto simp: bidi_inv_def bidi_spawn_def)
next
  case (finish i)
  define r where "r = take i (b_flight s) @ drop (Suc i) (b_flight s)"
  have "length (b_flight s) = Suc (length r)" using finish by (simp add: r_def)
  moreover note mset_remove_nth [OF finish(3), folded r_def]
  ultimately show ?thesis using finish assms(1)
    by (auto simp: bidi_inv_def bidi_finish_def r_def [symmetric] split_beta)
qed (use assms(1) in \<open>auto simp: bidi_inv_def\<close>)

interpretation bidi: transition_system "\<lambda>s. s = bidi_init xs" "runBidiPerCall cfg" "bidi_inv cfg xs" for cfg xs
proof (unfold_locales, goal_cases)
  case (1 s)
  then show ?case by (simp add: bidi_init_def bidi_inv_def)
next
  case (2 s l s')
  then show ?case by (rule bidi_step_inv)
qed

lemma sint_word_of_int_id: "0 \<le> k \<Longrightarrow> k < 2 ^ 63 \<Longrightarrow> sint (word_of_int k :: 64 word) = k"
  by (simp add: signed_of_int signed_take_bit_int_eq_self)

lemma int64_add_id: "0 \<le> a \<Longrightarrow> a < 2 ^ 63 - 1 \<Longrightarrow> int64_add a 1 = a + 1"
  unfolding int64_add_def by (rule sint_word_of_int_id) simp_all

lemma bidi_response_sel [simp]:
  "bc_out (bidi_response cfg au env c) = bc_out c" "bc_fin (bidi_response cfg au env c) = bc_fin c"
  by (simp_all add: bidi_response_def Let_def split_beta)

lemma bidi_maxResp_pos: "0 < bidi_maxResp cfg"
  by (simp add: bidi_maxResp_def DefaultMaxBidiResponse_def MaxFeedPayload_def)

lemma bidi_write_frame_prefix:
  assumes "bidi_write_frame cfg now au w = (r, w')"
  shows "\<exists>k. w_out w' = w_out w @ take k (feed_frame_bytes (ll_frame cfg (now, au)))
    \<and> (r = None \<longrightarrow> take k (feed_frame_bytes (ll_frame cfg (now, au))) = feed_frame_bytes (ll_frame cfg (now, au)))"
proof (cases "length (au_Bytes au) \<le> MaxFeedPayload")
  case True
  have bytes: "feed_frame_bytes (ll_frame cfg (now, au)) = appendFeedFrame [] TypeKeyframe (au_PTSMicro au)
      (au_Seq au) (ll_flags au) (pubWall cfg now au) (au_Bytes au)"
    by (simp add: appendFeedFrame_bytes ll_frame_def)
  obtain h where "bidi_write_frame cfg now au w = write2 w h (au_Bytes au)"
    "feed_frame_bytes (ll_frame cfg (now, au)) = h @ au_Bytes au"
    using True by (cases "pubWall cfg now au = 0")
      (simp_all add: bytes bidi_write_frame_def WriteFeedFrameWall_eq WriteFeedFrame_eq appendFeedFrame_def len3_def Let_def)
  then show ?thesis using assms write2_prefix by metis
next
  case False
  then have "w' = w \<and> r \<noteq> None" using assms
    by (auto simp: bidi_write_frame_def Let_def WriteFeedFrameWall_def WriteFeedFrame_def split: if_splits)
  then show ?thesis by (intro exI [of _ 0]) auto
qed

text \<open>What the caller is told about the response of length at most \<open>maxResp\<close>, or more.\<close>

definition reported :: "int \<Rightarrow> bidi_env \<Rightarrow> bytes \<times> go_error option" where
  "reported n env =
     (if int (length (be_resp env)) \<le> n then (be_resp env, be_err env)
      else (take (nat n) (be_resp env), Some ErrBidiResponseTooLarge))"

lemma bidi_response_reported:
  assumes "bidi_maxResp cfg < 2 ^ 63 - 1" "cfg_OnBidiResponse cfg"
  shows "bc_log (bidi_response cfg au env c) =
    bc_log c @ [EvResponse (au_Seq au) (fst (reported (bidi_maxResp cfg) env)) (snd (reported (bidi_maxResp cfg) env))]"
proof -
  define n where "n = bidi_maxResp cfg"
  have n: "int64_add n 1 = n + 1" "0 < n" using int64_add_id assms(1) bidi_maxResp_pos by (simp_all add: n_def less_imp_le)
  show ?thesis
  proof (cases "int (length (be_resp env)) \<le> n")
    case True
    then show ?thesis using n assms(2)
      by (simp add: bidi_response_def n_def [symmetric] read_limited_def reported_def)
  next
    case False
    then have "int (length (take (nat (n + 1)) (be_resp env))) > n" using n(2) by simp
    moreover have "take (nat n) (take (nat (n + 1)) (be_resp env)) = take (nat n) (be_resp env)" using n(2) by simp
    ultimately show ?thesis using False n assms(2)
      by (simp add: bidi_response_def n_def [symmetric] read_limited_def reported_def)
  qed
qed

section \<open>Properties\<close>



text \<open>C26. One bidi call. The bytes on its stream are the track header and the request's feed frame, or a
  beginning of them; they are complete and the send side is finished when the written bytes are reported,
  and otherwise a drop is reported and nothing else. When a response is wanted and the limit is below the
  largest \<^verbatim>\<open>int64\<close>, the caller gets the whole response with the stream's own error, or, if it is longer
  than the limit, its first \<open>maxResp\<close> bytes with \<open>ErrBidiResponseTooLarge\<close>.\<close>

theorem bidi_goroutine_outcome:
  assumes "bidi_maxResp cfg < 2 ^ 63 - 1"
  shows "prefix (bc_out (bidi_goroutine cfg x env)) (full_stream cfg (ll_frame cfg) [x]) \<and>
    ((\<exists>reason. bc_log (bidi_goroutine cfg x env) = [EvDropped reason]) \<and> \<not> bc_fin (bidi_goroutine cfg x env) \<or>
     bc_out (bidi_goroutine cfg x env) = full_stream cfg (ll_frame cfg) [x] \<and> bc_fin (bidi_goroutine cfg x env) \<and>
     bc_log (bidi_goroutine cfg x env) = EvBytes (FeedHeaderLen + length (au_Bytes (snd x))) #
       (if cfg_OnBidiResponse cfg
        then [EvResponse (au_Seq (snd x)) (fst (reported (bidi_maxResp cfg) env)) (snd (reported (bidi_maxResp cfg) env))]
        else []))"
proof (cases "be_open env")
  case False
  then show ?thesis by (simp add: bidi_goroutine_def split_beta)
next
  case True
  define w where "w = \<lparr>w_out = [], w_script = be_script env\<rparr>"
  obtain r1 w1 where h: "(if cfg_TrackName cfg \<noteq> [] then WriteStreamHeader w (cfg_TrackName cfg) else (None, w)) = (r1, w1)"
    by fastforce
  then obtain k1 where k1: "w_out w1 = take k1 (track_header cfg)" "r1 = None \<longrightarrow> w_out w1 = track_header cfg"
    using WriteStreamHeader_prefix [of w "cfg_TrackName cfg" r1 w1]
    by (auto simp: track_header_def w_def split: if_splits)
  have call: "bidi_goroutine cfg x env = (case r1 of
      Some e \<Rightarrow> bidi_drop ''bidi_header_failed'' (w_out w1) | None \<Rightarrow> bidi_request cfg (fst x) (snd x) env w1)"
    using True h by (auto simp: bidi_goroutine_def split_beta w_def split: if_splits option.splits prod.splits)
  have full: "full_stream cfg (ll_frame cfg) [x] = track_header cfg @ feed_frame_bytes (ll_frame cfg x)"
    by (simp add: full_stream_def)
  show ?thesis
  proof (cases r1)
    case (Some e)
    then show ?thesis using call k1(1) by (simp add: bidi_drop_def full take_is_prefix prefix_def)
      (metis append_assoc append_take_drop_id)
  next
    case None
    obtain r2 w2 where w2: "bidi_write_frame cfg (fst x) (snd x) w1 = (r2, w2)" by fastforce
    obtain k2 where k2: "w_out w2 = track_header cfg @ take k2 (feed_frame_bytes (ll_frame cfg x))"
      "r2 = None \<longrightarrow> take k2 (feed_frame_bytes (ll_frame cfg x)) = feed_frame_bytes (ll_frame cfg x)"
      using bidi_write_frame_prefix [OF w2] k1(2) None by auto
    show ?thesis
    proof (cases r2)
      case (Some e)
      then show ?thesis using call None w2 k2(1) by (simp add: bidi_request_def bidi_drop_def full take_is_prefix)
    next
      case None': None
      then show ?thesis using call None w2 k2 bidi_response_reported [OF assms]
        by (cases "cfg_OnBidiResponse cfg") (simp_all add: bidi_request_def full, simp add: bidi_response_def)
    qed
  qed
qed

theorem bidi_goroutine_outcome_witness:
  "bidi_maxResp (Config_zero\<lparr>cfg_OnBidiResponse := True, cfg_MaxBidiResponse := 2\<rparr>) < 2 ^ 63 - 1 \<and>
   bc_log (bidi_goroutine (Config_zero\<lparr>cfg_OnBidiResponse := True, cfg_MaxBidiResponse := 2\<rparr>) (1, AccessUnit_zero)
     \<lparr>be_open = True, be_script = [], be_resp = [7, 8, 9], be_err = None\<rparr>) =
     [EvBytes FeedHeaderLen, EvResponse 0 [7, 8] (Some ErrBidiResponseTooLarge)]"
proof -
  let ?cfg = "Config_zero\<lparr>cfg_OnBidiResponse := True, cfg_MaxBidiResponse := 2\<rparr>"
  let ?env = "\<lparr>be_open = True, be_script = [], be_resp = [7, 8, 9], be_err = None\<rparr>"
  have m: "bidi_maxResp ?cfg = 2" by (simp add: bidi_maxResp_def)
  have "bc_fin (bidi_goroutine ?cfg (1, AccessUnit_zero) ?env)"
    by (simp add: bidi_goroutine_def Config_zero_def bidi_request_def bidi_write_frame_def pubWall_def
        WriteFeedFrame_def MaxFeedPayload_def AccessUnit_zero_def io_write_def)
  then show ?thesis using bidi_goroutine_outcome [of ?cfg "(1, AccessUnit_zero)" ?env]
    by (simp add: m reported_def AccessUnit_zero_def)
qed

end
