(* ===== verification/Wire_Hello.thy ===== *)
theory Wire_Hello
  imports Wire_Frame
begin

text \<open>
  The control messages of package \<^verbatim>\<open>wire\<close> (\<^verbatim>\<open>wire/hello.go\<close>): the message structs, the version
  negotiation and the two-format error payload. The JSON decoder of the standard library is an
  argument of the definitions that use it; nothing here depends on which payloads it accepts.
\<close>

section \<open>Messages\<close>

record Hello =
  h_Role :: string
  h_Slug :: string
  h_Version :: string
  h_MinVersion :: string
  h_MaxVersion :: string
  h_SessionID :: string
  h_Features :: "string list"
  h_LastSeenSeq :: "(string \<times> 32 word) list"

record SDP =
  sdp_Codec :: string
  sdp_Width :: int
  sdp_Height :: int
  sdp_FPS :: int
  sdp_ScreenW :: "64 word"
  sdp_ScreenH :: "64 word"
  sdp_SessionID :: string
  sdp_Features :: "string list"
  sdp_NegotiatedVersion :: string

record Announce =
  an_Name :: string
  an_Kind :: string
  an_Codec :: string

record Unannounce =
  un_Name :: string

record ResumeMsg =
  re_TrackName :: string
  re_FromSeq :: "32 word"

record Backpressure =
  bp_TrackName :: string
  bp_Level :: "8 word"
  bp_NeedsKeyframe :: bool

record KindStats =
  ks_Kind :: string
  ks_LastSeq :: "32 word"
  ks_RecvP50Ms :: "32 word"
  ks_RecvP99Ms :: "32 word"
  ks_Dropped :: "64 word"

record ErrorPayload =
  ep_Code :: string
  ep_Reason :: string

section \<open>Versions\<close>

definition CurrentVersion :: string where "CurrentVersion = ''1''"
definition MinSupportedVersion :: string where "MinSupportedVersion = ''1''"

text \<open>Go compares strings bytewise.\<close>

fun string_less :: "string \<Rightarrow> string \<Rightarrow> bool" where
  "string_less _ [] = False"
| "string_less [] (_ # _) = True"
| "string_less (a # as) (b # bs) =
     ((of_char a :: nat) < of_char b \<or> (a = b \<and> string_less as bs))"

definition cmpVersion :: "string \<Rightarrow> string \<Rightarrow> int" where
  "cmpVersion a b =
     (if length a \<noteq> length b then (if length a < length b then -1 else 1)
      else if string_less a b then -1
      else if string_less b a then 1
      else 0)"

definition NegotiateVersion :: "string \<Rightarrow> string \<Rightarrow> string \<Rightarrow> string \<Rightarrow> string option" where
  "NegotiateVersion clientMin clientMax serverMin serverMax =
     (let lo = (if cmpVersion serverMin clientMin > 0 then serverMin else clientMin);
          hi = (if cmpVersion serverMax clientMax < 0 then serverMax else clientMax) in
      if cmpVersion hi lo < 0 then None else Some hi)"

section \<open>Error payloads\<close>

definition UnmarshalError :: "(bytes \<Rightarrow> go_error + ErrorPayload) \<Rightarrow> bytes \<Rightarrow> ErrorPayload \<times> go_error option" where
  "UnmarshalError json b =
     (if b = [] then (\<lparr>ep_Code = [], ep_Reason = []\<rparr>, None)
      else if hd b \<noteq> 0x7B then (\<lparr>ep_Code = [], ep_Reason = string_of_bytes b\<rparr>, None)
      else case json b of
        Inl e \<Rightarrow> (\<lparr>ep_Code = [], ep_Reason = string_of_bytes b\<rparr>, Some e)
      | Inr ep \<Rightarrow> (ep, None))"

section \<open>Versions are totally ordered\<close>

lemma string_less_irrefl [simp]: "\<not> string_less a a"
  by (induction a) simp_all

lemma string_less_trans: "string_less a b \<Longrightarrow> string_less b c \<Longrightarrow> string_less a c"
proof (induction a b arbitrary: c rule: string_less.induct)
  case (2 b bs)
  then show ?case by (cases c) simp_all
next
  case (3 a as b bs)
  then show ?case by (cases c) auto
qed simp

lemma string_less_linear: "string_less a b \<or> a = b \<or> string_less b a"
proof (induction a b rule: string_less.induct)
  case (1 a)
  then show ?case by (cases a) simp_all
next
  case (3 a as b bs)
  have "(of_char a :: nat) = of_char b \<longleftrightarrow> a = b" by simp
  then show ?case using 3 by (auto simp: not_less_iff_gr_or_eq dest: nat_neq_iff [THEN iffD1])
qed simp

definition version_le :: "string \<Rightarrow> string \<Rightarrow> bool" where
  "version_le a b \<longleftrightarrow> cmpVersion a b \<le> 0"

lemma cmpVersion_0: "cmpVersion a b = 0 \<longleftrightarrow> a = b"
  using string_less_linear [of a b] by (auto simp: cmpVersion_def)

lemma cmpVersion_less: "cmpVersion a b < 0 \<longleftrightarrow> length a < length b \<or> length a = length b \<and> string_less a b"
  by (auto simp: cmpVersion_def)

lemma cmpVersion_greater: "cmpVersion a b > 0 \<longleftrightarrow> cmpVersion b a < 0"
  using string_less_linear [of a b] string_less_trans [of a b a] by (auto simp: cmpVersion_def)

lemma version_le_iff: "version_le a b \<longleftrightarrow> a = b \<or> cmpVersion a b < 0"
  using cmpVersion_0 [of a b] by (auto simp: version_le_def)

lemma version_le_trans: "version_le a b \<Longrightarrow> version_le b c \<Longrightarrow> version_le a c"
  using string_less_trans [of a b c] by (auto simp: version_le_iff cmpVersion_less)

lemma version_not_le: "\<not> version_le a b \<longleftrightarrow> cmpVersion b a < 0"
  using cmpVersion_greater [of a b] by (auto simp: version_le_def)

lemma version_le_refl [simp]: "version_le a a"
  by (simp add: version_le_iff)

lemma version_le_linear: "version_le a b \<or> version_le b a"
  using version_not_le [of a b] by (auto simp: version_le_iff)

lemma version_le_antisym: "version_le a b \<Longrightarrow> version_le b a \<Longrightarrow> a = b"
  using version_not_le [of a b] by (auto simp: version_le_iff)

text \<open>Version strings with their order, so that the library's facts on \<open>min\<close> and \<open>max\<close> apply.\<close>

interpretation version: linorder version_le "\<lambda>a b. cmpVersion a b < 0"
proof (unfold_locales, goal_cases)
  case (1 x y)
  then show ?case using version_not_le [of y x] by (auto simp: version_le_iff)
next
  case (2 x)
  then show ?case by (rule version_le_refl)
next
  case (3 x y z)
  then show ?case by (rule version_le_trans)
next
  case (4 x y)
  then show ?case by (rule version_le_antisym)
next
  case (5 x y)
  then show ?case by (rule version_le_linear)
qed

section \<open>Property\<close>


end
