(* ===== verification/Session_RateLimit.thy ===== *)
theory Session_RateLimit
  imports Prelude Complex_Main
begin

text \<open>
  The pair of token buckets that limits inbound traffic of a session (\<^verbatim>\<open>session/ratelimit.go\<close>). Times are
  nanoseconds; the \<^verbatim>\<open>float64\<close> token counts are exact rationals, so rounding is not modelled.
\<close>

record RateLimit =
  rl_MaxAUsPerSecond :: int
  rl_MaxBytesPerSecond :: int
  rl_BurstAUs :: int
  rl_BurstBytes :: int

record rateLimiter =
  auTokens :: rat
  auCap :: rat
  auRate :: rat
  bytesTokens :: rat
  bytesCap :: rat
  bytesRate :: rat
  rl_last :: int

definition newRateLimiter :: "RateLimit \<Rightarrow> int \<Rightarrow> rateLimiter" where
  "newRateLimiter cfg now =
     (let burstAUs = (if rl_BurstAUs cfg \<le> 0 then rl_MaxAUsPerSecond cfg else rl_BurstAUs cfg);
          burstBytes = (if rl_BurstBytes cfg \<le> 0 then rl_MaxBytesPerSecond cfg else rl_BurstBytes cfg) in
      \<lparr>auTokens = of_int burstAUs, auCap = of_int burstAUs, auRate = of_int (rl_MaxAUsPerSecond cfg),
       bytesTokens = of_int burstBytes, bytesCap = of_int burstBytes, bytesRate = of_int (rl_MaxBytesPerSecond cfg),
       rl_last = now\<rparr>)"

definition seconds :: "int \<Rightarrow> rat" where "seconds ns = of_int ns / 1000000000"

definition refill :: "rat \<Rightarrow> rat \<Rightarrow> rat \<Rightarrow> rat \<Rightarrow> rat" where
  "refill tokens cap rate elapsed =
     (let t = tokens + elapsed * rate in if t > cap then cap else t)"

definition allow :: "int \<Rightarrow> nat \<Rightarrow> rateLimiter \<Rightarrow> bool \<times> rateLimiter" where
  "allow now auBytes l =
     (let elapsed = seconds (now - rl_last l);
          l1 = l\<lparr>rl_last := now\<rparr>;
          l2 = (if auRate l1 > 0 then l1\<lparr>auTokens := refill (auTokens l1) (auCap l1) (auRate l1) elapsed\<rparr> else l1) in
      if auRate l2 > 0 \<and> auTokens l2 < 1 then (False, l2)
      else let l3 = (if bytesRate l2 > 0
                     then l2\<lparr>bytesTokens := refill (bytesTokens l2) (bytesCap l2) (bytesRate l2) elapsed\<rparr> else l2) in
        if bytesRate l3 > 0 \<and> bytesTokens l3 < of_nat auBytes then (False, l3)
        else let l4 = (if auRate l3 > 0 then l3\<lparr>auTokens := auTokens l3 - 1\<rparr> else l3) in
          (True, if bytesRate l4 > 0 then l4\<lparr>bytesTokens := bytesTokens l4 - of_nat auBytes\<rparr> else l4))"

definition noLimits :: "rateLimiter \<Rightarrow> bool" where
  "noLimits l \<longleftrightarrow> auRate l \<le> 0 \<and> bytesRate l \<le> 0"

text \<open>A sequence of requests (time, size) and the sizes that were let through.\<close>

fun allow_all :: "(int \<times> nat) list \<Rightarrow> rateLimiter \<Rightarrow> nat list \<times> rateLimiter" where
  "allow_all [] l = ([], l)"
| "allow_all ((now, n) # rs) l =
     (let (ok, l1) = allow now n l; (ns, l2) = allow_all rs l1 in
      (if ok then n # ns else ns, l2))"

section \<open>Lemmas\<close>

lemma allow_frame:
  "allow now n l = (ok, l') \<Longrightarrow>
     auCap l' = auCap l \<and> auRate l' = auRate l \<and> bytesCap l' = bytesCap l \<and> bytesRate l' = bytesRate l \<and> rl_last l' = now"
  by (auto simp: allow_def Let_def split: if_splits)

lemma refill_le: "0 \<le> elapsed * rate \<Longrightarrow> refill tokens cap rate elapsed \<le> tokens + elapsed * rate"
  by (simp add: refill_def Let_def)

text \<open>Spending is bounded by what was in the buckets and what flowed in.\<close>

lemma allow_spend:
  assumes "allow now n l = (ok, l')" "rl_last l \<le> now"
  shows "auRate l > 0 \<longrightarrow> auTokens l' + (if ok then 1 else 0) \<le> auTokens l + seconds (now - rl_last l) * auRate l"
    and "bytesRate l > 0 \<longrightarrow> bytesTokens l' + (if ok then of_nat n else 0) \<le> bytesTokens l + seconds (now - rl_last l) * bytesRate l"
proof -
  have e: "0 \<le> seconds (now - rl_last l)" using assms(2) by (simp add: seconds_def)
  have ra: "refill (auTokens l) (auCap l) (auRate l) (seconds (now - rl_last l)) \<le> auTokens l + seconds (now - rl_last l) * auRate l"
    if "auRate l > 0" using e that by (intro refill_le) simp
  have rb: "refill (bytesTokens l) (bytesCap l) (bytesRate l) (seconds (now - rl_last l)) \<le> bytesTokens l + seconds (now - rl_last l) * bytesRate l"
    if "bytesRate l > 0" using e that by (intro refill_le) simp
  show "auRate l > 0 \<longrightarrow> auTokens l' + (if ok then 1 else 0) \<le> auTokens l + seconds (now - rl_last l) * auRate l"
    using assms(1) ra by (auto simp: allow_def Let_def split: if_splits)
  show "bytesRate l > 0 \<longrightarrow> bytesTokens l' + (if ok then of_nat n else 0) \<le> bytesTokens l + seconds (now - rl_last l) * bytesRate l"
    using assms(1) rb e by (auto simp: allow_def Let_def split: if_splits)
qed

lemma allow_tokens:
  assumes "allow now n l = (ok, l')" "0 \<le> auTokens l" "0 \<le> bytesTokens l" "rl_last l \<le> now" "0 \<le> auCap l" "0 \<le> bytesCap l"
  shows "0 \<le> auTokens l' \<and> 0 \<le> bytesTokens l'"
proof -
  have "0 \<le> seconds (now - rl_last l)" using assms(4) by (simp add: seconds_def)
  then have "0 \<le> refill (auTokens l) (auCap l) (auRate l) (seconds (now - rl_last l))" if "auRate l > 0"
    using assms that by (simp add: refill_def Let_def)
  moreover have "0 \<le> refill (bytesTokens l) (bytesCap l) (bytesRate l) (seconds (now - rl_last l))" if "bytesRate l > 0"
    using assms that \<open>0 \<le> seconds (now - rl_last l)\<close> by (simp add: refill_def Let_def)
  ultimately show ?thesis using assms(1-3) by (auto simp: allow_def Let_def split: if_splits)
qed

lemma seconds_add: "seconds (b - a) + seconds (c - b) = seconds (c - a)"
  by (simp add: seconds_def add_divide_distrib [symmetric])

lemma allow_all_spend:
  assumes "sorted (rl_last l # map fst rs)" "allow_all rs l = (ns, l')"
    and "0 \<le> auTokens l" "0 \<le> bytesTokens l" "0 \<le> auCap l" "0 \<le> bytesCap l"
  shows "0 \<le> auTokens l' \<and> 0 \<le> bytesTokens l' \<and>
    (auRate l > 0 \<longrightarrow> auTokens l' + of_nat (length ns) \<le> auTokens l + seconds (rl_last l' - rl_last l) * auRate l) \<and>
    (bytesRate l > 0 \<longrightarrow> bytesTokens l' + of_nat (sum_list ns) \<le> bytesTokens l + seconds (rl_last l' - rl_last l) * bytesRate l)"
  using assms
proof (induction rs arbitrary: l ns)
  case Nil
  then show ?case by (simp add: seconds_def)
next
  case (Cons r rs)
  obtain now n where r: "r = (now, n)" by (cases r)
  obtain ok l1 where l1: "allow now n l = (ok, l1)" by fastforce
  obtain ns1 where ns1: "allow_all rs l1 = (ns1, l')" "ns = (if ok then n # ns1 else ns1)"
    using Cons.prems(2) r l1 by (auto split: prod.splits)
  have le: "rl_last l \<le> now" using Cons.prems(1) r by simp
  note fr = allow_frame [OF l1] and sp = allow_spend [OF l1 le]
  have "0 \<le> auTokens l1 \<and> 0 \<le> bytesTokens l1" using allow_tokens [OF l1] Cons.prems le by blast
  moreover have "sorted (rl_last l1 # map fst rs)" using Cons.prems(1) r fr by simp
  ultimately have IH: "0 \<le> auTokens l' \<and> 0 \<le> bytesTokens l' \<and>
    (auRate l1 > 0 \<longrightarrow> auTokens l' + of_nat (length ns1) \<le> auTokens l1 + seconds (rl_last l' - rl_last l1) * auRate l1) \<and>
    (bytesRate l1 > 0 \<longrightarrow> bytesTokens l' + of_nat (sum_list ns1) \<le> bytesTokens l1 + seconds (rl_last l' - rl_last l1) * bytesRate l1)"
    using Cons.IH [OF _ ns1(1)] Cons.prems fr by simp
  have s: "seconds (now - rl_last l) * x + seconds (rl_last l' - now) * x = seconds (rl_last l' - rl_last l) * x" for x
    using seconds_add [of now "rl_last l" "rl_last l'"] by (simp add: distrib_right [symmetric])
  show ?case using IH sp fr ns1(2) s [of "auRate l"] s [of "bytesRate l"] by auto
qed

section \<open>Property\<close>



text \<open>A refused AU costs the byte bucket the tokens of the elapsed time: \<open>last\<close> moves on, but the byte
  bucket is refilled only after the AU bucket has agreed.\<close>

lemma allow_refused_no_refill:
  "auRate l > 0 \<Longrightarrow> refill (auTokens l) (auCap l) (auRate l) (seconds (now - rl_last l)) < 1 \<Longrightarrow>
     allow now n l = (False, l\<lparr>rl_last := now,
       auTokens := refill (auTokens l) (auCap l) (auRate l) (seconds (now - rl_last l))\<rparr>)"
  by (simp add: allow_def Let_def)

end
