(* ===== verification/Session_Inbound.thy ===== *)
theory Session_Inbound
  imports Wire_Hello Track Session_RateLimit
begin

text \<open>
  Tracks that a subscriber publishes back into a session (\<^verbatim>\<open>session/session.go\<close>): announcing,
  unannouncing, and the goroutines that drain inbound streams into per-track queues. Track entries are
  shared by pointer, so they live in \<open>in_heap\<close> and the \<^verbatim>\<open>inboundTracks\<close> map holds indices: an
  unannounced track is out of the map while a drain goroutine may still hold it. The control reader, the
  drain goroutines and the application interleave between the critical sections of \<^verbatim>\<open>inboundMu\<close>, so the
  whole is a step relation. The authorisation hook \<^verbatim>\<open>OnAnnounce\<close> is an argument.
\<close>

section \<open>Inbound tracks\<close>

definition maxInboundTracks :: nat where "maxInboundTracks = 256"

record inboundTrack =
  it_name :: string
  it_kind :: string
  it_codec :: string
  it_ch :: "AccessUnit chan"
  it_announced :: bool
  it_authorized :: bool
  it_done :: bool

datatype drain_phase = DOpen | DGate string | DMake string | DLoop nat string | DEnd

record drain =
  dr_src :: bytes
  dr_phase :: drain_phase

record inbound =
  in_heap :: "inboundTrack list"
  in_map :: "(string \<times> nat) list"
  in_rl :: rateLimiter
  in_drains :: "drain list"
  in_errors :: "ErrorPayload list"
  in_dropped :: "string list"
  in_lastFeed :: int
  in_app :: nat
  in_ctx_done :: bool

definition new_inboundTrack :: "string \<Rightarrow> inboundTrack" where
  "new_inboundTrack name = \<lparr>it_name = name, it_kind = [], it_codec = [], it_ch = make_chan 64,
     it_announced = False, it_authorized = False, it_done = False\<rparr>"

definition add_inbound :: "string \<Rightarrow> inbound \<Rightarrow> nat \<times> inbound" where
  "add_inbound name s =
     (length (in_heap s), s\<lparr>in_heap := in_heap s @ [new_inboundTrack name],
        in_map := (name, length (in_heap s)) # in_map s\<rparr>)"

definition inboundTrackChan :: "string \<Rightarrow> inbound \<Rightarrow> nat \<times> inbound" where
  "inboundTrackChan name s =
     (case map_of (in_map s) name of
        Some i \<Rightarrow> (i, s)
      | None \<Rightarrow> (let (i, s') = add_inbound name s in (i, s'\<lparr>in_app := Suc (in_app s')\<rparr>)))"

definition inboundTrackChanWire :: "string \<Rightarrow> inbound \<Rightarrow> nat option \<times> inbound" where
  "inboundTrackChanWire name s =
     (case map_of (in_map s) name of
        Some i \<Rightarrow> (Some i, s)
      | None \<Rightarrow>
          if length (in_map s) \<ge> maxInboundTracks then (None, s)
          else let (i, s') = add_inbound name s in (Some i, s'))"

definition InboundTracks :: "inbound \<Rightarrow> string list" where
  "InboundTracks s = map fst (filter (\<lambda>(_, i). it_announced (in_heap s ! i)) (in_map s))"

definition upd_track :: "nat \<Rightarrow> (inboundTrack \<Rightarrow> inboundTrack) \<Rightarrow> inbound \<Rightarrow> inbound" where
  "upd_track i f s = s\<lparr>in_heap := (in_heap s)[i := f (in_heap s ! i)]\<rparr>"

text \<open>The first non-blocking outcome of \<open>InboundRecv\<close>: an AU, \<open>EOF\<close> after an unannounce, or nothing yet.\<close>

definition InboundRecv :: "string \<Rightarrow> inbound \<Rightarrow> (go_error + AccessUnit) option \<times> inbound" where
  "InboundRecv name s =
     (let (i, s1) = inboundTrackChan name s in
      case chan_recv (it_ch (in_heap s1 ! i)) of
        Some (au, c) \<Rightarrow> (Some (Inr au), upd_track i (\<lambda>t. t\<lparr>it_ch := c\<rparr>) s1)
      | None \<Rightarrow>
          if it_done (in_heap s1 ! i) then (Some (Inl EOF), s1)
          else if in_ctx_done s1 then (Some (Inl ErrContext), s1) else (None, s1))"

section \<open>Announcements\<close>

type_synonym on_announce = "(string \<Rightarrow> string \<Rightarrow> string option) option"

definition set_announced :: "Announce \<Rightarrow> bool \<Rightarrow> inboundTrack \<Rightarrow> inboundTrack" where
  "set_announced a auth t = t\<lparr>it_kind := an_Kind a, it_codec := an_Codec a, it_announced := True, it_authorized := auth\<rparr>"

definition announce_refused :: "Announce \<Rightarrow> string \<Rightarrow> inbound \<Rightarrow> inbound" where
  "announce_refused a reason s =
     (let s1 = s\<lparr>in_errors := in_errors s @ [\<lparr>ep_Code = ''track_unauthorized'', ep_Reason = reason\<rparr>]\<rparr> in
      case inboundTrackChanWire (an_Name a) s1 of
        (None, s2) \<Rightarrow> s2
      | (Some i, s2) \<Rightarrow> upd_track i (set_announced a False) s2)"

definition handleAnnounce :: "on_announce \<Rightarrow> Announce \<Rightarrow> inbound \<Rightarrow> inbound" where
  "handleAnnounce hook a s =
     (case (case hook of None \<Rightarrow> None | Some f \<Rightarrow> f (an_Name a) (an_Kind a)) of
        Some reason \<Rightarrow> announce_refused a reason s
      | None \<Rightarrow>
          (case inboundTrackChanWire (an_Name a) s of
             (None, s1) \<Rightarrow>
               s1\<lparr>in_errors := in_errors s1 @ [\<lparr>ep_Code = ''too_many_tracks'', ep_Reason = ''inbound track cap (256) reached''\<rparr>]\<rparr>
           | (Some i, s1) \<Rightarrow> upd_track i (set_announced a True) s1))"

text \<open>\<open>None\<close> is the panic of closing a closed channel.\<close>

definition handleUnannounce :: "Unannounce \<Rightarrow> inbound \<Rightarrow> inbound option" where
  "handleUnannounce u s =
     (case map_of (in_map s) (un_Name u) of
        None \<Rightarrow> Some s
      | Some i \<Rightarrow>
          if it_done (in_heap s ! i) then None
          else Some (upd_track i (\<lambda>t. t\<lparr>it_done := True\<rparr>)
                      (s\<lparr>in_map := filter (\<lambda>p. fst p \<noteq> un_Name u) (in_map s)\<rparr>)))"

section \<open>Draining a stream\<close>

text \<open>The stream header: a stream without one carries the track \<open>primary\<close>, its first byte put back.\<close>

definition drain_header :: "bytes \<Rightarrow> drain_phase \<times> bytes" where
  "drain_header src =
     (case PeekStreamHeader src of
        Inl e \<Rightarrow> (DEnd, [])
      | Inr ((name, first), rest) \<Rightarrow>
          if name = [] then (DGate ''primary'', first # rest) else (DGate name, rest))"

definition drain_gate :: "on_announce \<Rightarrow> string \<Rightarrow> inbound \<Rightarrow> bool" where
  "drain_gate hook name s =
     (case hook of
        None \<Rightarrow> True
      | Some f \<Rightarrow>
          (case map_of (in_map s) name of
             None \<Rightarrow> False
           | Some i \<Rightarrow> it_announced (in_heap s ! i) \<and> it_authorized (in_heap s ! i)))"

definition readInboundFrame :: "bytes \<Rightarrow> go_error + FeedFrame \<times> bytes" where
  "readInboundFrame src = bindE (read_full 1 src) (\<lambda>(b, rest). ReadFeedFrame (hd b # rest))"

definition inbound_au :: "FeedFrame \<Rightarrow> AccessUnit" where
  "inbound_au f = AccessUnit_zero\<lparr>au_Bytes := ff_Payload f, au_Keyframe := IsKeyframe f,
     au_PTSMicro := ff_PTSMicro f, au_Seq := ff_Seq f,
     au_Discontinuity := (ff_Flags f AND FlagDiscontinuity \<noteq> 0)\<rparr>"

definition inbound_allowed :: "int \<Rightarrow> AccessUnit \<Rightarrow> inbound \<Rightarrow> bool \<times> inbound" where
  "inbound_allowed now au s =
     (if noLimits (in_rl s) then (True, s)
      else let (ok, l) = allow now (length (au_Bytes au)) (in_rl s) in (ok, s\<lparr>in_rl := l\<rparr>))"

definition set_drain :: "nat \<Rightarrow> drain_phase \<Rightarrow> bytes \<Rightarrow> inbound \<Rightarrow> inbound" where
  "set_drain j ph src s = s\<lparr>in_drains := (in_drains s)[j := \<lparr>dr_src = src, dr_phase = ph\<rparr>]\<rparr>"

definition enqueue :: "nat \<Rightarrow> AccessUnit \<Rightarrow> inbound \<Rightarrow> inbound" where
  "enqueue i au s = upd_track i (\<lambda>t. t\<lparr>it_ch := (it_ch t)\<lparr>c_buf := c_buf (it_ch t) @ [au]\<rparr>\<rparr>) s"

datatype inbound_label =
    LAnnounce Announce
  | LUnannounce Unannounce
  | LRecv string
  | LAccept bytes
  | LHeader nat
  | LGate nat
  | LMake nat
  | LFrameEnd nat
  | LLimited nat int
  | LEnqueue nat int
  | LStop nat int
  | LDrop nat int
  | LCancel

text \<open>\<open>LEnqueue\<close>, \<open>LStop\<close> and \<open>LDrop\<close> are the arms of the \<^verbatim>\<open>select\<close> after a frame was read: Go picks any arm
  that is ready, and the default only when none is.\<close>

inductive inbound_step :: "on_announce \<Rightarrow> inbound \<Rightarrow> inbound_label \<Rightarrow> inbound \<Rightarrow> bool" for hook where
  announce: "inbound_step hook s (LAnnounce a) (handleAnnounce hook a s)"
| unannounce: "handleUnannounce u s = Some s' \<Longrightarrow> inbound_step hook s (LUnannounce u) s'"
| recv: "InboundRecv name s = (r, s') \<Longrightarrow> inbound_step hook s (LRecv name) s'"
| accept: "inbound_step hook s (LAccept src) (s\<lparr>in_drains := in_drains s @ [\<lparr>dr_src = src, dr_phase = DOpen\<rparr>]\<rparr>)"
| header: "j < length (in_drains s) \<Longrightarrow> dr_phase (in_drains s ! j) = DOpen \<Longrightarrow>
    drain_header (dr_src (in_drains s ! j)) = (ph, rest) \<Longrightarrow>
    inbound_step hook s (LHeader j) (set_drain j ph rest s)"
| gate: "j < length (in_drains s) \<Longrightarrow> dr_phase (in_drains s ! j) = DGate name \<Longrightarrow>
    inbound_step hook s (LGate j)
      (set_drain j (if drain_gate hook name s then DMake name else DEnd) (dr_src (in_drains s ! j)) s)"
| make: "j < length (in_drains s) \<Longrightarrow> dr_phase (in_drains s ! j) = DMake name \<Longrightarrow>
    inboundTrackChanWire name s = (r, s1) \<Longrightarrow>
    inbound_step hook s (LMake j)
      (set_drain j (case r of None \<Rightarrow> DEnd | Some i \<Rightarrow> DLoop i name) (dr_src (in_drains s ! j)) s1)"
| frame_end: "j < length (in_drains s) \<Longrightarrow> dr_phase (in_drains s ! j) = DLoop i name \<Longrightarrow>
    readInboundFrame (dr_src (in_drains s ! j)) = Inl e \<Longrightarrow>
    inbound_step hook s (LFrameEnd j) (set_drain j DEnd [] s)"
| limited: "j < length (in_drains s) \<Longrightarrow> dr_phase (in_drains s ! j) = DLoop i name \<Longrightarrow>
    readInboundFrame (dr_src (in_drains s ! j)) = Inr (f, rest) \<Longrightarrow>
    inbound_allowed now (inbound_au f) s = (False, s1) \<Longrightarrow>
    inbound_step hook s (LLimited j now) (set_drain j (DLoop i name) rest s1)"
| enqueue: "j < length (in_drains s) \<Longrightarrow> dr_phase (in_drains s ! j) = DLoop i name \<Longrightarrow>
    readInboundFrame (dr_src (in_drains s ! j)) = Inr (f, rest) \<Longrightarrow>
    inbound_allowed now (inbound_au f) s = (True, s1) \<Longrightarrow>
    length (c_buf (it_ch (in_heap s ! i))) < c_cap (it_ch (in_heap s ! i)) \<Longrightarrow>
    inbound_step hook s (LEnqueue j now)
      (set_drain j (DLoop i name) rest (enqueue i (inbound_au f) (s1\<lparr>in_lastFeed := now\<rparr>)))"
| stop: "j < length (in_drains s) \<Longrightarrow> dr_phase (in_drains s ! j) = DLoop i name \<Longrightarrow>
    readInboundFrame (dr_src (in_drains s ! j)) = Inr (f, rest) \<Longrightarrow>
    inbound_allowed now (inbound_au f) s = (True, s1) \<Longrightarrow>
    it_done (in_heap s ! i) \<or> in_ctx_done s \<Longrightarrow>
    inbound_step hook s (LStop j now) (set_drain j DEnd rest (s1\<lparr>in_lastFeed := now\<rparr>))"
| drop: "j < length (in_drains s) \<Longrightarrow> dr_phase (in_drains s ! j) = DLoop i name \<Longrightarrow>
    readInboundFrame (dr_src (in_drains s ! j)) = Inr (f, rest) \<Longrightarrow>
    inbound_allowed now (inbound_au f) s = (True, s1) \<Longrightarrow>
    \<not> it_done (in_heap s ! i) \<Longrightarrow> \<not> in_ctx_done s \<Longrightarrow>
    c_cap (it_ch (in_heap s ! i)) \<le> length (c_buf (it_ch (in_heap s ! i))) \<Longrightarrow>
    inbound_step hook s (LDrop j now)
      (set_drain j (DLoop i name) rest (s1\<lparr>in_lastFeed := now, in_dropped := in_dropped s1 @ [name]\<rparr>))"
| cancel: "inbound_step hook s LCancel (s\<lparr>in_ctx_done := True\<rparr>)"

definition inbound_init :: "rateLimiter \<Rightarrow> inbound \<Rightarrow> bool" where
  "inbound_init rl s \<longleftrightarrow> s = \<lparr>in_heap = [], in_map = [], in_rl = rl, in_drains = [], in_errors = [], in_dropped = [],
     in_lastFeed = 0, in_app = 0, in_ctx_done = False\<rparr>"

section \<open>Invariant\<close>

definition permitted :: "on_announce \<Rightarrow> string \<Rightarrow> bool" where
  "permitted hook name \<longleftrightarrow> (case hook of None \<Rightarrow> True | Some f \<Rightarrow> \<exists>k. f name k = None)"

definition track_ok :: "on_announce \<Rightarrow> inboundTrack \<Rightarrow> bool" where
  "track_ok hook t \<longleftrightarrow> chan_ok (it_ch t) \<and> c_cap (it_ch t) = 64 \<and> \<not> c_closed (it_ch t) \<and>
     (it_authorized t \<or> c_buf (it_ch t) \<noteq> [] \<longrightarrow> permitted hook (it_name t))"

definition entry_ok :: "inboundTrack list \<Rightarrow> string \<times> nat \<Rightarrow> bool" where
  "entry_ok heap e \<longleftrightarrow> snd e < length heap \<and> \<not> it_done (heap ! snd e) \<and> it_name (heap ! snd e) = fst e"

definition drain_ok :: "on_announce \<Rightarrow> inboundTrack list \<Rightarrow> drain \<Rightarrow> bool" where
  "drain_ok hook heap d \<longleftrightarrow>
     (case dr_phase d of
        DMake n \<Rightarrow> permitted hook n
      | DLoop i n \<Rightarrow> i < length heap \<and> it_name (heap ! i) = n \<and> permitted hook n
      | _ \<Rightarrow> True)"

definition inbound_inv :: "on_announce \<Rightarrow> inbound \<Rightarrow> bool" where
  "inbound_inv hook s \<longleftrightarrow>
     list_all (track_ok hook) (in_heap s) \<and> list_all (entry_ok (in_heap s)) (in_map s) \<and>
     distinct (map fst (in_map s)) \<and> list_all (drain_ok hook (in_heap s)) (in_drains s) \<and>
     length (in_map s) \<le> maxInboundTracks + in_app s"

lemma inbound_inv_cong:
  "in_heap s' = in_heap s \<Longrightarrow> in_map s' = in_map s \<Longrightarrow> in_drains s' = in_drains s \<Longrightarrow> in_app s' = in_app s \<Longrightarrow>
     inbound_inv hook s' = inbound_inv hook s"
  by (simp add: inbound_inv_def)

lemma drain_ok_mono:
  assumes "drain_ok hook heap d" "length heap \<le> length heap'"
    and "\<forall>i < length heap. it_name (heap' ! i) = it_name (heap ! i)"
  shows "drain_ok hook heap' d"
  using assms by (auto simp: drain_ok_def split: drain_phase.splits)

lemma new_track_sel [simp]: "it_name (new_inboundTrack name) = name" "\<not> it_done (new_inboundTrack name)"
  by (simp_all add: new_inboundTrack_def)

lemma new_track_ok: "track_ok hook (new_inboundTrack name)"
  by (simp add: track_ok_def new_inboundTrack_def chan_ok_def)

lemma add_inbound_inv:
  assumes "inbound_inv hook s" "map_of (in_map s) name = None" "add_inbound name s = (i, s')"
    and "length (in_map s) < maxInboundTracks + k + in_app s"
  shows "inbound_inv hook (s'\<lparr>in_app := k + in_app s\<rparr>) \<and> map_of (in_map s') name = Some i \<and>
    in_drains s' = in_drains s \<and> in_app s' = in_app s"
proof -
  have s': "s' = s\<lparr>in_heap := in_heap s @ [new_inboundTrack name], in_map := (name, length (in_heap s)) # in_map s\<rparr>"
    "i = length (in_heap s)" using assms(3) by (auto simp: add_inbound_def)
  have "list_all (entry_ok (in_heap s @ [new_inboundTrack name])) (in_map s)"
    using assms(1) by (auto simp: inbound_inv_def list_all_iff entry_ok_def nth_append)
  moreover have "list_all (drain_ok hook (in_heap s @ [new_inboundTrack name])) (in_drains s)"
    using assms(1) by (auto simp: inbound_inv_def list_all_iff nth_append intro: drain_ok_mono)
  moreover have "name \<notin> fst ` set (in_map s)" using assms(2) by (simp add: map_of_eq_None_iff)
  ultimately show ?thesis using assms(1,4) s'
    by (simp add: inbound_inv_def new_track_ok entry_ok_def)
qed

lemma upd_track_inv:
  assumes "inbound_inv hook s" "i < length (in_heap s)" "track_ok hook (f (in_heap s ! i))"
    and "it_name (f (in_heap s ! i)) = it_name (in_heap s ! i)"
    and "it_done (f (in_heap s ! i)) \<longrightarrow> it_done (in_heap s ! i) \<or> (\<forall>e\<in>set (in_map s). snd e \<noteq> i)"
  shows "inbound_inv hook (upd_track i f s)"
proof -
  define h where "h = (in_heap s)[i := f (in_heap s ! i)]"
  have nm: "it_name (h ! k) = it_name (in_heap s ! k)" if "k < length (in_heap s)" for k
    using that assms(2,4) by (cases "k = i") (simp_all add: h_def)
  have "list_all (track_ok hook) h"
    using assms(1,3) by (auto simp: h_def inbound_inv_def list_all_iff dest!: set_update_subset_insert [THEN subsetD])
  moreover have "list_all (entry_ok h) (in_map s)" unfolding list_all_iff
  proof
    fix e assume e: "e \<in> set (in_map s)"
    then have ok: "entry_ok (in_heap s) e" using assms(1) by (simp add: inbound_inv_def list_all_iff)
    then show "entry_ok h e" using e nm [of "snd e"] assms(2,5)
      by (cases "snd e = i") (auto simp: entry_ok_def h_def)
  qed
  moreover have "list_all (drain_ok hook h) (in_drains s)"
    using assms(1) nm by (auto simp: inbound_inv_def list_all_iff h_def intro: drain_ok_mono)
  ultimately show ?thesis using assms(1) by (simp add: inbound_inv_def upd_track_def h_def [symmetric])
qed

lemma set_drain_inv:
  assumes "inbound_inv hook s" "drain_ok hook (in_heap s) \<lparr>dr_src = src, dr_phase = ph\<rparr>"
  shows "inbound_inv hook (set_drain j ph src s)"
  using assms by (auto simp: set_drain_def inbound_inv_def list_all_iff dest!: set_update_subset_insert [THEN subsetD])

lemma map_entry:
  "inbound_inv hook s \<Longrightarrow> map_of (in_map s) name = Some i \<Longrightarrow>
     i < length (in_heap s) \<and> \<not> it_done (in_heap s ! i) \<and> it_name (in_heap s ! i) = name"
  by (auto simp: inbound_inv_def list_all_iff entry_ok_def dest!: map_of_SomeD)

lemma wire_chan_inv:
  assumes "inbound_inv hook s" "inboundTrackChanWire name s = (r, s')"
  shows "inbound_inv hook s' \<and> in_drains s' = in_drains s \<and>
    (\<forall>i. r = Some i \<longrightarrow> i < length (in_heap s') \<and> it_name (in_heap s' ! i) = name)"
proof (cases "map_of (in_map s) name")
  case (Some i)
  then show ?thesis using assms map_entry by (auto simp: inboundTrackChanWire_def)
next
  case None
  show ?thesis
  proof (cases "length (in_map s) \<ge> maxInboundTracks")
    case True
    then show ?thesis using assms None by (auto simp: inboundTrackChanWire_def)
  next
    case False
    obtain i where a: "add_inbound name s = (i, s')" "r = Some i"
      using assms(2) None False by (auto simp: inboundTrackChanWire_def split: prod.splits)
    have "inbound_inv hook (s'\<lparr>in_app := 0 + in_app s\<rparr>) \<and> map_of (in_map s') name = Some i \<and> in_drains s' = in_drains s
        \<and> in_app s' = in_app s"
      using add_inbound_inv [OF assms(1) None a(1), of 0] False by simp
    then have inv: "inbound_inv hook s'" "map_of (in_map s') name = Some i" "in_drains s' = in_drains s"
      using inbound_inv_cong [of "s'\<lparr>in_app := in_app s\<rparr>" s'] by simp_all
    then show ?thesis using map_entry [OF inv(1,2)] a(2) by simp
  qed
qed

lemma app_chan_inv:
  assumes "inbound_inv hook s" "inboundTrackChan name s = (i, s')"
  shows "inbound_inv hook s' \<and> in_drains s' = in_drains s \<and> i < length (in_heap s')"
proof (cases "map_of (in_map s) name")
  case (Some j)
  then show ?thesis using assms map_entry by (auto simp: inboundTrackChan_def)
next
  case None
  obtain s1 where a: "add_inbound name s = (i, s1)" "s' = s1\<lparr>in_app := Suc (in_app s1)\<rparr>"
    using assms(2) None by (auto simp: inboundTrackChan_def split: prod.splits)
  have "length (in_map s) < maxInboundTracks + 1 + in_app s" using assms(1) by (simp add: inbound_inv_def)
  from add_inbound_inv [OF assms(1) None a(1) this] a(2)
  have "inbound_inv hook s'" "in_drains s' = in_drains s" "map_of (in_map s') name = Some i" by simp_all
  then show ?thesis using map_entry by blast
qed

section \<open>Every step keeps the invariant\<close>

lemma set_announced_ok:
  "track_ok hook t \<Longrightarrow> (auth \<longrightarrow> permitted hook (it_name t)) \<Longrightarrow> track_ok hook (set_announced a auth t)"
  by (auto simp: track_ok_def set_announced_def)

lemma track_at: "inbound_inv hook s \<Longrightarrow> i < length (in_heap s) \<Longrightarrow> track_ok hook (in_heap s ! i)"
  by (simp add: inbound_inv_def list_all_length)

lemma announce_wire_inv:
  assumes "inbound_inv hook s" "inboundTrackChanWire (an_Name a) s = (Some i, s')" "auth \<longrightarrow> permitted hook (an_Name a)"
  shows "inbound_inv hook (upd_track i (set_announced a auth) s')"
proof -
  have w: "inbound_inv hook s'" "i < length (in_heap s')" "it_name (in_heap s' ! i) = an_Name a"
    using wire_chan_inv [OF assms(1,2)] by simp_all
  have "track_ok hook (set_announced a auth (in_heap s' ! i))"
    using set_announced_ok [OF track_at [OF w(1,2)]] w(3) assms(3) by simp
  then show ?thesis using w by (intro upd_track_inv) (simp_all add: set_announced_def)
qed

lemma handleAnnounce_inv:
  assumes "inbound_inv hook s"
  shows "inbound_inv hook (handleAnnounce hook a s)"
proof -
  define v where "v = (case hook of None \<Rightarrow> None | Some f \<Rightarrow> f (an_Name a) (an_Kind a))"
  have perm: "v = None \<Longrightarrow> permitted hook (an_Name a)" by (auto simp: v_def permitted_def split: option.splits)
  show ?thesis
  proof (cases v)
    case (Some reason)
    define s1 where "s1 = s\<lparr>in_errors := in_errors s @ [\<lparr>ep_Code = ''track_unauthorized'', ep_Reason = reason\<rparr>]\<rparr>"
    have inv: "inbound_inv hook s1" using assms inbound_inv_cong [of s1 s] by (simp add: s1_def)
    obtain r s2 where r: "inboundTrackChanWire (an_Name a) s1 = (r, s2)" by fastforce
    show ?thesis using Some wire_chan_inv [OF inv r] announce_wire_inv [OF inv, of a _ s2 False] r
      by (cases r) (simp_all add: handleAnnounce_def v_def [symmetric] announce_refused_def s1_def [symmetric])
  next
    case None
    obtain r s2 where r: "inboundTrackChanWire (an_Name a) s = (r, s2)" by fastforce
    show ?thesis using None perm wire_chan_inv [OF assms r] announce_wire_inv [OF assms, of a _ s2 True] r
      by (cases r) (simp_all add: handleAnnounce_def v_def [symmetric] inbound_inv_cong
          [of "s2\<lparr>in_errors := in_errors s2 @ [\<lparr>ep_Code = ''too_many_tracks'', ep_Reason = ''inbound track cap (256) reached''\<rparr>]\<rparr>" s2])
  qed
qed

lemma handleUnannounce_inv:
  assumes "inbound_inv hook s"
  shows "\<exists>s'. handleUnannounce u s = Some s' \<and> inbound_inv hook s'"
proof (cases "map_of (in_map s) (un_Name u)")
  case None
  then show ?thesis using assms by (simp add: handleUnannounce_def)
next
  case (Some i)
  note e = map_entry [OF assms Some]
  define s1 where "s1 = s\<lparr>in_map := filter (\<lambda>p. fst p \<noteq> un_Name u) (in_map s)\<rparr>"
  have inv: "inbound_inv hook s1" using assms
    by (auto simp: s1_def inbound_inv_def list_all_iff distinct_map_filter intro: le_trans [OF length_filter_le])
  have "snd p \<noteq> i" if "p \<in> set (in_map s1)" for p
  proof -
    have "entry_ok (in_heap s) p" "fst p \<noteq> un_Name u" using that assms by (auto simp: s1_def inbound_inv_def list_all_iff)
    then show ?thesis using e by (auto simp: entry_ok_def)
  qed
  moreover have "track_ok hook ((in_heap s1 ! i)\<lparr>it_done := True\<rparr>)"
    using track_at [OF assms, of i] e by (auto simp: s1_def track_ok_def)
  ultimately have "inbound_inv hook (upd_track i (\<lambda>t. t\<lparr>it_done := True\<rparr>) s1)"
    using e by (intro upd_track_inv [OF inv]) (auto simp: s1_def)
  then show ?thesis using Some e by (simp add: handleUnannounce_def s1_def)
qed

lemma InboundRecv_inv:
  assumes "inbound_inv hook s" "InboundRecv name s = (r, s')"
  shows "inbound_inv hook s'"
proof -
  obtain i s1 where i: "inboundTrackChan name s = (i, s1)" by fastforce
  have inv: "inbound_inv hook s1" "i < length (in_heap s1)" using app_chan_inv [OF assms(1) i] by simp_all
  show ?thesis
  proof (cases "chan_recv (it_ch (in_heap s1 ! i))")
    case None
    then show ?thesis using assms(2) i inv(1) by (auto simp: InboundRecv_def split: if_splits)
  next
    case (Some p)
    then obtain au c where p: "chan_recv (it_ch (in_heap s1 ! i)) = Some (au, c)" by (cases p) simp
    have "track_ok hook ((in_heap s1 ! i)\<lparr>it_ch := c\<rparr>)"
      using track_at [OF inv] p by (auto simp: track_ok_def chan_recv_def chan_ok_def split: list.splits)
    then have "inbound_inv hook (upd_track i (\<lambda>t. t\<lparr>it_ch := c\<rparr>) s1)"
      using inv by (intro upd_track_inv) simp_all
    then show ?thesis using assms(2) i p by (auto simp: InboundRecv_def)
  qed
qed

lemma inbound_allowed_frame:
  "inbound_allowed now au s = (ok, s1) \<Longrightarrow>
     in_heap s1 = in_heap s \<and> in_map s1 = in_map s \<and> in_drains s1 = in_drains s \<and> in_app s1 = in_app s"
  by (auto simp: inbound_allowed_def Let_def split: if_splits prod.splits)

lemma enqueue_inv:
  assumes "inbound_inv hook s" "i < length (in_heap s)" "permitted hook (it_name (in_heap s ! i))"
    and "length (c_buf (it_ch (in_heap s ! i))) < c_cap (it_ch (in_heap s ! i))"
  shows "inbound_inv hook (enqueue i au s)"
  unfolding enqueue_def using assms track_at [OF assms(1,2)]
  by (intro upd_track_inv) (auto simp: track_ok_def chan_ok_def)

lemma drain_at: "inbound_inv hook s \<Longrightarrow> j < length (in_drains s) \<Longrightarrow> drain_ok hook (in_heap s) (in_drains s ! j)"
  by (simp add: inbound_inv_def list_all_length)

lemma drain_gate_permitted: "inbound_inv hook s \<Longrightarrow> drain_gate hook name s \<Longrightarrow> permitted hook name"
proof (cases hook)
  case (Some f)
  assume inv: "inbound_inv hook s" and "drain_gate hook name s"
  then obtain i where i: "map_of (in_map s) name = Some i" "it_authorized (in_heap s ! i)"
    using Some by (auto simp: drain_gate_def split: option.splits)
  then show ?thesis using map_entry [OF inv i(1)] track_at [OF inv] by (auto simp: track_ok_def)
qed (simp add: permitted_def)

lemma drain_header_phase: "drain_header src = (ph, rest) \<Longrightarrow> ph = DEnd \<or> (\<exists>n. ph = DGate n)"
  by (auto simp: drain_header_def split: sum.splits if_splits)

lemma loop_inv:
  assumes "inbound_inv hook s" "j < length (in_drains s)" "dr_phase (in_drains s ! j) = DLoop i name"
    and "in_heap s1 = in_heap s" "in_map s1 = in_map s" "in_drains s1 = in_drains s" "in_app s1 = in_app s"
  shows "inbound_inv hook s1 \<and> i < length (in_heap s1) \<and> it_name (in_heap s1 ! i) = name \<and> permitted hook name"
  using assms drain_at [OF assms(1,2)] inbound_inv_cong [of s1 s hook] by (auto simp: drain_ok_def)

lemma inbound_step_inv:
  assumes "inbound_inv hook s" "inbound_step hook s l s'"
  shows "inbound_inv hook s'"
  using assms(2)
proof (cases rule: inbound_step.cases)
  case (announce a)
  then show ?thesis using handleAnnounce_inv [OF assms(1)] by simp
next
  case (unannounce u)
  then show ?thesis using handleUnannounce_inv [OF assms(1), of u] by simp
next
  case (recv name r)
  then show ?thesis using InboundRecv_inv [OF assms(1)] by simp
next
  case (accept src)
  then show ?thesis using assms(1) by (simp add: inbound_inv_def drain_ok_def)
next
  case (header j ph rest)
  then show ?thesis using drain_header_phase [OF header(5)]
    by (auto simp: drain_ok_def intro!: set_drain_inv [OF assms(1)])
next
  case (gate j name)
  then show ?thesis using drain_gate_permitted [OF assms(1)]
    by (auto simp: drain_ok_def intro!: set_drain_inv [OF assms(1)])
next
  case (make j name r s1)
  have "permitted hook name" using drain_at [OF assms(1) make(3)] make(4) by (simp add: drain_ok_def)
  then show ?thesis using make wire_chan_inv [OF assms(1) make(5)]
    by (auto simp: drain_ok_def intro!: set_drain_inv split: option.split)
next
  case (frame_end j i name e)
  then show ?thesis by (auto simp: drain_ok_def intro!: set_drain_inv [OF assms(1)])
next
  case (limited j i name f rest now s1)
  then show ?thesis using inbound_allowed_frame [OF limited(6)] loop_inv [OF assms(1) limited(3,4), of s1]
    by (auto simp: drain_ok_def intro!: set_drain_inv)
next
  case (enqueue j i name f rest now s1)
  let ?s = "s1\<lparr>in_lastFeed := now\<rparr>"
  have L: "inbound_inv hook ?s \<and> i < length (in_heap ?s) \<and> it_name (in_heap ?s ! i) = name \<and> permitted hook name"
    using inbound_allowed_frame [OF enqueue(6)] by (intro loop_inv [OF assms(1) enqueue(3,4)]) simp_all
  have "inbound_inv hook (Session_Inbound.enqueue i (inbound_au f) ?s)"
    using L enqueue(7) inbound_allowed_frame [OF enqueue(6)] by (intro enqueue_inv) simp_all
  then show ?thesis using L enqueue(2)
    by (auto simp: drain_ok_def enqueue_def upd_track_def nth_list_update intro!: set_drain_inv)
next
  case (stop j i name f rest now s1)
  then show ?thesis using inbound_allowed_frame [OF stop(6)] loop_inv [OF assms(1) stop(3,4), of "s1\<lparr>in_lastFeed := now\<rparr>"]
    by (auto simp: drain_ok_def intro!: set_drain_inv)
next
  case (drop j i name f rest now s1)
  then show ?thesis using inbound_allowed_frame [OF drop(6)]
      loop_inv [OF assms(1) drop(3,4), of "s1\<lparr>in_lastFeed := now, in_dropped := in_dropped s1 @ [name]\<rparr>"]
    by (auto simp: drain_ok_def intro!: set_drain_inv)
next
  case cancel
  then show ?thesis using assms(1) inbound_inv_cong [of "s\<lparr>in_ctx_done := True\<rparr>" s] by simp
qed

interpretation inbound: transition_system "inbound_init rl" "inbound_step hook" "inbound_inv hook" for rl hook
proof (unfold_locales, goal_cases)
  case (1 s)
  then show ?case by (simp add: inbound_init_def inbound_inv_def)
next
  case (2 s l s')
  then show ?case by (rule inbound_step_inv)
qed

lemma reach_trans2:
  "reach init step s \<Longrightarrow> step s l1 s1 \<Longrightarrow> step s1 l2 s2 \<Longrightarrow> reach init step s2"
  by (blast intro: reach_step)

text \<open>The gate and the lookup that follows it are two critical sections. An unannounce between them makes
  the stream materialise a fresh entry that was neither announced nor authorised, and its AUs are queued there.\<close>

definition race_state :: "rateLimiter \<Rightarrow> string \<Rightarrow> bytes \<Rightarrow> inbound" where
  "race_state rl n rest =
     \<lparr>in_heap = [(new_inboundTrack n)\<lparr>it_announced := True, it_authorized := True, it_done := True\<rparr>, new_inboundTrack n],
      in_map = [(n, 1)], in_rl = rl, in_drains = [\<lparr>dr_src = rest, dr_phase = DLoop 1 n\<rparr>], in_errors = [],
      in_dropped = [], in_lastFeed = 0, in_app = 0, in_ctx_done = False\<rparr>"

lemma race_reachable:
  assumes "drain_header src = (DGate n, rest)"
  shows "reach (inbound_init rl) (inbound_step (Some (\<lambda>_ _. None))) (race_state rl n rest)"
proof -
  let ?hook = "Some (\<lambda>_ _. None) :: on_announce"
  let ?R = "reach (inbound_init rl) (inbound_step ?hook)"
  define a where "a = \<lparr>an_Name = n, an_Kind = [], an_Codec = []\<rparr>"
  define s0 where "s0 = \<lparr>in_heap = [], in_map = [], in_rl = rl, in_drains = [], in_errors = [], in_dropped = [],
     in_lastFeed = 0, in_app = 0, in_ctx_done = False\<rparr>"
  define T where "T = (new_inboundTrack n)\<lparr>it_announced := True, it_authorized := True\<rparr>"
  have T: "set_announced a True (new_inboundTrack n) = T" by (simp add: set_announced_def T_def a_def new_inboundTrack_def)
  define s1 where "s1 = s0\<lparr>in_heap := [T], in_map := [(n, 0)]\<rparr>"
  have "handleAnnounce ?hook a s0 = s1"
    by (simp add: handleAnnounce_def inboundTrackChanWire_def add_inbound_def upd_track_def s0_def s1_def
        maxInboundTracks_def T) (simp add: a_def T [unfolded a_def])
  then have r1: "?R s1" using inbound_step.announce [of ?hook s0 a] reach_init [of "inbound_init rl" s0]
    by (metis inbound_init_def reach_step s0_def)
  define s2 where "s2 = s1\<lparr>in_drains := [\<lparr>dr_src = src, dr_phase = DOpen\<rparr>]\<rparr>"
  have "inbound_step ?hook s1 (LAccept src) s2" using inbound_step.accept [of ?hook s1 src] by (simp add: s2_def s1_def s0_def)
  moreover define s3 where "s3 = s1\<lparr>in_drains := [\<lparr>dr_src = rest, dr_phase = DGate n\<rparr>]\<rparr>"
  have "inbound_step ?hook s2 (LHeader 0) s3"
    using inbound_step.header [of 0 s2 "DGate n" rest ?hook] assms by (simp add: s2_def s3_def s1_def set_drain_def)
  ultimately have r3: "?R s3" using r1 reach_trans2 by metis
  define s4 where "s4 = s1\<lparr>in_drains := [\<lparr>dr_src = rest, dr_phase = DMake n\<rparr>]\<rparr>"
  have "inbound_step ?hook s3 (LGate 0) s4"
    using inbound_step.gate [of 0 s3 n ?hook]
    by (simp add: s3_def s4_def s1_def set_drain_def drain_gate_def T_def)
  moreover define s5 where "s5 = s4\<lparr>in_heap := [T\<lparr>it_done := True\<rparr>], in_map := []\<rparr>"
  have "handleUnannounce \<lparr>un_Name = n\<rparr> s4 = Some s5"
    by (simp add: handleUnannounce_def s4_def s5_def s1_def upd_track_def T_def)
  then have "inbound_step ?hook s4 (LUnannounce \<lparr>un_Name = n\<rparr>) s5" by (rule inbound_step.unannounce)
  ultimately have r5: "?R s5" using r3 reach_trans2 by metis
  have "inboundTrackChanWire n s5 = (Some 1, s5\<lparr>in_heap := [T\<lparr>it_done := True\<rparr>, new_inboundTrack n], in_map := [(n, 1)]\<rparr>)"
    by (simp add: inboundTrackChanWire_def add_inbound_def s5_def maxInboundTracks_def)
  from inbound_step.make [OF _ _ this, of 0 ?hook]
  have "inbound_step ?hook s5 (LMake 0) (race_state rl n rest)"
    by (simp add: s5_def s4_def s1_def s0_def set_drain_def race_state_def T_def)
  with r5 show ?thesis by (rule reach_step)
qed

lemma gate_race:
  assumes "drain_header src = (DGate n, rest)" "readInboundFrame rest = Inr (f, rest')" "noLimits rl"
  shows "\<exists>s. reach (inbound_init rl) (inbound_step (Some (\<lambda>_ _. None))) s \<and>
    (\<exists>i. map_of (in_map s) n = Some i \<and> c_buf (it_ch (in_heap s ! i)) = [inbound_au f] \<and>
       \<not> it_announced (in_heap s ! i) \<and> \<not> it_authorized (in_heap s ! i))"
proof -
  let ?hook = "Some (\<lambda>_ _. None) :: on_announce"
  define s where "s = race_state rl n rest"
  have "inbound_allowed 0 (inbound_au f) s = (True, s)" using assms(3) by (simp add: inbound_allowed_def s_def race_state_def)
  then have "inbound_step ?hook s (LEnqueue 0 0)
      (set_drain 0 (DLoop 1 n) rest' (enqueue 1 (inbound_au f) (s\<lparr>in_lastFeed := 0\<rparr>)))"
    using assms(2) by (intro inbound_step.enqueue) (simp_all add: s_def race_state_def new_inboundTrack_def)
  with race_reachable [OF assms(1), of rl, folded s_def]
  have "reach (inbound_init rl) (inbound_step ?hook)
      (set_drain 0 (DLoop 1 n) rest' (enqueue 1 (inbound_au f) (s\<lparr>in_lastFeed := 0\<rparr>)))" by (rule reach_step)
  then show ?thesis
    by (intro exI [of _ "set_drain 0 (DLoop 1 n) rest' (enqueue 1 (inbound_au f) (s\<lparr>in_lastFeed := 0\<rparr>))"]
        conjI exI [of _ 1])
       (simp_all add: s_def race_state_def set_drain_def enqueue_def upd_track_def new_inboundTrack_def)
qed

section \<open>Property\<close>



end
