(* ===== verification/Datachannel.thy ===== *)
theory Datachannel
  imports Wire_Frame
begin

text \<open>
  The message channel of a session (\<^verbatim>\<open>datachannel/datachannel.go\<close>): a bounded inbound queue that drops
  when full, and a send side that writes \<^verbatim>\<open>DATA\<close> control frames.
\<close>

record Channel =
  dc_in :: "bytes chan"
  dc_closed :: bool

definition NewChannel :: "int \<Rightarrow> Channel" where
  "NewChannel inboundBuffer =
     \<lparr>dc_in = make_chan (nat (if inboundBuffer \<le> 0 then 64 else inboundBuffer)), dc_closed = False\<rparr>"

text \<open>The send function that the session installs: one \<^verbatim>\<open>DATA\<close> frame on the control stream.\<close>

definition Channel_Send :: "bytes \<Rightarrow> Channel \<Rightarrow> writer \<Rightarrow> go_error option \<times> writer" where
  "Channel_Send msg c w = (if dc_closed c then (Some ErrClosedPipe, w) else WriteControlFrame w TypeData msg)"

text \<open>What \<open>Recv\<close> may return now: \<^verbatim>\<open>select\<close> picks any ready arm, so the result is a set of outcomes; the
  empty set means it blocks.\<close>

definition Channel_Recv :: "bool \<Rightarrow> Channel \<Rightarrow> ((go_error + bytes) \<times> Channel) list" where
  "Channel_Recv ctx_done c =
     (case chan_recv (dc_in c) of
        Some (m, q) \<Rightarrow> [(Inr m, c\<lparr>dc_in := q\<rparr>)]
      | None \<Rightarrow> if c_closed (dc_in c) then [(Inl EOF, c)] else [])
     @ (if dc_closed c then [(Inl EOF, c)] else [])
     @ (if ctx_done then [(Inl ErrContext, c)] else [])"

text \<open>\<open>None\<close> is the panic of a send on a closed channel.\<close>

definition Deliver :: "bytes \<Rightarrow> Channel \<Rightarrow> Channel option" where
  "Deliver msg c =
     (if dc_closed c then Some c
      else case chan_send msg (dc_in c) of
        Sent q \<Rightarrow> Some (c\<lparr>dc_in := q\<rparr>)
      | Full \<Rightarrow> Some c
      | SendPanic \<Rightarrow> None)"

definition Channel_Close :: "Channel \<Rightarrow> Channel" where
  "Channel_Close c = (if dc_closed c then c else c\<lparr>dc_closed := True, dc_in := (dc_in c)\<lparr>c_closed := True\<rparr>\<rparr>)"

section \<open>Invariant\<close>

definition channel_ok :: "Channel \<Rightarrow> bool" where
  "channel_ok c \<longleftrightarrow> c_closed (dc_in c) = dc_closed c \<and> chan_ok (dc_in c)"

lemma NewChannel_ok [simp]: "channel_ok (NewChannel n)"
  by (simp add: channel_ok_def NewChannel_def chan_ok_def)

lemma Deliver_ok: "channel_ok c \<Longrightarrow> \<exists>c'. Deliver msg c = Some c' \<and> channel_ok c'"
  by (auto simp: Deliver_def channel_ok_def chan_send_def chan_ok_def split: if_splits)

lemma Channel_Close_ok: "channel_ok c \<Longrightarrow> channel_ok (Channel_Close c)"
  by (simp add: Channel_Close_def channel_ok_def chan_ok_def)

lemma Channel_Recv_ok: "channel_ok c \<Longrightarrow> (r, c') \<in> set (Channel_Recv d c) \<Longrightarrow> channel_ok c'"
  by (auto simp: Channel_Recv_def channel_ok_def chan_recv_def chan_ok_def split: list.splits if_splits)

text \<open>Messages that were delivered come out in order, and a closed channel may still hand out what was
  queued before it reports \<open>EOF\<close>.\<close>

lemma Deliver_buf:
  "Deliver msg c = Some c' \<Longrightarrow>
     c_buf (dc_in c') = (if \<not> dc_closed c \<and> length (c_buf (dc_in c)) < c_cap (dc_in c)
                         then c_buf (dc_in c) @ [msg] else c_buf (dc_in c))"
  by (auto simp: Deliver_def chan_send_def split: if_splits)

lemma Channel_Recv_after_close:
  "c_buf (dc_in c) = m # q \<Longrightarrow>
     (Inr m, (Channel_Close c)\<lparr>dc_in := (dc_in (Channel_Close c))\<lparr>c_buf := q\<rparr>\<rparr>) \<in> set (Channel_Recv False (Channel_Close c))"
  by (simp add: Channel_Recv_def Channel_Close_def chan_recv_def split: if_splits)

end
