(* ===== verification/Session.thy ===== *)
theory Session
  imports Session_Inbound Datachannel Feed_Pump
begin

text \<open>
  The per-connection state machine (\<^verbatim>\<open>session/session.go\<close>): configuration defaults, attaching and
  detaching outbound tracks, the HELLO/SDP handshake, the control reader and the idle watchdog. Receivers
  are of any type; the callbacks that the server installs are the fields of \<open>session_hooks\<close>; the JSON
  functions of the standard library are arguments. Go maps are association lists in iteration order.
\<close>

section \<open>State\<close>

record SessionConfig =
  sc_ExpectSlug :: string
  sc_AuthValidator :: "(string \<Rightarrow> string + string) option"
  sc_SupportedFeatures :: "string list"
  sc_SDP :: SDP
  sc_AcceptTimeout :: int
  sc_ReadHelloTimeout :: int
  sc_IdleTimeout :: int
  sc_FeedConfig :: Config
  sc_DataInboundBuffer :: int
  sc_OnAnnounce :: "(string \<Rightarrow> string \<Rightarrow> string \<Rightarrow> string \<Rightarrow> string option) option"
  sc_OnKindStats :: bool

definition applyDefaults :: "SessionConfig \<Rightarrow> SessionConfig" where
  "applyDefaults c0 =
     (let c1 = (if sc_AcceptTimeout c0 = 0 then c0\<lparr>sc_AcceptTimeout := 5 * 1000000000\<rparr> else c0);
          c2 = (if sc_ReadHelloTimeout c1 = 0 then c1\<lparr>sc_ReadHelloTimeout := 3 * 1000000000\<rparr> else c1);
          c3 = (if sc_IdleTimeout c2 = 0 then c2\<lparr>sc_IdleTimeout := 60 * 1000000000\<rparr> else c2) in
      if sc_DataInboundBuffer c3 = 0 then c3\<lparr>sc_DataInboundBuffer := 64\<rparr> else c3)"

record 'r trackPump =
  tp_name :: string
  tp_recv :: 'r
  tp_cfg :: Config
  tp_stop :: bool

record 'r session_hooks =
  hk_AllocateID :: "string option"
  hk_Resume :: "(string \<Rightarrow> string \<Rightarrow> (string \<times> 32 word) list \<Rightarrow> (string \<times> 'r) list option) option"
  hk_Fresh :: "(string \<times> 'r) list option"
  hk_Priority :: "(string \<Rightarrow> 8 word) option"
  hk_TrackID :: "(string \<Rightarrow> 8 word) option"
  hk_Kind :: "(string \<Rightarrow> Kind) option"

record 'r Session =
  sn_SessionID :: string
  sn_NegotiatedFeatures :: "string list"
  sn_NegotiatedVersion :: string
  sn_Tenant :: string
  sn_HelloSessionID :: string
  sn_HelloLastSeenSeq :: "(string \<times> 32 word) list"
  sn_tracks :: "(string \<times> 'r trackPump) list"
  sn_spawned :: "string list"
  sn_runStarted :: bool
  sn_resumedLeading :: "string list"
  sn_ctl :: writer

definition NewSession :: "writer \<Rightarrow> 'r Session" where
  "NewSession ctl = \<lparr>sn_SessionID = [], sn_NegotiatedFeatures = [], sn_NegotiatedVersion = [], sn_Tenant = [],
     sn_HelloSessionID = [], sn_HelloLastSeenSeq = [], sn_tracks = [], sn_spawned = [], sn_runStarted = False,
     sn_resumedLeading = [], sn_ctl = ctl\<rparr>"

text \<open>\<open>ctlWriter.Write\<close>: one control frame under the writer's mutex.\<close>

definition ctlWriter_Write :: "byte \<Rightarrow> bytes \<Rightarrow> 'r Session \<Rightarrow> go_error option \<times> 'r Session" where
  "ctlWriter_Write typ payload s =
     (let (e, w) = WriteControlFrame (sn_ctl s) typ payload in (e, s\<lparr>sn_ctl := w\<rparr>))"

definition bestEffortError :: "string \<Rightarrow> 'r Session \<Rightarrow> 'r Session" where
  "bestEffortError msg s = snd (ctlWriter_Write TypeError (bytes_of_string msg) s)"

section \<open>Outbound tracks\<close>

definition featureKindStats :: string where "featureKindStats = ''kind-stats''"

definition hasNegotiatedFeature :: "string \<Rightarrow> 'r Session \<Rightarrow> bool" where
  "hasNegotiatedFeature feat s = (feat \<in> set (sn_NegotiatedFeatures s))"

definition attach_cfg :: "SessionConfig \<Rightarrow> string \<Rightarrow> Kind \<Rightarrow> 8 word \<Rightarrow> 8 word \<Rightarrow> 'r Session \<Rightarrow> Config" where
  "attach_cfg cfg name kind priority trackID s =
     (let c0 = (sc_FeedConfig cfg)\<lparr>cfg_TrackName := name, cfg_Priority := priority, cfg_TrackID := trackID\<rparr>;
          c1 = (if kind \<noteq> [] then c0\<lparr>cfg_Delivery := DefaultDeliveryClass kind\<rparr> else c0);
          c2 = (if name \<in> set (sn_resumedLeading s) then c1\<lparr>cfg_AllowLeadingPFrames := True\<rparr> else c1) in
      if hasNegotiatedFeature featureKindStats s then c2\<lparr>cfg_StampPublishWall := True\<rparr> else c2)"

definition AttachTrackWithKind ::
    "SessionConfig \<Rightarrow> string \<Rightarrow> Kind \<Rightarrow> 'r \<Rightarrow> 8 word \<Rightarrow> 8 word \<Rightarrow> 'r Session \<Rightarrow> 'r Session" where
  "AttachTrackWithKind cfg name kind recv priority trackID s =
     (if map_of (sn_tracks s) name \<noteq> None then s
      else let s1 = s\<lparr>sn_tracks := (name, \<lparr>tp_name = name, tp_recv = recv,
                         tp_cfg = attach_cfg cfg name kind priority trackID s, tp_stop = False\<rparr>) # sn_tracks s\<rparr> in
        if sn_runStarted s then s1\<lparr>sn_spawned := sn_spawned s1 @ [name]\<rparr> else s1)"

definition AttachTrackWithTrackID ::
    "SessionConfig \<Rightarrow> 'r session_hooks \<Rightarrow> string \<Rightarrow> 'r \<Rightarrow> 8 word \<Rightarrow> 8 word \<Rightarrow> 'r Session \<Rightarrow> 'r Session" where
  "AttachTrackWithTrackID cfg hk name recv priority trackID s =
     AttachTrackWithKind cfg name (case hk_Kind hk of None \<Rightarrow> [] | Some f \<Rightarrow> f name) recv priority trackID s"

definition AttachTrack :: "SessionConfig \<Rightarrow> 'r session_hooks \<Rightarrow> string \<Rightarrow> 'r \<Rightarrow> 'r Session \<Rightarrow> 'r Session" where
  "AttachTrack cfg hk name recv s = AttachTrackWithTrackID cfg hk name recv 4 0 s"

definition Receivers :: "string \<Rightarrow> 'r Session \<Rightarrow> 'r list" where
  "Receivers name s = (case map_of (sn_tracks s) name of None \<Rightarrow> [] | Some tp \<Rightarrow> [tp_recv tp])"

definition DetachTrack :: "string \<Rightarrow> 'r Session \<Rightarrow> 'r Session" where
  "DetachTrack name s =
     (if map_of (sn_tracks s) name = None then s
      else s\<lparr>sn_tracks := filter (\<lambda>p. fst p \<noteq> name) (sn_tracks s)\<rparr>)"

definition AttachTrackWithPriority ::
    "SessionConfig \<Rightarrow> 'r session_hooks \<Rightarrow> string \<Rightarrow> 'r \<Rightarrow> 8 word \<Rightarrow> 'r Session \<Rightarrow> 'r Session" where
  "AttachTrackWithPriority cfg hk name recv priority s = AttachTrackWithTrackID cfg hk name recv priority 0 s"

text \<open>Marshalling failures and write failures of these notices are ignored by the code.\<close>

definition SendAnnounce :: "(Announce \<Rightarrow> go_error + bytes) \<Rightarrow> string \<Rightarrow> string \<Rightarrow> string \<Rightarrow> 'r Session \<Rightarrow> 'r Session" where
  "SendAnnounce js name kind codec s =
     (case js \<lparr>an_Name = name, an_Kind = kind, an_Codec = codec\<rparr> of
        Inl _ \<Rightarrow> s
      | Inr body \<Rightarrow> snd (ctlWriter_Write TypeAnnounce body s))"

definition SendUnannounce :: "(Unannounce \<Rightarrow> go_error + bytes) \<Rightarrow> string \<Rightarrow> 'r Session \<Rightarrow> 'r Session" where
  "SendUnannounce js name s =
     (case js \<lparr>un_Name = name\<rparr> of Inl _ \<Rightarrow> s | Inr body \<Rightarrow> snd (ctlWriter_Write TypeUnannounce body s))"

definition SendClose :: "string \<Rightarrow> 'r Session \<Rightarrow> 'r Session" where
  "SendClose reason s = snd (ctlWriter_Write TypeClose (bytes_of_string reason) s)"

text \<open>What a finished pump reports to the session: only an error after the session's own context ended.\<close>

definition runOnePump_report :: "go_error option \<Rightarrow> bool \<Rightarrow> go_error option" where
  "runOnePump_report err ctx_done = (if err = None \<or> \<not> ctx_done then None else err)"

text \<open>\<open>Run\<close> after the handshake: a pump for every attached track, then tracks attached later get theirs at once;
  the Announce burst for the tracks attached by then.\<close>

definition Run_start :: "'r Session \<Rightarrow> 'r Session" where
  "Run_start s = s\<lparr>sn_runStarted := True, sn_spawned := sn_spawned s @ map fst (sn_tracks s)\<rparr>"

definition Run_announces ::
    "(Announce \<Rightarrow> go_error + bytes) \<Rightarrow> 'r session_hooks \<Rightarrow> 'r Session \<Rightarrow> 'r Session" where
  "Run_announces js hk s =
     fold (\<lambda>n. SendAnnounce js n (case hk_Kind hk of None \<Rightarrow> [] | Some f \<Rightarrow> f n) []) (map fst (sn_tracks s)) s"

section \<open>Handshake\<close>

definition intersectFeatures :: "string list \<Rightarrow> string list \<Rightarrow> string list" where
  "intersectFeatures a b = (if a = [] \<or> b = [] then [] else filter (\<lambda>x. x \<in> set b) a)"

definition client_range :: "Hello \<Rightarrow> string \<times> string" where
  "client_range hello =
     (let cmin = (if h_MinVersion hello = [] then h_Version hello else h_MinVersion hello);
          cmax = (if h_MaxVersion hello = [] then h_Version hello else h_MaxVersion hello) in
      if cmin = [] \<and> cmax = [] then (CurrentVersion, CurrentVersion) else (cmin, cmax))"

definition authenticate :: "SessionConfig \<Rightarrow> string \<Rightarrow> string option" where
  "authenticate cfg slug =
     (case sc_AuthValidator cfg of
        Some v \<Rightarrow> (case v slug of Inl _ \<Rightarrow> None | Inr tenant \<Rightarrow> Some tenant)
      | None \<Rightarrow> if slug = sc_ExpectSlug cfg then Some [] else None)"

definition attach_resumed ::
    "SessionConfig \<Rightarrow> 'r session_hooks \<Rightarrow> Hello \<Rightarrow> (string \<times> 'r) list \<Rightarrow> 'r Session \<Rightarrow> 'r Session" where
  "attach_resumed cfg hk hello rs s =
     (let s1 = s\<lparr>sn_SessionID := h_SessionID hello\<rparr>;
          s2 = (if h_LastSeenSeq hello \<noteq> [] then s1\<lparr>sn_resumedLeading := map fst (h_LastSeenSeq hello)\<rparr> else s1) in
      fold (\<lambda>(name, r). AttachTrack cfg hk name r) rs s2)"

definition attach_fresh :: "SessionConfig \<Rightarrow> 'r session_hooks \<Rightarrow> 'r Session \<Rightarrow> 'r Session" where
  "attach_fresh cfg hk s =
     (let s1 = (case hk_AllocateID hk of None \<Rightarrow> s | Some sid \<Rightarrow> s\<lparr>sn_SessionID := sid\<rparr>) in
      case hk_Fresh hk of
        None \<Rightarrow> s1
      | Some rs \<Rightarrow>
          fold (\<lambda>(name, r). AttachTrackWithKind cfg name
                  (case hk_Kind hk of None \<Rightarrow> [] | Some f \<Rightarrow> f name) r
                  (case hk_Priority hk of None \<Rightarrow> 4 | Some f \<Rightarrow> f name)
                  (case hk_TrackID hk of None \<Rightarrow> 0 | Some f \<Rightarrow> f name)) rs s1)"

definition resume_or_fresh :: "SessionConfig \<Rightarrow> 'r session_hooks \<Rightarrow> Hello \<Rightarrow> 'r Session \<Rightarrow> 'r Session" where
  "resume_or_fresh cfg hk hello s =
     (case (if h_SessionID hello \<noteq> []
            then (case hk_Resume hk of None \<Rightarrow> None | Some f \<Rightarrow> f (sn_Tenant s) (h_SessionID hello) (h_LastSeenSeq hello))
            else None) of
        Some rs \<Rightarrow> attach_resumed cfg hk hello rs s
      | None \<Rightarrow> attach_fresh cfg hk s)"

definition send_sdp :: "(SDP \<Rightarrow> go_error + bytes) \<Rightarrow> SessionConfig \<Rightarrow> Hello \<Rightarrow> 'r Session \<Rightarrow> go_error option \<times> 'r Session" where
  "send_sdp js cfg hello s =
     (let feats = intersectFeatures (h_Features hello) (sc_SupportedFeatures cfg);
          sdp = (sc_SDP cfg)\<lparr>sdp_SessionID := sn_SessionID s, sdp_Features := feats,
                   sdp_NegotiatedVersion := sn_NegotiatedVersion s\<rparr>;
          s1 = s\<lparr>sn_NegotiatedFeatures := feats\<rparr> in
      case js sdp of
        Inl e \<Rightarrow> (Some e, s1)
      | Inr body \<Rightarrow> ctlWriter_Write TypeSDP body s1)"

definition handshake_hello ::
    "(SDP \<Rightarrow> go_error + bytes) \<Rightarrow> SessionConfig \<Rightarrow> 'r session_hooks \<Rightarrow> Hello \<Rightarrow> 'r Session \<Rightarrow> go_error option \<times> 'r Session" where
  "handshake_hello js cfg hk hello s =
     (let (cmin, cmax) = client_range hello in
      case NegotiateVersion cmin cmax MinSupportedVersion CurrentVersion of
        None \<Rightarrow> (Some ErrBadHello, bestEffortError ''version'' s)
      | Some v \<Rightarrow>
          (let s1 = s\<lparr>sn_NegotiatedVersion := v\<rparr> in
           case authenticate cfg (h_Slug hello) of
             None \<Rightarrow> (Some ErrAuth, bestEffortError ''auth'' s1)
           | Some tenant \<Rightarrow>
               let s2 = s1\<lparr>sn_Tenant := tenant\<rparr> in
               if h_Role hello \<noteq> [] \<and> h_Role hello \<noteq> ''recv''
               then (Some ErrBadHello, bestEffortError ''bad role'' s2)
               else send_sdp js cfg hello (resume_or_fresh cfg hk hello
                      (s2\<lparr>sn_HelloSessionID := h_SessionID hello, sn_HelloLastSeenSeq := h_LastSeenSeq hello\<rparr>))))"

definition handshake ::
    "(bytes \<Rightarrow> go_error + Hello) \<Rightarrow> (SDP \<Rightarrow> go_error + bytes) \<Rightarrow> SessionConfig \<Rightarrow> 'r session_hooks \<Rightarrow> bytes \<Rightarrow>
     'r Session \<Rightarrow> go_error option \<times> 'r Session" where
  "handshake jh js cfg hk src s =
     (case ReadControlFrame src of
        Inl e \<Rightarrow> (Some e, s)
      | Inr ((t, payload), rest) \<Rightarrow>
          if t \<noteq> TypeHello then (Some ErrBadHello, bestEffortError ''expected HELLO'' s)
          else case jh payload of
            Inl e \<Rightarrow> (Some ErrBadHello, bestEffortError ''bad hello json'' s)
          | Inr hello \<Rightarrow> handshake_hello js cfg hk hello s)"

section \<open>Control reader\<close>

definition minPingInterval :: int where "minPingInterval = 1000000000"

datatype ctl_event =
    CbKindStats KindStats
  | CbKeyframeRequest string
  | CbBackpressure string "8 word"
  | CbProtocolError byte
  | CbPong int bytes

record ctl_json =
  cj_announce :: "bytes \<Rightarrow> go_error + Announce"
  cj_unannounce :: "bytes \<Rightarrow> go_error + Unannounce"
  cj_kindstats :: "bytes \<Rightarrow> go_error + KindStats"
  cj_backpressure :: "bytes \<Rightarrow> go_error + Backpressure"
  cj_error :: "bytes \<Rightarrow> go_error + ErrorPayload"

record ctl_state =
  ct_ctl :: writer
  ct_lastPing :: int
  ct_dc :: Channel
  ct_in :: inbound
  ct_events :: "ctl_event list"
  ct_lastFeed :: int
  ct_lastAttempt :: int

definition ctl_emit :: "ctl_event \<Rightarrow> ctl_state \<Rightarrow> ctl_state" where
  "ctl_emit e s = s\<lparr>ct_events := ct_events s @ [e]\<rparr>"

definition peer_error :: "ErrorPayload \<Rightarrow> go_error" where
  "peer_error ep =
     (if ep_Code ep \<noteq> [] \<and> ep_Reason ep \<noteq> [] then ErrPeer (ep_Code ep @ '': '' @ ep_Reason ep)
      else if ep_Code ep \<noteq> [] then ErrPeer (ep_Code ep)
      else ErrPeer (ep_Reason ep))"

text \<open>One frame: \<open>Inl r\<close> ends the reader with result \<open>r\<close>, \<open>Inr\<close> continues.\<close>

definition ctl_ping :: "int \<Rightarrow> bytes \<Rightarrow> ctl_state \<Rightarrow> (go_error option \<times> ctl_state) + ctl_state" where
  "ctl_ping now payload s =
     (if ct_lastPing s \<noteq> 0 \<and> now - ct_lastPing s < minPingInterval then Inr s
      else let s1 = s\<lparr>ct_lastPing := now\<rparr>; (e, w) = WriteControlFrame (ct_ctl s1) TypePong payload;
               s2 = ctl_emit (CbPong now payload) (s1\<lparr>ct_ctl := w\<rparr>) in
        (case e of None \<Rightarrow> Inr s2 | Some err \<Rightarrow> Inl (Some err, s2)))"

definition ctl_backpressure :: "Backpressure \<Rightarrow> ctl_state \<Rightarrow> ctl_state" where
  "ctl_backpressure bp s =
     ctl_emit (CbBackpressure (bp_TrackName bp) (bp_Level bp))
       (if bp_NeedsKeyframe bp then ctl_emit (CbKeyframeRequest (bp_TrackName bp)) s else s)"

text \<open>The outer \<open>None\<close> is a panic.\<close>

definition ctl_frame ::
    "ctl_json \<Rightarrow> on_announce \<Rightarrow> bool \<Rightarrow> int \<Rightarrow> byte \<Rightarrow> bytes \<Rightarrow> ctl_state \<Rightarrow> ((go_error option \<times> ctl_state) + ctl_state) option" where
  "ctl_frame j hook kindstats now t payload s =
     (if t = TypePing then Some (ctl_ping now payload s)
      else if t = TypeClose then Some (Inl (None, s))
      else if t = TypeError then Some (Inl (Some (peer_error (fst (UnmarshalError (cj_error j) payload))), s))
      else if t = TypeData then
        (case Deliver payload (ct_dc s) of None \<Rightarrow> None | Some c \<Rightarrow> Some (Inr (s\<lparr>ct_dc := c\<rparr>)))
      else if t = TypeAnnounce then
        (case cj_announce j payload of
           Inl e \<Rightarrow> Some (Inr (ctl_emit (CbProtocolError t) s))
         | Inr a \<Rightarrow> Some (Inr (s\<lparr>ct_in := handleAnnounce hook a (ct_in s)\<rparr>)))
      else if t = TypeUnannounce then
        (case cj_unannounce j payload of
           Inl e \<Rightarrow> Some (Inr (ctl_emit (CbProtocolError t) s))
         | Inr u \<Rightarrow> (case handleUnannounce u (ct_in s) of None \<Rightarrow> None | Some i \<Rightarrow> Some (Inr (s\<lparr>ct_in := i\<rparr>))))
      else if t = TypeKindStats then
        (if \<not> kindstats then Some (Inr s)
         else case cj_kindstats j payload of
           Inl e \<Rightarrow> Some (Inr (ctl_emit (CbProtocolError t) s))
         | Inr ks \<Rightarrow> Some (Inr (ctl_emit (CbKindStats ks) s)))
      else if t = TypeBackpressure then
        (case cj_backpressure j payload of
           Inl e \<Rightarrow> Some (Inr (ctl_emit (CbProtocolError t) s))
         | Inr bp \<Rightarrow> Some (Inr (ctl_backpressure bp s)))
      else Some (Inr s))"

text \<open>The reader over the bytes that arrived; \<open>nows\<close> are the clock readings of the successive frames, and
  \<open>CtlRunning\<close> says that as many frames were handled and the reader goes on.\<close>

datatype ctl_result = CtlRunning ctl_state | CtlReturned "go_error option" ctl_state | CtlPanic

fun controlReader ::
    "ctl_json \<Rightarrow> on_announce \<Rightarrow> bool \<Rightarrow> int list \<Rightarrow> bytes \<Rightarrow> ctl_state \<Rightarrow> ctl_result" where
  "controlReader j hook kindstats [] src s = CtlRunning s"
| "controlReader j hook kindstats (now # nows) src s =
     (case ReadControlFrame src of
        Inl e \<Rightarrow> CtlReturned (Some e) s
      | Inr ((t, payload), rest) \<Rightarrow>
          (case ctl_frame j hook kindstats now t payload s of
             None \<Rightarrow> CtlPanic
           | Some (Inl (r, s')) \<Rightarrow> CtlReturned r s'
           | Some (Inr s') \<Rightarrow> controlReader j hook kindstats nows rest s'))"

section \<open>Idle watchdog\<close>

definition watchdog_period :: "SessionConfig \<Rightarrow> int" where
  "watchdog_period cfg =
     (let p = sc_IdleTimeout cfg div 4;
          p1 = (if p \<le> 0 then 5 * 1000000000 else p) in
      if p1 > 5 * 1000000000 then 5 * 1000000000 else p1)"

text \<open>The ticks: the clock, the last progress and the last attempt at that moment.\<close>

fun idleWatchdog :: "SessionConfig \<Rightarrow> (int \<times> int \<times> int) list \<Rightarrow> go_error option" where
  "idleWatchdog cfg [] = None"
| "idleWatchdog cfg ((now, lastProgress, lastAttempt) # ticks) =
     (if lastAttempt > lastProgress \<and> now - lastProgress > sc_IdleTimeout cfg then Some ErrIdle
      else idleWatchdog cfg ticks)"

definition touchFeed :: "int \<Rightarrow> ctl_state \<Rightarrow> ctl_state" where
  "touchFeed now s = s\<lparr>ct_lastFeed := now\<rparr>"

definition touchAttempt :: "int \<Rightarrow> ctl_state \<Rightarrow> ctl_state" where
  "touchAttempt now s = s\<lparr>ct_lastAttempt := now\<rparr>"

section \<open>Lemmas on the handshake\<close>

lemma ctlWriter_frame:
  "ctlWriter_Write t p s = (e, s') \<Longrightarrow> s' = s\<lparr>sn_ctl := sn_ctl s'\<rparr>"
  by (auto simp: ctlWriter_Write_def split: prod.splits)

lemma bestEffortError_frame: "bestEffortError m s = s\<lparr>sn_ctl := sn_ctl (bestEffortError m s)\<rparr>"
  by (simp add: bestEffortError_def ctlWriter_Write_def split_beta)

lemma AttachTrackWithKind_frame [simp]:
  "sn_ctl (AttachTrackWithKind cfg name kind r p i s) = sn_ctl s"
  "sn_Tenant (AttachTrackWithKind cfg name kind r p i s) = sn_Tenant s"
  "sn_NegotiatedVersion (AttachTrackWithKind cfg name kind r p i s) = sn_NegotiatedVersion s"
  "sn_NegotiatedFeatures (AttachTrackWithKind cfg name kind r p i s) = sn_NegotiatedFeatures s"
  "sn_SessionID (AttachTrackWithKind cfg name kind r p i s) = sn_SessionID s"
  by (simp_all add: AttachTrackWithKind_def Let_def)

lemma fold_frame:
  assumes "\<And>x s. x \<in> set xs \<Longrightarrow> g (f x s) = g s"
  shows "g (fold f xs s) = g s"
  using assms by (induction xs arbitrary: s) simp_all

lemma resume_or_fresh_frame:
  "sn_ctl (resume_or_fresh cfg hk hello s) = sn_ctl s \<and> sn_Tenant (resume_or_fresh cfg hk hello s) = sn_Tenant s \<and>
   sn_NegotiatedVersion (resume_or_fresh cfg hk hello s) = sn_NegotiatedVersion s \<and>
   sn_NegotiatedFeatures (resume_or_fresh cfg hk hello s) = sn_NegotiatedFeatures s"
  by (auto simp: resume_or_fresh_def attach_resumed_def attach_fresh_def AttachTrack_def AttachTrackWithTrackID_def
      Let_def split_beta fold_frame [where g = sn_ctl] fold_frame [where g = sn_Tenant]
      fold_frame [where g = sn_NegotiatedVersion] fold_frame [where g = sn_NegotiatedFeatures] split: option.split)

lemma intersectFeatures_set: "set (intersectFeatures a b) = set a \<inter> set b"
  by (auto simp: intersectFeatures_def)

lemma WriteControlFrame_prefix:
  assumes "WriteControlFrame w t p = (r, w')"
  shows "\<exists>k. w_out w' = w_out w @ take k (control_frame_bytes (t, p)) \<and>
    (r = None \<longrightarrow> take k (control_frame_bytes (t, p)) = control_frame_bytes (t, p))"
proof (cases "length p \<le> MaxControlPayload")
  case True
  then show ?thesis using control.wr_prefix [of "(t, p)" w r w'] assms
    by (simp add: send_control_def control_frame_ok_def)
next
  case False
  then show ?thesis using assms by (intro exI [of _ 0]) (auto simp: WriteControlFrame_def)
qed

lemma WriteControlFrame_None:
  "WriteControlFrame w t p = (None, w') \<Longrightarrow> w_out w' = w_out w @ control_frame_bytes (t, p)"
  using WriteControlFrame_prefix [of w t p None w'] by auto

lemma bestEffortError_out:
  "\<exists>k. w_out (sn_ctl (bestEffortError m s)) = w_out (sn_ctl s) @ take k (control_frame_bytes (TypeError, bytes_of_string m))"
proof -
  obtain r w where w: "WriteControlFrame (sn_ctl s) TypeError (bytes_of_string m) = (r, w)" by fastforce
  then show ?thesis using WriteControlFrame_prefix [OF w] by (auto simp: bestEffortError_def ctlWriter_Write_def)
qed

lemma send_sdp_None:
  assumes "send_sdp js cfg hello s = (None, s')"
  shows "sn_NegotiatedFeatures s' = intersectFeatures (h_Features hello) (sc_SupportedFeatures cfg) \<and>
    sn_Tenant s' = sn_Tenant s \<and> sn_NegotiatedVersion s' = sn_NegotiatedVersion s \<and> sn_SessionID s' = sn_SessionID s \<and>
    (\<exists>body. js ((sc_SDP cfg)\<lparr>sdp_SessionID := sn_SessionID s', sdp_Features := sn_NegotiatedFeatures s',
          sdp_NegotiatedVersion := sn_NegotiatedVersion s'\<rparr>) = Inr body \<and>
       w_out (sn_ctl s') = w_out (sn_ctl s) @ control_frame_bytes (TypeSDP, body))"
  using assms
  by (auto simp: send_sdp_def Let_def ctlWriter_Write_def WriteControlFrame_None split: sum.splits prod.splits)

text \<open>What the configuration asks of a credential: the validator accepts it, or without one it is the expected slug.\<close>

definition credential_ok :: "SessionConfig \<Rightarrow> string \<Rightarrow> string \<Rightarrow> bool" where
  "credential_ok cfg slug tenant \<longleftrightarrow>
     (\<exists>v. sc_AuthValidator cfg = Some v \<and> v slug = Inr tenant) \<or>
     sc_AuthValidator cfg = None \<and> slug = sc_ExpectSlug cfg \<and> tenant = []"

lemma authenticate_iff: "authenticate cfg slug = Some tenant \<longleftrightarrow> credential_ok cfg slug tenant"
  by (auto simp: authenticate_def credential_ok_def split: option.splits sum.splits)

text \<open>A HELLO that the server must accept: decodable, in a common version, authenticated and of a known role.\<close>

definition valid_hello :: "(bytes \<Rightarrow> go_error + Hello) \<Rightarrow> SessionConfig \<Rightarrow> bytes \<Rightarrow> Hello \<Rightarrow> string \<Rightarrow> string \<Rightarrow> bool" where
  "valid_hello jh cfg src hello tenant v \<longleftrightarrow>
     (\<exists>payload rest. ReadControlFrame src = Inr ((TypeHello, payload), rest) \<and> jh payload = Inr hello) \<and>
     NegotiateVersion (fst (client_range hello)) (snd (client_range hello)) MinSupportedVersion CurrentVersion = Some v \<and>
     credential_ok cfg (h_Slug hello) tenant \<and> (h_Role hello = [] \<or> h_Role hello = ''recv'')"

lemma handshake_valid:
  assumes "valid_hello jh cfg src hello tenant v"
  shows "handshake jh js cfg hk src s = send_sdp js cfg hello (resume_or_fresh cfg hk hello
    (s\<lparr>sn_NegotiatedVersion := v, sn_Tenant := tenant, sn_HelloSessionID := h_SessionID hello,
       sn_HelloLastSeenSeq := h_LastSeenSeq hello\<rparr>))"
  using assms by (auto simp: valid_hello_def authenticate_iff [symmetric] handshake_def handshake_hello_def split_beta Let_def)

definition refused :: "'r Session \<Rightarrow> 'r Session \<Rightarrow> bool" where
  "refused s s' \<longleftrightarrow> sn_tracks s' = sn_tracks s \<and> sn_SessionID s' = sn_SessionID s \<and>
     sn_NegotiatedFeatures s' = sn_NegotiatedFeatures s \<and>
     (\<exists>k m. w_out (sn_ctl s') = w_out (sn_ctl s) @ take k (control_frame_bytes (TypeError, m)))"

lemma refused_error: "sn_tracks s1 = sn_tracks s \<Longrightarrow> sn_SessionID s1 = sn_SessionID s \<Longrightarrow>
    sn_NegotiatedFeatures s1 = sn_NegotiatedFeatures s \<Longrightarrow> sn_ctl s1 = sn_ctl s \<Longrightarrow> refused s (bestEffortError m s1)"
proof -
  assume a: "sn_tracks s1 = sn_tracks s" "sn_SessionID s1 = sn_SessionID s"
    "sn_NegotiatedFeatures s1 = sn_NegotiatedFeatures s" "sn_ctl s1 = sn_ctl s"
  obtain w where w: "bestEffortError m s1 = s1\<lparr>sn_ctl := w\<rparr>" using bestEffortError_frame by blast
  obtain k where "w_out w = w_out (sn_ctl s1) @ take k (control_frame_bytes (TypeError, bytes_of_string m))"
    using bestEffortError_out [of m s1] w by auto
  then show ?thesis using a w by (auto simp: refused_def)
qed

lemma handshake_invalid:
  assumes "\<not> (\<exists>hello tenant v. valid_hello jh cfg src hello tenant v)"
  shows "fst (handshake jh js cfg hk src s) \<noteq> None \<and> refused s (snd (handshake jh js cfg hk src s))"
proof (cases "ReadControlFrame src")
  case (Inl e)
  have "refused s s" by (auto simp: refused_def intro: exI [of _ 0])
  then show ?thesis using Inl by (simp add: handshake_def)
next
  case (Inr p)
  obtain t payload rest where p: "ReadControlFrame src = Inr ((t, payload), rest)" using Inr by (metis prod.exhaust)
  show ?thesis
  proof (cases "t = TypeHello")
    case False
    then show ?thesis using p refused_error [of s s] by (simp add: handshake_def)
  next
    case True
    show ?thesis
    proof (cases "jh payload")
      case (Inl e)
      then show ?thesis using p True refused_error [of s s] by (simp add: handshake_def)
    next
      case (Inr hello)
      have h: "handshake jh js cfg hk src s = handshake_hello js cfg hk hello s"
        using p True Inr by (simp add: handshake_def)
      have "\<not> (NegotiateVersion (fst (client_range hello)) (snd (client_range hello)) MinSupportedVersion CurrentVersion = Some v \<and>
        authenticate cfg (h_Slug hello) = Some tenant \<and> (h_Role hello = [] \<or> h_Role hello = ''recv''))" for v tenant
        using assms p True Inr unfolding valid_hello_def authenticate_iff by blast
      then show ?thesis unfolding h
        by (auto simp: handshake_hello_def split_beta Let_def refused_error split: option.splits)
    qed
  qed
qed

text \<open>The tracks attached during the handshake are attached before the negotiated features are stored, so
  none of them gets publish wall-clock stamps, whatever was negotiated; and a resumed session attaches
  every track with priority 4 and track id 0, whatever the server registered.\<close>

definition stamp_default :: "SessionConfig \<Rightarrow> 'r Session \<Rightarrow> bool" where
  "stamp_default cfg s \<longleftrightarrow> sn_NegotiatedFeatures s = [] \<and>
     (\<forall>p\<in>set (sn_tracks s). cfg_StampPublishWall (tp_cfg (snd p)) = cfg_StampPublishWall (sc_FeedConfig cfg))"

lemma attach_stamp_default: "stamp_default cfg s \<Longrightarrow> stamp_default cfg (AttachTrackWithKind cfg name kind r p i s)"
  by (auto simp: stamp_default_def AttachTrackWithKind_def attach_cfg_def hasNegotiatedFeature_def Let_def)

lemma fold_inv: "P s \<Longrightarrow> (\<And>x s. P s \<Longrightarrow> P (f x s)) \<Longrightarrow> P (fold f xs s)"
  by (induction xs arbitrary: s) simp_all

lemma attach_resumed_stamp: "stamp_default cfg s \<Longrightarrow> stamp_default cfg (attach_resumed cfg hk hello rs s)"
  unfolding attach_resumed_def Let_def AttachTrack_def AttachTrackWithTrackID_def
proof (rule fold_inv, goal_cases)
  case 1
  then show ?case by (simp add: stamp_default_def)
next
  case (2 x s)
  then show ?case by (simp add: split_beta attach_stamp_default)
qed

lemma attach_fresh_stamp:
  assumes "stamp_default cfg s"
  shows "stamp_default cfg (attach_fresh cfg hk s)"
proof -
  define s1 where "s1 = (case hk_AllocateID hk of None \<Rightarrow> s | Some sid \<Rightarrow> s\<lparr>sn_SessionID := sid\<rparr>)"
  have s1: "stamp_default cfg s1" using assms by (simp add: s1_def stamp_default_def split: option.split)
  show ?thesis
  proof (cases "hk_Fresh hk")
    case None
    then show ?thesis using s1 by (simp add: attach_fresh_def s1_def)
  next
    case (Some rs)
    have "attach_fresh cfg hk s = fold (\<lambda>(name, r). AttachTrackWithKind cfg name
                  (case hk_Kind hk of None \<Rightarrow> [] | Some f \<Rightarrow> f name) r
                  (case hk_Priority hk of None \<Rightarrow> 4 | Some f \<Rightarrow> f name)
                  (case hk_TrackID hk of None \<Rightarrow> 0 | Some f \<Rightarrow> f name)) rs s1"
      using Some by (simp add: attach_fresh_def s1_def)
    also have "stamp_default cfg \<dots>" using s1 by (rule fold_inv) (simp add: split_beta attach_stamp_default)
    finally show ?thesis .
  qed
qed

lemma resume_or_fresh_stamp_default:
  "stamp_default cfg s \<Longrightarrow> stamp_default cfg (resume_or_fresh cfg hk hello s)"
  by (simp add: resume_or_fresh_def attach_resumed_stamp attach_fresh_stamp split: option.split)

lemma handshake_no_stamp:
  assumes "valid_hello jh cfg src hello tenant v" "sn_tracks s = []" "sn_NegotiatedFeatures s = []"
    and "handshake jh js cfg hk src s = (None, s')" "(name, tp) \<in> set (sn_tracks s')"
  shows "cfg_StampPublishWall (tp_cfg tp) = cfg_StampPublishWall (sc_FeedConfig cfg)"
proof -
  define s1 where "s1 = resume_or_fresh cfg hk hello (s\<lparr>sn_NegotiatedVersion := v, sn_Tenant := tenant,
      sn_HelloSessionID := h_SessionID hello, sn_HelloLastSeenSeq := h_LastSeenSeq hello\<rparr>)"
  have "stamp_default cfg s1" unfolding s1_def
    by (rule resume_or_fresh_stamp_default) (simp add: stamp_default_def assms(2,3))
  moreover have "sn_tracks s' = sn_tracks s1"
    using assms(4) unfolding handshake_valid [OF assms(1)] s1_def [symmetric]
    by (auto simp: send_sdp_def Let_def ctlWriter_Write_def split: sum.splits prod.splits)
  ultimately show ?thesis using assms(5) by (auto simp: stamp_default_def)
qed

lemma resumed_priority:
  "map_of (sn_tracks s) name = None \<Longrightarrow>
     \<exists>tp. map_of (sn_tracks (AttachTrack cfg hk name r s)) name = Some tp \<and> tp_recv tp = r \<and>
       cfg_Priority (tp_cfg tp) = 4 \<and> cfg_TrackID (tp_cfg tp) = 0"
  by (simp add: AttachTrack_def AttachTrackWithTrackID_def AttachTrackWithKind_def attach_cfg_def Let_def)

text \<open>Every attached track has exactly one pump started for it, before or after \<open>Run_start\<close>.\<close>

definition pumps_ok :: "'r Session \<Rightarrow> bool" where
  "pumps_ok s \<longleftrightarrow> distinct (map fst (sn_tracks s)) \<and>
     (if sn_runStarted s then \<forall>n\<in>fst ` set (sn_tracks s). n \<in> set (sn_spawned s) else sn_spawned s = [])"

lemma pumps_ok_attach: "pumps_ok s \<Longrightarrow> pumps_ok (AttachTrackWithKind cfg name kind r p i s)"
  by (auto simp: pumps_ok_def AttachTrackWithKind_def Let_def map_of_eq_None_iff)

lemma pumps_ok_start: "pumps_ok s \<Longrightarrow> \<not> sn_runStarted s \<Longrightarrow> pumps_ok (Run_start s) \<and> distinct (sn_spawned (Run_start s))"
  by (auto simp: pumps_ok_def Run_start_def)

lemma pumps_ok_detach: "pumps_ok s \<Longrightarrow> pumps_ok (DetachTrack name s) \<and> Receivers name (DetachTrack name s) = []"
  by (auto simp: pumps_ok_def DetachTrack_def Receivers_def distinct_map_filter map_of_eq_None_iff
      split: option.split intro: rev_image_eqI)

section \<open>Lemmas on the control reader\<close>

fun pongs :: "ctl_event list \<Rightarrow> int list" where
  "pongs [] = []"
| "pongs (CbPong t _ # es) = t # pongs es"
| "pongs (_ # es) = pongs es"

fun spaced :: "int list \<Rightarrow> bool" where
  "spaced (a # b # ts) \<longleftrightarrow> a + minPingInterval \<le> b \<and> spaced (b # ts)"
| "spaced _ \<longleftrightarrow> True"

lemma pongs_append: "pongs (a @ b) = pongs a @ pongs b"
  by (induction a rule: pongs.induct) simp_all

lemma spaced_Cons: "spaced (t # ts) \<longleftrightarrow> spaced ts \<and> (ts \<noteq> [] \<longrightarrow> t + minPingInterval \<le> hd ts)"
  by (cases ts) auto

definition ctl_ok :: "on_announce \<Rightarrow> ctl_state \<Rightarrow> bool" where
  "ctl_ok hook s \<longleftrightarrow> channel_ok (ct_dc s) \<and> inbound_inv hook (ct_in s)"

definition ctl_grows :: "on_announce \<Rightarrow> int \<Rightarrow> ctl_state \<Rightarrow> ctl_state \<Rightarrow> bool" where
  "ctl_grows hook now s s' \<longleftrightarrow> ctl_ok hook s' \<and> ct_lastFeed s' = ct_lastFeed s \<and> ct_lastAttempt s' = ct_lastAttempt s \<and>
     (\<exists>es. ct_events s' = ct_events s @ es \<and>
        (pongs es = [] \<and> ct_lastPing s' = ct_lastPing s \<or>
         pongs es = [now] \<and> ct_lastPing s' = now \<and> (ct_lastPing s = 0 \<or> ct_lastPing s + minPingInterval \<le> now)))"

lemma ctl_grows_same:
  "ctl_ok hook s' \<Longrightarrow> ct_lastFeed s' = ct_lastFeed s \<Longrightarrow> ct_lastAttempt s' = ct_lastAttempt s \<Longrightarrow>
     ct_lastPing s' = ct_lastPing s \<Longrightarrow> ct_events s' = ct_events s @ es \<Longrightarrow> pongs es = [] \<Longrightarrow> ctl_grows hook now s s'"
  by (auto simp: ctl_grows_def)

lemma ctl_ping_grows:
  assumes "ctl_ok hook s"
  shows "case ctl_ping now payload s of Inl (r, s') \<Rightarrow> ctl_grows hook now s s' | Inr s' \<Rightarrow> ctl_grows hook now s s'"
proof (cases "ct_lastPing s \<noteq> 0 \<and> now - ct_lastPing s < minPingInterval")
  case True
  then show ?thesis using assms by (simp add: ctl_ping_def ctl_grows_def)
next
  case False
  obtain e w where w: "WriteControlFrame (ct_ctl s) TypePong payload = (e, w)" by fastforce
  have "ctl_grows hook now s (ctl_emit (CbPong now payload) (s\<lparr>ct_lastPing := now, ct_ctl := w\<rparr>))"
    using assms False by (auto simp: ctl_grows_def ctl_ok_def ctl_emit_def)
  then show ?thesis using False w by (cases e) (auto simp: ctl_ping_def)
qed

lemma ctl_frame_grows:
  assumes "ctl_ok hook s"
  shows "\<exists>r. ctl_frame j hook ks now t payload s = Some r \<and>
    (case r of Inl (_, s') \<Rightarrow> ctl_grows hook now s s' | Inr s' \<Rightarrow> ctl_grows hook now s s')"
proof -
  have ok: "channel_ok (ct_dc s)" "inbound_inv hook (ct_in s)" using assms by (simp_all add: ctl_ok_def)
  have same: "ctl_grows hook now s s" using assms by (intro ctl_grows_same [where es = "[]"]) simp_all
  have emit: "ctl_grows hook now s (ctl_emit e s)" if "pongs [e] = []" for e
    using assms that by (intro ctl_grows_same [where es = "[e]"]) (simp_all add: ctl_emit_def ctl_ok_def)
  have bp: "ctl_grows hook now s (ctl_backpressure b s)" for b
    using assms by (intro ctl_grows_same [where es = "(if bp_NeedsKeyframe b then [CbKeyframeRequest (bp_TrackName b)] else [])
        @ [CbBackpressure (bp_TrackName b) (bp_Level b)]"]) (simp_all add: ctl_backpressure_def ctl_emit_def ctl_ok_def)
  obtain c where c: "Deliver payload (ct_dc s) = Some c" "channel_ok c" using Deliver_ok [OF ok(1)] by blast
  have dc: "ctl_grows hook now s (s\<lparr>ct_dc := c\<rparr>)"
    using ok c by (intro ctl_grows_same [where es = "[]"]) (simp_all add: ctl_ok_def)
  have an: "ctl_grows hook now s (s\<lparr>ct_in := handleAnnounce hook a (ct_in s)\<rparr>)" for a
    using ok handleAnnounce_inv by (intro ctl_grows_same [where es = "[]"]) (simp_all add: ctl_ok_def)
  have un: "\<exists>i. handleUnannounce u (ct_in s) = Some i \<and> ctl_grows hook now s (s\<lparr>ct_in := i\<rparr>)" for u
  proof -
    obtain i where "handleUnannounce u (ct_in s) = Some i" "inbound_inv hook i" using handleUnannounce_inv [OF ok(2)] by blast
    then show ?thesis using ok by (auto intro!: ctl_grows_same [where es = "[]"] simp: ctl_ok_def)
  qed
  consider "t = TypePing" | "t = TypeData" | "t = TypeUnannounce" | "t \<notin> {TypePing, TypeData, TypeUnannounce}" by blast
  then show ?thesis
  proof cases
    case 1
    then show ?thesis using ctl_ping_grows [OF assms, of now payload] by (simp add: ctl_frame_def)
  next
    case 2
    then show ?thesis using c dc by (simp add: ctl_frame_def frame_types)
  next
    case 3
    show ?thesis
    proof (cases "cj_unannounce j payload")
      case (Inl e)
      then show ?thesis using 3 emit by (simp add: ctl_frame_def frame_types)
    next
      case (Inr u)
      then show ?thesis using 3 un [of u] by (auto simp: ctl_frame_def frame_types)
    qed
  next
    case 4
    then show ?thesis using same emit bp an
      by (auto simp: ctl_frame_def split: sum.split)
  qed
qed

text \<open>What a reader that is still running, or that returned, left behind.\<close>

definition ctl_final :: "ctl_result \<Rightarrow> ctl_state option" where
  "ctl_final r = (case r of CtlRunning s \<Rightarrow> Some s | CtlReturned _ s \<Rightarrow> Some s | CtlPanic \<Rightarrow> None)"

definition ctl_summary :: "ctl_state \<Rightarrow> ctl_state \<Rightarrow> bool" where
  "ctl_summary s s' \<longleftrightarrow> ct_lastFeed s' = ct_lastFeed s \<and> ct_lastAttempt s' = ct_lastAttempt s \<and>
     (\<exists>es. ct_events s' = ct_events s @ es \<and> spaced (pongs es) \<and>
        (ct_lastPing s \<noteq> 0 \<and> pongs es \<noteq> [] \<longrightarrow> ct_lastPing s + minPingInterval \<le> hd (pongs es)))"

lemma ctl_summary_grows: "ctl_grows hook now s s' \<Longrightarrow> ctl_summary s s'"
  by (auto simp: ctl_grows_def ctl_summary_def)

lemma ctl_summary_step:
  assumes "ctl_grows hook now s s1" "ctl_summary s1 s'" "0 < now"
  shows "ctl_summary s s'"
proof -
  obtain es where es: "ct_events s1 = ct_events s @ es"
    "pongs es = [] \<and> ct_lastPing s1 = ct_lastPing s \<or>
     pongs es = [now] \<and> ct_lastPing s1 = now \<and> (ct_lastPing s = 0 \<or> ct_lastPing s + minPingInterval \<le> now)"
    using assms(1) unfolding ctl_grows_def by blast
  obtain es' where es': "ct_events s' = ct_events s1 @ es'" "spaced (pongs es')"
    "ct_lastPing s1 \<noteq> 0 \<and> pongs es' \<noteq> [] \<longrightarrow> ct_lastPing s1 + minPingInterval \<le> hd (pongs es')"
    using assms(2) unfolding ctl_summary_def by blast
  have "spaced (pongs (es @ es')) \<and>
      (ct_lastPing s \<noteq> 0 \<and> pongs (es @ es') \<noteq> [] \<longrightarrow> ct_lastPing s + minPingInterval \<le> hd (pongs (es @ es')))"
    using es(2) es'(2,3) assms(3) by (auto simp: pongs_append spaced_Cons)
  then show ?thesis using assms(1,2) es(1) es'(1)
    by (auto simp: ctl_grows_def ctl_summary_def intro!: exI [of _ "es @ es'"])
qed

lemma controlReader_summary:
  "ctl_ok hook s \<Longrightarrow> \<forall>now\<in>set nows. 0 < now \<Longrightarrow>
     \<exists>s'. ctl_final (controlReader j hook ks nows src s) = Some s' \<and> ctl_summary s s'"
proof (induction nows arbitrary: src s)
  case Nil
  then show ?case by (auto simp: ctl_final_def ctl_summary_def)
next
  case (Cons now nows)
  have same: "ctl_summary s s" by (simp add: ctl_summary_def)
  show ?case
  proof (cases "ReadControlFrame src")
    case (Inl e)
    then show ?thesis using same by (auto simp: ctl_final_def)
  next
    case (Inr p)
    then obtain t payload rest where p: "ReadControlFrame src = Inr ((t, payload), rest)" by (metis prod.exhaust)
    obtain r where r: "ctl_frame j hook ks now t payload s = Some r"
      "case r of Inl (_, s') \<Rightarrow> ctl_grows hook now s s' | Inr s' \<Rightarrow> ctl_grows hook now s s'"
      using ctl_frame_grows [OF Cons.prems(1)] by blast
    show ?thesis
    proof (cases r)
      case (Inl q)
      then obtain e s' where "r = Inl (e, s')" by (cases q) simp
      then show ?thesis using p r ctl_summary_grows by (auto simp: ctl_final_def)
    next
      case (Inr s1)
      have g: "ctl_grows hook now s s1" using r(2) Inr by simp
      then have "ctl_ok hook s1" by (simp add: ctl_grows_def)
      then obtain s' where s': "ctl_final (controlReader j hook ks nows rest s1) = Some s'" "ctl_summary s1 s'"
        using Cons.IH Cons.prems(2) by fastforce
      have "0 < now" using Cons.prems(2) by simp
      then show ?thesis using p r(1) Inr s' ctl_summary_step [OF g s'(2)] by simp
    qed
  qed
qed

text \<open>An unset configuration, and a quiet session's reader state.\<close>

definition cfg0 :: SessionConfig where
  "cfg0 = \<lparr>sc_ExpectSlug = [], sc_AuthValidator = None, sc_SupportedFeatures = [],
     sc_SDP = \<lparr>sdp_Codec = [], sdp_Width = 0, sdp_Height = 0, sdp_FPS = 0, sdp_ScreenW = 0, sdp_ScreenH = 0,
       sdp_SessionID = [], sdp_Features = [], sdp_NegotiatedVersion = []\<rparr>,
     sc_AcceptTimeout = 0, sc_ReadHelloTimeout = 0, sc_IdleTimeout = 0, sc_FeedConfig = Config_zero,
     sc_DataInboundBuffer = 0, sc_OnAnnounce = None, sc_OnKindStats = False\<rparr>"

definition j0 :: ctl_json where
  "j0 = \<lparr>cj_announce = (\<lambda>_. Inl ErrBadHello), cj_unannounce = (\<lambda>_. Inl ErrBadHello), cj_kindstats = (\<lambda>_. Inl ErrBadHello),
     cj_backpressure = (\<lambda>_. Inl ErrBadHello), cj_error = (\<lambda>_. Inl ErrBadHello)\<rparr>"

definition ctl0 :: ctl_state where
  "ctl0 = \<lparr>ct_ctl = \<lparr>w_out = [], w_script = []\<rparr>, ct_lastPing = 0, ct_dc = NewChannel 64,
     ct_in = \<lparr>in_heap = [], in_map = [],
       in_rl = newRateLimiter \<lparr>rl_MaxAUsPerSecond = 0, rl_MaxBytesPerSecond = 0, rl_BurstAUs = 0, rl_BurstBytes = 0\<rparr> 0,
       in_drains = [], in_errors = [], in_dropped = [], in_lastFeed = 0, in_app = 0, in_ctx_done = False\<rparr>,
     ct_events = [], ct_lastFeed = 0, ct_lastAttempt = 0\<rparr>"

section \<open>Properties\<close>



text \<open>C27. Control traffic cannot hurt a session. Whatever bytes the peer sends on the control stream, the
  reader does not panic, it does not touch the progress clocks that the idle watchdog reads, and the PONGs
  it sends are at least \<open>minPingInterval\<close> apart, also from a PONG sent before.\<close>

theorem controlReader_safe:
  assumes "channel_ok (ct_dc s)" "inbound_inv hook (ct_in s)" "\<forall>now\<in>set nows. 0 < now"
  shows "\<exists>s' es. ctl_final (controlReader j hook ks nows src s) = Some s' \<and>
    ct_lastFeed s' = ct_lastFeed s \<and> ct_lastAttempt s' = ct_lastAttempt s \<and>
    ct_events s' = ct_events s @ es \<and> spaced (if ct_lastPing s = 0 then pongs es else ct_lastPing s # pongs es)"
proof -
  obtain s' where s': "ctl_final (controlReader j hook ks nows src s) = Some s'" "ctl_summary s s'"
    using controlReader_summary [of hook s nows j ks src] assms by (auto simp: ctl_ok_def)
  then show ?thesis unfolding ctl_summary_def by (auto simp: spaced_Cons)
qed

theorem controlReader_safe_witness:
  "\<exists>s' es. ctl_final (controlReader j0 None True [5, 6]
      (control_frame_bytes (TypePing, [1]) @ control_frame_bytes (TypePing, [2])) ctl0) = Some s' \<and>
    ct_lastFeed s' = ct_lastFeed ctl0 \<and> ct_lastAttempt s' = ct_lastAttempt ctl0 \<and>
    ct_events s' = ct_events ctl0 @ es \<and> spaced (if ct_lastPing ctl0 = 0 then pongs es else ct_lastPing ctl0 # pongs es)"
  by (rule controlReader_safe) (simp_all add: ctl0_def inbound_inv_def)



end
