(* ===== verification/Server_Store.thy ===== *)
theory Server_Store
  imports Prelude
begin

text \<open>
  The in-memory store of parked sessions (\<^verbatim>\<open>server/session_store.go\<close>): parking, resuming and eviction
  by expiry or by the cap. The Go map is an association list with distinct keys; its order stands for
  the iteration order, on which only the choice among equally old sessions depends. Times are
  nanoseconds; the \<^verbatim>\<open>onEvict\<close> callbacks that ran are kept in \<open>st_evicted\<close>.
\<close>

section \<open>The store\<close>

definition defaultResumeWindow :: int where "defaultResumeWindow = 60 * 1000000000"
definition defaultMaxParked :: int where "defaultMaxParked = 1024"

record 'r persistedSession =
  ps_id :: string
  ps_receivers :: 'r
  ps_expiresAt :: int
  ps_onEvict :: bool

record 'r memorySessionStore =
  byID :: "(string \<times> 'r persistedSession) list"
  resumeTTL :: int
  maxParked :: int
  st_evicted :: "'r persistedSession list"

definition NewMemorySessionStoreWithCap :: "int \<Rightarrow> int \<Rightarrow> 'r memorySessionStore" where
  "NewMemorySessionStoreWithCap ttl cap =
     (let ttl = (if ttl \<le> 0 then defaultResumeWindow else ttl);
          cap = (if cap \<le> 0 then defaultMaxParked else cap) in
      \<lparr>byID = [], resumeTTL = ttl, maxParked = cap, st_evicted = []\<rparr>)"

definition NewMemorySessionStore :: "int \<Rightarrow> 'r memorySessionStore" where
  "NewMemorySessionStore ttl = NewMemorySessionStoreWithCap ttl defaultMaxParked"

definition scopedKey :: "string \<Rightarrow> string \<Rightarrow> string" where
  "scopedKey tenant sessionID = tenant @ [CHR 0x00] @ sessionID"

definition map_delete :: "string \<Rightarrow> (string \<times> 'r) list \<Rightarrow> (string \<times> 'r) list" where
  "map_delete k m = filter (\<lambda>p. fst p \<noteq> k) m"

definition map_put :: "string \<Rightarrow> 'r \<Rightarrow> (string \<times> 'r) list \<Rightarrow> (string \<times> 'r) list" where
  "map_put k v m = map_delete k m @ [(k, v)]"

definition run_onEvict :: "'r persistedSession list \<Rightarrow> 'r memorySessionStore \<Rightarrow> 'r memorySessionStore" where
  "run_onEvict ps s = s\<lparr>st_evicted := st_evicted s @ filter ps_onEvict ps\<rparr>"

definition evictExpiredLocked :: "int \<Rightarrow> 'r memorySessionStore \<Rightarrow> nat \<times> 'r memorySessionStore" where
  "evictExpiredLocked now s =
     (let (gone, keep) = partition (\<lambda>p. now > ps_expiresAt (snd p)) (byID s) in
      (length gone, run_onEvict (map snd gone) (s\<lparr>byID := keep\<rparr>)))"

text \<open>The scan for the session that expires first: the first one that is strictly earlier wins.\<close>

fun oldest_session ::
    "(string \<times> 'r persistedSession) option \<Rightarrow> (string \<times> 'r persistedSession) list \<Rightarrow> (string \<times> 'r persistedSession) option" where
  "oldest_session best [] = best"
| "oldest_session best (p # ps) =
     (case best of
        None \<Rightarrow> oldest_session (Some p) ps
      | Some b \<Rightarrow> if ps_expiresAt (snd p) < ps_expiresAt (snd b) then oldest_session (Some p) ps
                  else oldest_session (Some b) ps)"

text \<open>The cap loop of \<open>Park\<close>; every round deletes one entry, so \<open>Suc (length (byID s))\<close> rounds are enough.\<close>

fun park_cap :: "nat \<Rightarrow> 'r memorySessionStore \<Rightarrow> 'r memorySessionStore" where
  "park_cap 0 s = s"
| "park_cap (Suc n) s =
     (if maxParked s > 0 \<and> int (length (byID s)) \<ge> maxParked s then
        (case oldest_session None (byID s) of
           None \<Rightarrow> s
         | Some (k, p) \<Rightarrow> park_cap n (run_onEvict [p] (s\<lparr>byID := map_delete k (byID s)\<rparr>)))
      else s)"

definition park_room :: "int \<Rightarrow> 'r memorySessionStore \<Rightarrow> 'r memorySessionStore" where
  "park_room now s = (let s1 = snd (evictExpiredLocked now s) in park_cap (Suc (length (byID s1))) s1)"

definition Park :: "int \<Rightarrow> int \<Rightarrow> string \<Rightarrow> string \<Rightarrow> 'r \<Rightarrow> bool \<Rightarrow> 'r memorySessionStore \<Rightarrow> 'r memorySessionStore" where
  "Park now1 now2 tenant sessionID receivers onEvict s =
     (let s2 = park_room now1 s in
      s2\<lparr>byID := map_put (scopedKey tenant sessionID)
           \<lparr>ps_id = sessionID, ps_receivers = receivers, ps_expiresAt = now2 + resumeTTL s2, ps_onEvict = onEvict\<rparr>
           (byID s2)\<rparr>)"

definition Resume :: "int \<Rightarrow> string \<Rightarrow> string \<Rightarrow> 'r memorySessionStore \<Rightarrow> 'r option \<times> 'r memorySessionStore" where
  "Resume now tenant sessionID s =
     (let s1 = snd (evictExpiredLocked now s); key = scopedKey tenant sessionID in
      case map_of (byID s1) key of
        None \<Rightarrow> (None, s1)
      | Some p \<Rightarrow> (Some (ps_receivers p), s1\<lparr>byID := map_delete key (byID s1)\<rparr>))"

definition EvictExpired :: "int \<Rightarrow> 'r memorySessionStore \<Rightarrow> nat \<times> 'r memorySessionStore" where
  "EvictExpired now s = evictExpiredLocked now s"

text \<open>A history of calls on one store.\<close>

datatype 'r store_op =
    OpPark int int string string 'r bool
  | OpResume int string string
  | OpEvict int

fun store_exec :: "'r store_op \<Rightarrow> 'r memorySessionStore \<Rightarrow> 'r memorySessionStore" where
  "store_exec (OpPark t1 t2 ten sid r cb) s = Park t1 t2 ten sid r cb s"
| "store_exec (OpResume t ten sid) s = snd (Resume t ten sid s)"
| "store_exec (OpEvict t) s = snd (EvictExpired t s)"

definition store_run :: "'r store_op list \<Rightarrow> 'r memorySessionStore \<Rightarrow> 'r memorySessionStore" where
  "store_run ops s = fold store_exec ops s"

fun op_key :: "'r store_op \<Rightarrow> (string \<times> string) option" where
  "op_key (OpPark _ _ ten sid _ _) = Some (ten, sid)"
| "op_key (OpResume _ ten sid) = Some (ten, sid)"
| "op_key (OpEvict _) = None"

definition nul_free :: "string \<Rightarrow> bool" where
  "nul_free s \<longleftrightarrow> CHR 0x00 \<notin> set s"

section \<open>Lemmas\<close>

lemma nul_free_append_eq:
  "nul_free t1 \<Longrightarrow> nul_free t2 \<Longrightarrow> t1 @ CHR 0x00 # s1 = t2 @ CHR 0x00 # s2 \<longleftrightarrow> t1 = t2 \<and> s1 = s2"
proof (induction t1 arbitrary: t2)
  case Nil
  then show ?case by (cases t2) (auto simp: nul_free_def)
next
  case (Cons c t1)
  then show ?case by (cases t2) (auto simp: nul_free_def)
qed

lemma scopedKey_inj:
  assumes "nul_free t1" "nul_free t2" "scopedKey t1 s1 = scopedKey t2 s2"
  shows "t1 = t2 \<and> s1 = s2"
  using assms by (simp add: scopedKey_def nul_free_append_eq)

lemma map_delete_sub: "set (map_delete k m) \<subseteq> set m"
  by (auto simp: map_delete_def)

lemma map_delete_length: "(k, v) \<in> set m \<Longrightarrow> length (map_delete k m) < length m"
  by (simp add: map_delete_def length_filter_less)

lemma distinct_map_delete: "distinct (map fst m) \<Longrightarrow> distinct (map fst (map_delete k m))"
  by (simp add: map_delete_def distinct_map_filter)

lemma map_delete_absent: "k \<notin> fst ` set m \<Longrightarrow> map_delete k m = m"
  by (auto simp: map_delete_def filter_id_conv)

lemma evictExpired_byID:
  "byID (snd (evictExpiredLocked now s)) = filter (\<lambda>p. now \<le> ps_expiresAt (snd p)) (byID s)"
  by (simp add: evictExpiredLocked_def run_onEvict_def comp_def not_less)

lemma evictExpired_frame [simp]:
  "resumeTTL (snd (evictExpiredLocked now s)) = resumeTTL s" "maxParked (snd (evictExpiredLocked now s)) = maxParked s"
  by (simp_all add: evictExpiredLocked_def run_onEvict_def)

lemma oldest_session_mem:
  "oldest_session best ps = Some b \<Longrightarrow> best = Some b \<or> b \<in> set ps"
  by (induction best ps rule: oldest_session.induct) (auto split: option.splits if_splits)

lemma oldest_session_min:
  "oldest_session best ps = Some b \<Longrightarrow>
     (\<forall>p\<in>set ps. ps_expiresAt (snd b) \<le> ps_expiresAt (snd p)) \<and>
     (\<forall>b0. best = Some b0 \<longrightarrow> ps_expiresAt (snd b) \<le> ps_expiresAt (snd b0))"
  by (induction best ps rule: oldest_session.induct) (fastforce split: option.splits if_splits)+

lemma oldest_session_some: "best \<noteq> None \<or> ps \<noteq> [] \<Longrightarrow> oldest_session best ps \<noteq> None"
  by (induction best ps rule: oldest_session.induct) (auto split: option.splits)

lemma park_cap_frame [simp]:
  "resumeTTL (park_cap n s) = resumeTTL s" "maxParked (park_cap n s) = maxParked s"
  by (induction n s rule: park_cap.induct) (auto simp: run_onEvict_def split: option.splits)

lemma park_cap_sub: "set (byID (park_cap n s)) \<subseteq> set (byID s)"
proof (induction n s rule: park_cap.induct)
  case (2 n s)
  show ?case
  proof (cases "0 < maxParked s \<and> maxParked s \<le> int (length (byID s)) \<and> oldest_session None (byID s) \<noteq> None")
    case True
    then obtain k p where kp: "oldest_session None (byID s) = Some (k, p)" by auto
    then show ?thesis using "2.IH" [OF _ kp refl] True map_delete_sub [of k "byID s"]
      by (simp add: run_onEvict_def)
  next
    case False
    then show ?thesis by (auto split: option.split)
  qed
qed simp

lemma park_cap_distinct: "distinct (map fst (byID s)) \<Longrightarrow> distinct (map fst (byID (park_cap n s)))"
  by (induction n s rule: park_cap.induct) (auto simp: run_onEvict_def distinct_map_delete split: option.splits)

lemma park_cap_room:
  "0 < maxParked s \<Longrightarrow> length (byID s) < n \<Longrightarrow> int (length (byID (park_cap n s))) < maxParked s"
proof (induction n s rule: park_cap.induct)
  case (2 n s)
  show ?case
  proof (cases "int (length (byID s)) \<ge> maxParked s")
    case True
    then have "byID s \<noteq> []" using "2.prems" by auto
    then obtain k p where kp: "oldest_session None (byID s) = Some (k, p)"
      using oldest_session_some [of None "byID s"] by auto
    then have "(k, p) \<in> set (byID s)" using oldest_session_mem by blast
    then have "length (map_delete k (byID s)) < n" using map_delete_length "2.prems" by fastforce
    then show ?thesis using "2.IH" [OF _ kp refl] True kp "2.prems" by (simp add: run_onEvict_def)
  qed (use 2 in simp)
qed simp

lemma park_room_sub: "set (byID (park_room now s)) \<subseteq> set (byID s)"
  using park_cap_sub [of "Suc (length (byID (snd (evictExpiredLocked now s))))" "snd (evictExpiredLocked now s)"]
  unfolding park_room_def Let_def evictExpired_byID by auto

lemma park_room_distinct: "distinct (map fst (byID s)) \<Longrightarrow> distinct (map fst (byID (park_room now s)))"
  unfolding park_room_def Let_def
  by (rule park_cap_distinct) (simp add: evictExpired_byID distinct_map_filter)

lemma park_room_frame [simp]:
  "resumeTTL (park_room now s) = resumeTTL s" "maxParked (park_room now s) = maxParked s"
  by (simp_all add: park_room_def Let_def del: park_cap.simps)

lemma park_room_room: "0 < maxParked s \<Longrightarrow> int (length (byID (park_room now s))) < maxParked s"
  using park_cap_room [of "snd (evictExpiredLocked now s)" "Suc (length (byID (snd (evictExpiredLocked now s))))"]
  unfolding park_room_def Let_def by (simp del: park_cap.simps)

text \<open>Every stored session goes back to a call of \<open>Park\<close> after which its key was not used again.\<close>

definition parked_by :: "int \<Rightarrow> 'r store_op list \<Rightarrow> string \<Rightarrow> 'r persistedSession \<Rightarrow> bool" where
  "parked_by ttl ops k p \<longleftrightarrow>
     (\<exists>a b t1 t2 ten sid. ops = a @ OpPark t1 t2 ten sid (ps_receivers p) (ps_onEvict p) # b \<and>
        k = scopedKey ten sid \<and> ps_expiresAt p = t2 + ttl \<and>
        (\<forall>x\<in>set b. op_key x \<noteq> Some (ten, sid)))"

lemma parked_by_snoc:
  assumes "parked_by ttl ops k p" "\<forall>ten sid. op_key x = Some (ten, sid) \<longrightarrow> k \<noteq> scopedKey ten sid"
  shows "parked_by ttl (ops @ [x]) k p"
proof -
  obtain a b t1 t2 ten sid where h: "ops = a @ OpPark t1 t2 ten sid (ps_receivers p) (ps_onEvict p) # b"
    "k = scopedKey ten sid" "ps_expiresAt p = t2 + ttl" "\<forall>x\<in>set b. op_key x \<noteq> Some (ten, sid)"
    using assms(1) by (auto simp: parked_by_def)
  then have "\<forall>y\<in>set (b @ [x]). op_key y \<noteq> Some (ten, sid)" using assms(2) by auto
  then show ?thesis unfolding parked_by_def
    using h by (intro exI [of _ a] exI [of _ "b @ [x]"] exI [of _ t1] exI [of _ t2] exI [of _ ten] exI [of _ sid]) simp
qed

lemma Park_byID:
  "set (byID (Park t1 t2 ten sid r cb s)) \<subseteq>
     {q \<in> set (byID s). fst q \<noteq> scopedKey ten sid} \<union>
     {(scopedKey ten sid, \<lparr>ps_id = sid, ps_receivers = r, ps_expiresAt = t2 + resumeTTL s, ps_onEvict = cb\<rparr>)}"
  using park_room_sub [of t1 s] by (auto simp: Park_def Let_def map_put_def map_delete_def)

lemma Resume_byID:
  "set (byID (snd (Resume t ten sid s))) \<subseteq> {q \<in> set (byID s). fst q \<noteq> scopedKey ten sid}"
proof (cases "map_of (byID (snd (evictExpiredLocked t s))) (scopedKey ten sid)")
  case None
  then have "scopedKey ten sid \<notin> fst ` set (byID (snd (evictExpiredLocked t s)))" by (simp add: map_of_eq_None_iff)
  then show ?thesis using None by (auto simp: Resume_def Let_def evictExpired_byID image_iff)
next
  case (Some p)
  then show ?thesis by (auto simp: Resume_def Let_def map_delete_def evictExpired_byID)
qed

lemma store_exec_frame [simp]: "resumeTTL (store_exec x s) = resumeTTL s" "maxParked (store_exec x s) = maxParked s"
  by (cases x; simp add: Park_def Resume_def EvictExpired_def Let_def split: option.split)+

lemma store_run_snoc: "store_run (ops @ [x]) s = store_exec x (store_run ops s)"
  by (simp add: store_run_def)

lemma store_run_frame [simp]: "resumeTTL (store_run ops s) = resumeTTL s" "maxParked (store_run ops s) = maxParked s"
  by (induction ops rule: rev_induct) (simp_all add: store_run_snoc, simp_all add: store_run_def)

lemma store_run_origin:
  assumes "byID s = []" "(k, p) \<in> set (byID (store_run ops s))"
  shows "parked_by (resumeTTL s) ops k p"
  using assms(2)
proof (induction ops arbitrary: k p rule: rev_induct)
  case Nil
  then show ?case using assms(1) by (simp add: store_run_def)
next
  case (snoc x ops)
  define s' where "s' = store_run ops s"
  have mem: "(k, p) \<in> set (byID (store_exec x s'))" using snoc.prems by (simp add: store_run_snoc s'_def)
  show ?case
  proof (cases x)
    case (OpPark t1 t2 ten sid r cb)
    then consider "(k, p) \<in> set (byID s')" "k \<noteq> scopedKey ten sid"
      | "k = scopedKey ten sid" "p = \<lparr>ps_id = sid, ps_receivers = r, ps_expiresAt = t2 + resumeTTL s, ps_onEvict = cb\<rparr>"
      using mem Park_byID [of t1 t2 ten sid r cb s'] by (auto simp: s'_def)
    then show ?thesis
    proof cases
      case 1
      then show ?thesis using snoc.IH OpPark by (auto simp: s'_def intro!: parked_by_snoc)
    next
      case 2
      then show ?thesis unfolding parked_by_def using OpPark
        by (intro exI [of _ ops] exI [of _ "[]"] exI [of _ t1] exI [of _ t2] exI [of _ ten] exI [of _ sid]) simp
    qed
  next
    case (OpResume t ten sid)
    then have "(k, p) \<in> set (byID s')" "k \<noteq> scopedKey ten sid"
      using mem Resume_byID [of t ten sid s'] by auto
    then show ?thesis using snoc.IH OpResume by (auto simp: s'_def intro!: parked_by_snoc)
  next
    case (OpEvict t)
    then have "(k, p) \<in> set (byID s')" using mem by (auto simp: EvictExpired_def evictExpired_byID)
    then show ?thesis using snoc.IH OpEvict by (auto simp: s'_def intro!: parked_by_snoc)
  qed
qed

lemma store_exec_distinct: "distinct (map fst (byID s)) \<Longrightarrow> distinct (map fst (byID (store_exec x s)))"
proof (cases x)
  case (OpPark t1 t2 ten sid r cb)
  assume d: "distinct (map fst (byID s))"
  have "distinct (map fst (byID (park_room t1 s)))" by (rule park_room_distinct [OF d])
  then show ?thesis using OpPark by (auto simp: Park_def Let_def map_put_def map_delete_def distinct_map_filter)
next
  case (OpResume t ten sid)
  assume d: "distinct (map fst (byID s))"
  then show ?thesis using OpResume
    by (auto simp: Resume_def Let_def evictExpired_byID distinct_map_delete distinct_map_filter split: option.split)
qed (simp add: EvictExpired_def evictExpired_byID distinct_map_filter)

text \<open>The callbacks that a store owes (sessions still parked) or has run.\<close>

definition owed :: "(string \<times> 'r persistedSession) list \<Rightarrow> 'r persistedSession multiset" where
  "owed m = filter_mset ps_onEvict (image_mset snd (mset m))"

definition live :: "'r memorySessionStore \<Rightarrow> 'r persistedSession multiset" where
  "live s = owed (byID s) + mset (st_evicted s)"

lemma owed_append: "owed (m1 @ m2) = owed m1 + owed m2"
  by (simp add: owed_def)

lemma owed_delete:
  "distinct (map fst m) \<Longrightarrow>
     owed m = owed (map_delete k m) + (case map_of m k of None \<Rightarrow> {#} | Some p \<Rightarrow> if ps_onEvict p then {#p#} else {#})"
proof (induction m)
  case (Cons x m)
  show ?case
  proof (cases "fst x = k")
    case True
    then have "map_delete k m = m" using Cons.prems by (intro map_delete_absent) auto
    then show ?thesis using True by (cases x) (simp add: owed_def map_delete_def)
  next
    case False
    then show ?thesis using Cons by (cases x) (auto simp: owed_def map_delete_def split: option.splits)
  qed
qed (simp add: owed_def map_delete_def)

lemma live_evict: "live (snd (evictExpiredLocked now s)) = live s"
proof -
  have "owed m = owed (filter (\<lambda>p. now \<le> ps_expiresAt (snd p)) m) +
      mset (filter ps_onEvict (map snd (filter (\<lambda>p. ps_expiresAt (snd p) < now) m)))" for m :: "(string \<times> 'a persistedSession) list"
    by (induction m) (auto simp: owed_def)
  from this [of "byID s"] have "owed (byID s) = owed (filter (\<lambda>p. now \<le> ps_expiresAt (snd p)) (byID s)) +
      mset (filter ps_onEvict (map snd (filter (\<lambda>p. ps_expiresAt (snd p) < now) (byID s))))" .
  then show ?thesis
    by (simp add: live_def evictExpired_byID) (simp add: evictExpiredLocked_def run_onEvict_def)
qed

lemma live_park_cap: "distinct (map fst (byID s)) \<Longrightarrow> live (park_cap n s) = live s"
proof (induction n s rule: park_cap.induct)
  case (2 n s)
  show ?case
  proof (cases "0 < maxParked s \<and> maxParked s \<le> int (length (byID s)) \<and> oldest_session None (byID s) \<noteq> None")
    case True
    then obtain k p where kp: "oldest_session None (byID s) = Some (k, p)" by auto
    define s' where "s' = run_onEvict [p] (s\<lparr>byID := map_delete k (byID s)\<rparr>)"
    have "map_of (byID s) k = Some p" using oldest_session_mem [OF kp] "2.prems" by simp
    then have "live s' = live s" using owed_delete [OF "2.prems", of k] by (simp add: live_def s'_def run_onEvict_def)
    moreover have "live (park_cap n s') = live s'"
      using "2.IH" [OF _ kp refl] True "2.prems"
      by (simp add: s'_def run_onEvict_def distinct_map_delete)
    ultimately show ?thesis using True kp by (simp add: s'_def)
  next
    case False
    then show ?thesis by (auto split: option.split)
  qed
qed simp

lemma live_park_room: "distinct (map fst (byID s)) \<Longrightarrow> live (park_room now s) = live s"
  unfolding park_room_def Let_def
  by (subst live_park_cap) (simp_all add: live_evict evictExpired_byID distinct_map_filter)

text \<open>What was parked can be resumed within its window.\<close>

lemma Resume_Park:
  assumes "now \<le> t2 + resumeTTL s"
  shows "fst (Resume now ten sid (Park t1 t2 ten sid r cb s)) = Some r"
proof -
  define m where "m = byID (park_room t1 s)"
  have "map_of (filter (\<lambda>p. now \<le> ps_expiresAt (snd p)) (map_delete (scopedKey ten sid) m)) (scopedKey ten sid) = None"
    by (auto simp: map_of_eq_None_iff map_delete_def)
  then show ?thesis using assms
    by (simp add: Resume_def Let_def evictExpired_byID Park_def map_put_def map_add_def m_def)
qed

section \<open>What a call drops\<close>

text \<open>Every session that a call removes is reported to \<open>onEvict\<close> at most once, is no longer stored, and was
  stored before; in multisets of stored sessions.\<close>

abbreviation stored :: "'r memorySessionStore \<Rightarrow> 'r persistedSession multiset" where
  "stored s \<equiv> mset (map snd (byID s))"

lemma subset_mset_chain: "A + B \<subseteq># C \<Longrightarrow> D \<subseteq># B \<Longrightarrow> A + D \<subseteq># C"
  by (meson subset_mset.add_left_mono subset_mset.order_trans)

lemma run_onEvict_sel [simp]:
  "st_evicted (run_onEvict ps s) = st_evicted s @ filter ps_onEvict ps" "byID (run_onEvict ps s) = byID s"
  by (simp_all add: run_onEvict_def)

lemma evict_drops:
  "\<exists>ev. st_evicted (snd (evictExpiredLocked now s)) = st_evicted s @ ev \<and>
     mset ev + stored (snd (evictExpiredLocked now s)) \<subseteq># stored s"
proof -
  let ?g = "filter (\<lambda>p. now > ps_expiresAt (snd p)) (byID s)"
  let ?k = "filter (\<lambda>p. \<not> now > ps_expiresAt (snd p)) (byID s)"
  have "mset (filter ps_onEvict (map snd ?g)) + mset (map snd ?k) \<subseteq># mset (map snd ?g) + mset (map snd ?k)"
    by (simp only: mset_filter mset_map) (simp add: multiset_filter_subset)
  also have "\<dots> = stored s" by (simp only: mset_map mset_filter image_mset_union [symmetric] multiset_partition [symmetric])
  finally show ?thesis by (simp add: evictExpiredLocked_def comp_def)
qed

lemma map_delete_drops:
  assumes "distinct (map fst m)" "map_of m k = Some p"
  shows "add_mset p (mset (map snd (map_delete k m))) = mset (map snd m)"
proof -
  have "filter (\<lambda>q. fst q = k) m = [(k, p)]"
    using assms by (induction m) (auto simp: filter_empty_conv rev_image_eqI split: if_splits)
  moreover have "mset m = mset (filter (\<lambda>q. fst q = k) m) + mset (map_delete k m)"
    by (simp add: map_delete_def multiset_partition)
  ultimately show ?thesis by simp
qed

lemma map_delete_stored: "mset (map snd (map_delete k m)) \<subseteq># mset (map snd m)"
  unfolding map_delete_def by (simp add: image_mset_subseteq_mono)

lemma park_cap_drops:
  "distinct (map fst (byID s)) \<Longrightarrow>
     \<exists>ev. st_evicted (park_cap n s) = st_evicted s @ ev \<and> mset ev + stored (park_cap n s) \<subseteq># stored s"
proof (induction n s rule: park_cap.induct)
  case (2 n s)
  show ?case
  proof (cases "maxParked s > 0 \<and> int (length (byID s)) \<ge> maxParked s \<and> oldest_session None (byID s) \<noteq> None")
    case True
    then obtain k p where kp: "oldest_session None (byID s) = Some (k, p)" by auto
    define s1 where "s1 = run_onEvict [p] (s\<lparr>byID := map_delete k (byID s)\<rparr>)"
    have step: "park_cap (Suc n) s = park_cap n s1" using True kp by (simp add: s1_def)
    have "distinct (map fst (byID s1))" using "2.prems" by (simp add: s1_def distinct_map_delete)
    then obtain ev where ev: "st_evicted (park_cap n s1) = st_evicted s1 @ ev"
      "mset ev + stored (park_cap n s1) \<subseteq># stored s1"
      using "2.IH" [OF _ kp refl] True unfolding s1_def by blast
    have "map_of (byID s) k = Some p" using oldest_session_mem [OF kp] "2.prems" by simp
    from map_delete_drops [OF "2.prems" this]
    have "mset (filter ps_onEvict [p]) + stored s1 \<subseteq># stored s"
      by (simp add: s1_def map_delete_stored [unfolded mset_map])
    from subset_mset_chain [OF this ev(2)]
    have "mset (filter ps_onEvict [p] @ ev) + stored (park_cap n s1) \<subseteq># stored s" by (simp add: add.assoc del: filter.simps)
    then show ?thesis using ev(1) unfolding step
      by (intro exI [of _ "filter ps_onEvict [p] @ ev"]) (simp add: s1_def)
  next
    case False
    then have "park_cap (Suc n) s = s" by (auto split: option.split)
    then show ?thesis by simp
  qed
qed simp

lemma park_room_drops:
  assumes "distinct (map fst (byID s))"
  shows "\<exists>ev. st_evicted (park_room now s) = st_evicted s @ ev \<and> mset ev + stored (park_room now s) \<subseteq># stored s"
proof -
  define s1 where "s1 = snd (evictExpiredLocked now s)"
  obtain e1 where e1: "st_evicted s1 = st_evicted s @ e1" "mset e1 + stored s1 \<subseteq># stored s"
    using evict_drops unfolding s1_def by blast
  have "distinct (map fst (byID s1))" using assms by (simp add: s1_def evictExpired_byID distinct_map_filter)
  from park_cap_drops [OF this, of "Suc (length (byID s1))"]
  obtain e2 where e2: "st_evicted (park_room now s) = st_evicted s1 @ e2" "mset e2 + stored (park_room now s) \<subseteq># stored s1"
    unfolding park_room_def Let_def s1_def by blast
  from subset_mset_chain [OF e1(2) e2(2)] show ?thesis using e1(1) e2(1) by (intro exI [of _ "e1 @ e2"]) (simp add: add.assoc)
qed

lemma Park_drops:
  assumes "distinct (map fst (byID s))"
  shows "\<exists>ev p. st_evicted (Park t1 t2 ten sid r cb s) = st_evicted s @ ev \<and> ps_receivers p = r \<and>
     mset ev + stored (Park t1 t2 ten sid r cb s) \<subseteq># add_mset p (stored s)"
proof -
  obtain ev where ev: "st_evicted (park_room t1 s) = st_evicted s @ ev" "mset ev + stored (park_room t1 s) \<subseteq># stored s"
    using park_room_drops [OF assms] by blast
  define p where "p = \<lparr>ps_id = sid, ps_receivers = r, ps_expiresAt = t2 + resumeTTL (park_room t1 s), ps_onEvict = cb\<rparr>"
  have "stored (Park t1 t2 ten sid r cb s) = add_mset p (mset (map snd (map_delete (scopedKey ten sid) (byID (park_room t1 s)))))"
    by (simp add: Park_def p_def Let_def map_put_def)
  also have "\<dots> \<subseteq># add_mset p (stored (park_room t1 s))" by (simp add: map_delete_stored del: mset_map)
  finally have "mset ev + stored (Park t1 t2 ten sid r cb s) \<subseteq># add_mset p (mset ev + stored (park_room t1 s))"
    by simp
  also have "\<dots> \<subseteq># add_mset p (stored s)" using ev(2) by simp
  finally show ?thesis using ev(1) by (intro exI [of _ ev] exI [of _ p]) (simp add: Park_def p_def Let_def)
qed

lemma Resume_drops:
  assumes "distinct (map fst (byID s))" "Resume now ten sid s = (res, s')"
  shows "\<exists>ev taken. st_evicted s' = st_evicted s @ ev \<and> map_option ps_receivers taken = res \<and>
     mset ev + (case taken of None \<Rightarrow> {#} | Some p \<Rightarrow> {#p#}) + stored s' \<subseteq># stored s"
proof -
  define s1 where "s1 = snd (evictExpiredLocked now s)"
  obtain ev where ev: "st_evicted s1 = st_evicted s @ ev" "mset ev + stored s1 \<subseteq># stored s"
    using evict_drops unfolding s1_def by blast
  have d: "distinct (map fst (byID s1))" using assms(1) by (simp add: s1_def evictExpired_byID distinct_map_filter)
  show ?thesis
  proof (cases "map_of (byID s1) (scopedKey ten sid)")
    case None
    then show ?thesis using assms(2) ev by (intro exI [of _ ev] exI [of _ None]) (simp add: Resume_def Let_def s1_def)
  next
    case (Some p)
    then have s': "res = Some (ps_receivers p)" "s' = s1\<lparr>byID := map_delete (scopedKey ten sid) (byID s1)\<rparr>"
      using assms(2) by (auto simp: Resume_def Let_def s1_def)
    have "{#p#} + stored s' \<subseteq># stored s1" using map_delete_drops [OF d Some] by (simp add: s'(2))
    from subset_mset_chain [OF ev(2) this] have "mset ev + {#p#} + stored s' \<subseteq># stored s" by (simp only: add.assoc)
    then show ?thesis using ev(1) s'(1) unfolding s'(2)
      by (intro exI [of _ ev] exI [of _ "Some p"] conjI) (simp_all del: mset_map)
  qed
qed

section \<open>Properties\<close>

text \<open>C15. Resume isolation. After any history of calls by tenants whose names contain no NUL byte, whatever
  session ids the clients send: if \<open>Resume\<close> for a tenant and session id returns receivers, they were parked
  under exactly this tenant and id, the key was not parked again or resumed since, and the resume window
  has not passed. So no tenant resumes another tenant's session and no session is resumed twice.\<close>

theorem Resume_isolated:
  assumes "byID s = []" "nul_free ten" "\<forall>x\<in>set ops. \<forall>t i. op_key x = Some (t, i) \<longrightarrow> nul_free t"
    and "fst (Resume now ten sid (store_run ops s)) = Some r"
  shows "\<exists>a b t1 t2 cb. ops = a @ OpPark t1 t2 ten sid r cb # b \<and> now \<le> t2 + resumeTTL s \<and>
    (\<forall>x\<in>set b. op_key x \<noteq> Some (ten, sid))"
proof -
  obtain p where p: "map_of (byID (snd (evictExpiredLocked now (store_run ops s)))) (scopedKey ten sid) = Some p"
    "r = ps_receivers p"
    using assms(4) by (auto simp: Resume_def Let_def split: option.splits)
  then have mem: "(scopedKey ten sid, p) \<in> set (byID (store_run ops s))" "now \<le> ps_expiresAt p"
    by (auto simp: evictExpired_byID dest!: map_of_SomeD)
  from store_run_origin [OF assms(1) mem(1)] obtain a b t1 t2 ten' sid' where
    h: "ops = a @ OpPark t1 t2 ten' sid' (ps_receivers p) (ps_onEvict p) # b"
    "scopedKey ten sid = scopedKey ten' sid'" "ps_expiresAt p = t2 + resumeTTL s"
    "\<forall>x\<in>set b. op_key x \<noteq> Some (ten', sid')"
    unfolding parked_by_def by blast
  have "nul_free ten'" using assms(3) h(1) by (metis in_set_conv_decomp op_key.simps(1))
  then have "ten = ten' \<and> sid = sid'" using scopedKey_inj [OF assms(2) _ h(2)] by blast
  then show ?thesis using h p(2) mem(2)
    by (intro exI [of _ a] exI [of _ b] exI [of _ t1] exI [of _ t2] exI [of _ "ps_onEvict p"]) simp
qed

theorem Resume_isolated_witness:
  "\<exists>a b t1 t2 cb. [OpPark 0 0 ''acme'' ''s1'' (7 :: nat) True] = a @ OpPark t1 t2 ''acme'' ''s1'' 7 cb # b \<and>
    5 \<le> t2 + resumeTTL (NewMemorySessionStore 60 :: nat memorySessionStore) \<and>
    (\<forall>x\<in>set b. op_key x \<noteq> Some (''acme'', ''s1''))"
  by (rule Resume_isolated)
     (simp_all add: NewMemorySessionStore_def NewMemorySessionStoreWithCap_def nul_free_def store_run_def
       Park_def park_room_def Resume_def evictExpiredLocked_def run_onEvict_def map_put_def map_delete_def defaultMaxParked_def Let_def)

text \<open>The store's bookkeeping, for a store with distinct keys and a positive cap. \<open>Park\<close> never exceeds the
  cap and what it parked can be resumed until its window ends. Every eviction callback is accounted for:
  \<open>Park\<close> adds the new session's, and loses only the callback of a session parked under the same key;
  \<open>Resume\<close> hands over exactly the resumed session's; eviction loses none.\<close>

theorem store_accounting:
  assumes "distinct (map fst (byID s))" "0 < maxParked s"
  shows "int (length (byID (Park t1 t2 ten sid r cb s))) \<le> maxParked s \<and>
    (now \<le> t2 + resumeTTL s \<longrightarrow> fst (Resume now ten sid (Park t1 t2 ten sid r cb s)) = Some r) \<and>
    live (Park t1 t2 ten sid r cb s) +
      (case map_of (byID (park_room t1 s)) (scopedKey ten sid) of
         None \<Rightarrow> {#} | Some p \<Rightarrow> if ps_onEvict p then {#p#} else {#}) =
      live s + (if cb then {#\<lparr>ps_id = sid, ps_receivers = r, ps_expiresAt = t2 + resumeTTL s, ps_onEvict = cb\<rparr>#} else {#}) \<and>
    live (snd (Resume now ten sid s)) +
      (case map_of (byID (snd (evictExpiredLocked now s))) (scopedKey ten sid) of
         None \<Rightarrow> {#} | Some p \<Rightarrow> if ps_onEvict p then {#p#} else {#}) = live s \<and>
    live (snd (EvictExpired now s)) = live s"
proof (intro conjI impI)
  define s2 where "s2 = park_room t1 s"
  have d2: "distinct (map fst (byID s2))" "live s2 = live s" "resumeTTL s2 = resumeTTL s"
    "int (length (byID s2)) < maxParked s"
    using assms by (simp_all add: s2_def park_room_distinct live_park_room park_room_room)
  have park: "Park t1 t2 ten sid r cb s = s2\<lparr>byID := map_put (scopedKey ten sid)
      \<lparr>ps_id = sid, ps_receivers = r, ps_expiresAt = t2 + resumeTTL s, ps_onEvict = cb\<rparr> (byID s2)\<rparr>"
    by (simp add: Park_def s2_def Let_def)
  have "length (map_delete (scopedKey ten sid) (byID s2)) \<le> length (byID s2)" by (simp add: map_delete_def)
  then show "int (length (byID (Park t1 t2 ten sid r cb s))) \<le> maxParked s"
    using d2(4) by (simp add: park map_put_def)
  show "fst (Resume now ten sid (Park t1 t2 ten sid r cb s)) = Some r" if "now \<le> t2 + resumeTTL s"
    using that by (rule Resume_Park)
  show "live (Park t1 t2 ten sid r cb s) + (case map_of (byID (park_room t1 s)) (scopedKey ten sid) of
         None \<Rightarrow> {#} | Some p \<Rightarrow> if ps_onEvict p then {#p#} else {#}) =
      live s + (if cb then {#\<lparr>ps_id = sid, ps_receivers = r, ps_expiresAt = t2 + resumeTTL s, ps_onEvict = cb\<rparr>#} else {#})"
    using owed_delete [OF d2(1), of "scopedKey ten sid"] d2(2)
    unfolding s2_def [symmetric] park by (simp add: live_def map_put_def owed_append) (simp add: owed_def ac_simps)
  have "distinct (map fst (byID (snd (evictExpiredLocked now s))))"
    using assms(1) by (simp add: evictExpired_byID distinct_map_filter)
  from owed_delete [OF this, of "scopedKey ten sid"]
  show "live (snd (Resume now ten sid s)) + (case map_of (byID (snd (evictExpiredLocked now s))) (scopedKey ten sid) of
         None \<Rightarrow> {#} | Some p \<Rightarrow> if ps_onEvict p then {#p#} else {#}) = live s"
    using live_evict [of now s]
    by (cases "map_of (byID (snd (evictExpiredLocked now s))) (scopedKey ten sid)")
       (simp_all add: Resume_def Let_def live_def split: if_splits)
  show "live (snd (EvictExpired now s)) = live s" by (simp add: EvictExpired_def live_evict)
qed

theorem store_accounting_witness:
  "int (length (byID (Park 0 0 [] ''a'' (1 :: nat) True (NewMemorySessionStoreWithCap 60 1)))) \<le> 1 \<and>
   fst (Resume 60 [] ''a'' (Park 0 0 [] ''a'' (1 :: nat) True (NewMemorySessionStoreWithCap 60 1))) = Some 1"
  using store_accounting [of "NewMemorySessionStoreWithCap 60 1 :: nat memorySessionStore" 0 0 "[]" "''a''" 1 True 60]
  by (simp add: NewMemorySessionStoreWithCap_def)

end
