(* ===== verification/Pubsub_Ring.thy ===== *)
theory Pubsub_Ring
  imports Track "HOL-Library.Sublist"
begin

text \<open>
  The replay ring of \<^verbatim>\<open>pubsub/broadcaster.go\<close>: a slice that grows up to \<open>replayCap\<close> entries and then
  wraps around at \<open>replayHead\<close>, with a byte budget. The operations are the \<^verbatim>\<open>...Locked\<close> methods of
  the broadcaster on the ring fields; the broadcaster theory extends the record. The abstraction of
  a ring is its snapshot; the contract is a bounded queue that holds the longest recent history
  that fits.
\<close>

record replay_ring =
  replayBuf :: "AccessUnit list"
  replayHead :: nat
  replayCap :: nat
  replayBytes :: int
  replayMaxBytes :: int

definition DefaultReplayCap :: nat where "DefaultReplayCap = 256"
definition DefaultReplayMaxBytes :: int where "DefaultReplayMaxBytes = 64 * 2 ^ 20"

section \<open>Operations\<close>

definition replaySnapshotLocked :: "'a replay_ring_scheme \<Rightarrow> AccessUnit list" where
  "replaySnapshotLocked b =
     (let n = length (replayBuf b) in
      if n = 0 then []
      else if n < replayCap b then replayBuf b
      else map (\<lambda>i. replayBuf b ! ((replayHead b + i) mod n)) [0..<n])"

definition replayEvictOldestLocked :: "'a replay_ring_scheme \<Rightarrow> 'a replay_ring_scheme" where
  "replayEvictOldestLocked b =
     (let n = length (replayBuf b) in
      if n = 0 then b
      else
        let oldestIdx = (if n < replayCap b then 0 else replayHead b);
            b1 = b\<lparr>replayBytes := replayBytes b - au_size (replayBuf b ! oldestIdx)\<rparr>;
            b2 = (if n < replayCap b then b1\<lparr>replayBuf := drop 1 (replayBuf b)\<rparr>
                  else
                    let snap = replaySnapshotLocked b in
                    b1\<lparr>replayBuf := (if length snap > 1 then drop 1 snap else []), replayHead := 0\<rparr>) in
        if replayBytes b2 < 0 then b2\<lparr>replayBytes := 0\<rparr> else b2)"

lemma length_replaySnapshotLocked [simp]: "length (replaySnapshotLocked b) = length (replayBuf b)"
  by (simp add: replaySnapshotLocked_def Let_def)

lemma length_replayEvictOldestLocked [simp]:
  "length (replayBuf (replayEvictOldestLocked b)) = length (replayBuf b) - 1"
  by (auto simp: replayEvictOldestLocked_def Let_def)

text \<open>The eviction loop of \<^verbatim>\<open>replayAppendLocked\<close> (\<open>need\<close> is the size of the AU to come) and of
  \<^verbatim>\<open>SetReplayMaxBytes\<close> (\<open>need\<close> is 0).\<close>

function replayEvictWhile :: "int \<Rightarrow> 'a replay_ring_scheme \<Rightarrow> 'a replay_ring_scheme" where
  "replayEvictWhile need b =
     (if replayMaxBytes b > 0 \<and> length (replayBuf b) > 0 \<and> replayBytes b + need > replayMaxBytes b
      then replayEvictWhile need (replayEvictOldestLocked b) else b)"
  by pat_completeness auto
termination by (relation "measure (\<lambda>(_, b). length (replayBuf b))") auto

declare replayEvictWhile.simps [simp del]

definition replayAppendLocked :: "AccessUnit \<Rightarrow> 'a replay_ring_scheme \<Rightarrow> 'a replay_ring_scheme" where
  "replayAppendLocked au b =
     (if replayCap b \<le> 0 then b
      else
        let auBytes = au_size au; b1 = replayEvictWhile auBytes b in
        if length (replayBuf b1) < replayCap b1
        then b1\<lparr>replayBuf := replayBuf b1 @ [au], replayBytes := replayBytes b1 + auBytes\<rparr>
        else
          let old = replayBuf b1 ! replayHead b1 in
          b1\<lparr>replayBuf := (replayBuf b1)[replayHead b1 := au],
             replayBytes := replayBytes b1 - au_size old + auBytes,
             replayHead := (replayHead b1 + 1) mod replayCap b1\<rparr>)"

definition SetReplayCap :: "int \<Rightarrow> 'a replay_ring_scheme \<Rightarrow> 'a replay_ring_scheme" where
  "SetReplayCap cap b =
     (let cap = nat cap in
      if cap = replayCap b then b
      else
        let current = replaySnapshotLocked b;
            b1 = b\<lparr>replayCap := cap, replayBuf := [], replayHead := 0, replayBytes := 0\<rparr> in
        if cap = 0 then b1
        else
          let current = (if length current > cap then drop (length current - cap) current else current) in
          fold replayAppendLocked current b1)"

definition SetReplayMaxBytes :: "int \<Rightarrow> 'a replay_ring_scheme \<Rightarrow> 'a replay_ring_scheme" where
  "SetReplayMaxBytes n b =
     (let n = (if n < 0 then 0 else n) in replayEvictWhile 0 (b\<lparr>replayMaxBytes := n\<rparr>))"

text \<open>\<^verbatim>\<open>sort.Slice\<close> is not stable; the model's stable sort is one of its possible results, and the
  only one when the sequence numbers are distinct.\<close>

definition ReplaySince :: "32 word \<Rightarrow> 'a replay_ring_scheme \<Rightarrow> AccessUnit list \<times> bool" where
  "ReplaySince fromSeq b =
     (if replayCap b \<le> 0 \<or> length (replayBuf b) = 0 then ([], True)
      else
        let snap = replaySnapshotLocked b;
            minSeq = foldl (\<lambda>m au. if au_Seq au < m then au_Seq au else m) (au_Seq (hd snap)) (tl snap) in
        if fromSeq < minSeq then ([], False)
        else (sort_key au_Seq (filter (\<lambda>au. au_Seq au \<ge> fromSeq) snap), True))"

section \<open>Invariant and abstraction\<close>

definition ring_inv :: "'a replay_ring_scheme \<Rightarrow> bool" where
  "ring_inv b \<longleftrightarrow>
     length (replayBuf b) \<le> replayCap b
   \<and> (length (replayBuf b) < replayCap b \<longrightarrow> replayHead b = 0)
   \<and> (length (replayBuf b) > 0 \<longrightarrow> replayHead b < length (replayBuf b))
   \<and> (replayBuf b = [] \<longrightarrow> replayHead b = 0)
   \<and> replayBytes b = au_total (replayBuf b)"

text \<open>The oldest entries go first until what remains and the coming \<open>need\<close> bytes fit.\<close>

fun shed :: "int \<Rightarrow> int \<Rightarrow> AccessUnit list \<Rightarrow> AccessUnit list" where
  "shed maxb need [] = []"
| "shed maxb need (x # xs) =
     (if maxb > 0 \<and> au_total (x # xs) + need > maxb then shed maxb need xs else x # xs)"

definition fifo_push :: "nat \<Rightarrow> int \<Rightarrow> AccessUnit \<Rightarrow> AccessUnit list \<Rightarrow> AccessUnit list" where
  "fifo_push cap maxb au q =
     (if cap = 0 then q
      else let q1 = shed maxb (au_size au) q in (if length q1 < cap then q1 else drop 1 q1) @ [au])"

lemma rotate_nth_list:
  "h < length xs \<Longrightarrow> map (\<lambda>i. xs ! ((h + i) mod length xs)) [0..<length xs] = rotate h xs"
  by (rule nth_equalityI) (auto simp: nth_rotate)

lemma snapshot_rotate:
  "ring_inv b \<Longrightarrow> replaySnapshotLocked b = rotate (replayHead b) (replayBuf b)"
  by (cases "replayBuf b = []")
     (auto simp: replaySnapshotLocked_def Let_def ring_inv_def rotate_nth_list)

lemma au_total_rotate [simp]: "au_total (rotate n xs) = au_total xs"
  by (simp add: rotate_drop_take) (metis append_take_drop_id au_total_simps(3) add.commute)

lemma ring_bytes_snapshot: "ring_inv b \<Longrightarrow> replayBytes b = au_total (replaySnapshotLocked b)"
  by (simp add: snapshot_rotate) (simp add: ring_inv_def)

lemma rotate_nonempty_split:
  "h < length xs \<Longrightarrow> rotate h xs = xs ! h # drop (Suc h) xs @ take h xs"
  by (simp add: rotate_drop_take Cons_nth_drop_Suc)

lemma evict_step:
  assumes "ring_inv b" "replayBuf b \<noteq> []"
  shows "ring_inv (replayEvictOldestLocked b)"
    and "replaySnapshotLocked (replayEvictOldestLocked b) = drop 1 (replaySnapshotLocked b)"
proof -
  let ?s = "replaySnapshotLocked b"
  have h: "replayHead b < length (replayBuf b)" using assms by (auto simp: ring_inv_def)
  have s: "?s = rotate (replayHead b) (replayBuf b)" using assms(1) by (rule snapshot_rotate)
  have hd: "replayBuf b ! replayHead b = hd ?s" using rotate_nonempty_split [OF h] s by simp
  have tot: "replayBytes b - au_size (hd ?s) = au_total (drop 1 ?s)"
    using ring_bytes_snapshot [OF assms(1)] rotate_nonempty_split [OF h] s by simp
  have buf: "replayBuf (replayEvictOldestLocked b) = drop 1 ?s"
    and head: "replayHead (replayEvictOldestLocked b) = 0"
    and cap: "replayCap (replayEvictOldestLocked b) = replayCap b"
    using assms h unfolding replayEvictOldestLocked_def Let_def
    by (auto simp: ring_inv_def replaySnapshotLocked_def)
  have "replayBytes (replayEvictOldestLocked b) = au_total (drop 1 ?s)"
    using assms hd tot [symmetric] au_total_nonneg [of "drop 1 ?s"]
    unfolding replayEvictOldestLocked_def Let_def by (auto simp: ring_inv_def)
  moreover have "0 < length (replayBuf b)" "length (replayBuf b) \<le> replayCap b"
    using assms by (auto simp: ring_inv_def)
  ultimately show "ring_inv (replayEvictOldestLocked b)"
    "replaySnapshotLocked (replayEvictOldestLocked b) = drop 1 ?s"
    using buf head cap by (auto simp: ring_inv_def replaySnapshotLocked_def [of "replayEvictOldestLocked b"] Let_def)
qed

lemma evict_frame [simp]:
  "replayCap (replayEvictOldestLocked b) = replayCap b"
  "replayMaxBytes (replayEvictOldestLocked b) = replayMaxBytes b"
  "replay_ring.more (replayEvictOldestLocked b) = replay_ring.more b"
  by (simp_all add: replayEvictOldestLocked_def Let_def)

lemma evict_while:
  assumes "ring_inv b"
  shows "ring_inv (replayEvictWhile need b)
    \<and> replaySnapshotLocked (replayEvictWhile need b) = shed (replayMaxBytes b) need (replaySnapshotLocked b)
    \<and> replayCap (replayEvictWhile need b) = replayCap b
    \<and> replayMaxBytes (replayEvictWhile need b) = replayMaxBytes b
    \<and> replay_ring.more (replayEvictWhile need b) = replay_ring.more b"
  using assms
proof (induction need b rule: replayEvictWhile.induct)
  case (1 need b)
  show ?case
  proof (cases "replayMaxBytes b > 0 \<and> length (replayBuf b) > 0 \<and> replayBytes b + need > replayMaxBytes b")
    case True
    then obtain x xs where "replaySnapshotLocked b = x # xs"
      by (metis length_greater_0_conv length_replaySnapshotLocked neq_Nil_conv)
    then show ?thesis
      using True 1 evict_step [OF 1(2)] ring_bytes_snapshot [OF 1(2)]
      by (subst (1 2 3 4 5) replayEvictWhile.simps) auto
  next
    case False
    then have "shed (replayMaxBytes b) need (replaySnapshotLocked b) = replaySnapshotLocked b"
      using ring_bytes_snapshot [OF 1(2)] length_replaySnapshotLocked [of b]
      by (cases "replaySnapshotLocked b") auto
    then show ?thesis using False 1(2) by (subst (1 2 3 4 5) replayEvictWhile.simps) auto
  qed
qed

lemmas evict_while_facts =
  evict_while [THEN conjunct1]
  evict_while [THEN conjunct2, THEN conjunct1]
  evict_while [THEN conjunct2, THEN conjunct2, THEN conjunct1]
  evict_while [THEN conjunct2, THEN conjunct2, THEN conjunct2, THEN conjunct1]
  evict_while [THEN conjunct2, THEN conjunct2, THEN conjunct2, THEN conjunct2]

text \<open>Overwriting the slot at the head and moving the head on is dropping the oldest entry of the
  rotation and appending.\<close>

lemma rotate_overwrite:
  assumes "h < length xs"
  shows "rotate (Suc h mod length xs) (xs[h := x]) = drop 1 (rotate h xs) @ [x]"
proof (cases "Suc h = length xs")
  case True
  then show ?thesis using assms by (simp add: upd_conv_take_nth_drop rotate_nonempty_split)
next
  case False
  then have "Suc h < length xs" using assms by simp
  then show ?thesis
    using assms by (simp add: upd_conv_take_nth_drop rotate_drop_take)
qed

lemma ring_put_append:
  fixes au :: AccessUnit
  assumes "ring_inv b" "length (replayBuf b) < replayCap b"
  defines "b' \<equiv> b\<lparr>replayBuf := replayBuf b @ [au], replayBytes := replayBytes b + au_size au\<rparr>"
  shows "ring_inv b' \<and> replaySnapshotLocked b' = replaySnapshotLocked b @ [au]"
proof -
  have "ring_inv b'" "replayHead b' = 0" "replayHead b = 0"
    using assms(1,2) by (auto simp: ring_inv_def b'_def)
  then show ?thesis using assms(1) by (simp add: snapshot_rotate b'_def)
qed

lemma au_total_update:
  "h < length xs \<Longrightarrow> au_total (xs[h := x]) = au_total xs - au_size (xs ! h) + au_size x"
  by (induction xs arbitrary: h) (auto split: nat.split)

lemma ring_put_overwrite:
  fixes au :: AccessUnit
  assumes "ring_inv b" "\<not> length (replayBuf b) < replayCap b" "replayCap b \<noteq> 0"
  defines "b' \<equiv> b\<lparr>replayBuf := (replayBuf b)[replayHead b := au],
             replayBytes := replayBytes b - au_size (replayBuf b ! replayHead b) + au_size au,
             replayHead := (replayHead b + 1) mod replayCap b\<rparr>"
  shows "ring_inv b' \<and> replaySnapshotLocked b' = drop 1 (replaySnapshotLocked b) @ [au]"
proof -
  have l: "length (replayBuf b) = replayCap b" "replayHead b < length (replayBuf b)"
    using assms(1-3) by (auto simp: ring_inv_def)
  then have "ring_inv b'"
    using assms(1,3) by (auto simp: ring_inv_def b'_def au_total_update)
  then show ?thesis
    using assms(1) l rotate_overwrite [OF l(2), of au] by (simp add: snapshot_rotate b'_def)
qed

lemma append_ring:
  assumes "ring_inv b"
  shows "ring_inv (replayAppendLocked au b)
    \<and> replaySnapshotLocked (replayAppendLocked au b)
      = fifo_push (replayCap b) (replayMaxBytes b) au (replaySnapshotLocked b)"
proof -
  let ?b1 = "replayEvictWhile (au_size au) b"
  note b1 = evict_while [OF assms, of "au_size au"]
  have len: "length (shed (replayMaxBytes b) (au_size au) (replaySnapshotLocked b)) = length (replayBuf ?b1)"
    using b1 length_replaySnapshotLocked [of ?b1] by simp
  show ?thesis
  proof (cases "replayCap b = 0")
    case True
    then show ?thesis using assms by (simp add: replayAppendLocked_def fifo_push_def)
  next
    case False
    then show ?thesis
      using b1 len ring_put_append [of ?b1 au] ring_put_overwrite [of ?b1 au]
      by (simp add: replayAppendLocked_def Let_def fifo_push_def)
  qed
qed

lemma append_frame [simp]:
  assumes "ring_inv b"
  shows "replayCap (replayAppendLocked au b) = replayCap b"
    "replayMaxBytes (replayAppendLocked au b) = replayMaxBytes b"
  using evict_while [OF assms, of "au_size au"] by (simp_all add: replayAppendLocked_def Let_def)

lemma evict_while_more: "replay_ring.more (replayEvictWhile n b) = replay_ring.more b"
proof (induction n b rule: replayEvictWhile.induct)
  case (1 need b)
  then show ?case by (subst replayEvictWhile.simps) simp
qed

lemma append_more: "replay_ring.more (replayAppendLocked au b) = replay_ring.more b"
  by (simp add: replayAppendLocked_def Let_def evict_while_more)

lemma append_all_more: "replay_ring.more (fold replayAppendLocked aus b) = replay_ring.more b"
  by (induction aus arbitrary: b) (simp_all add: append_more)

lemma SetReplayCap_more: "replay_ring.more (SetReplayCap c b) = replay_ring.more b"
  by (simp add: SetReplayCap_def Let_def append_all_more)

lemma SetReplayMaxBytes_more: "replay_ring.more (SetReplayMaxBytes n b) = replay_ring.more b"
  by (simp add: SetReplayMaxBytes_def Let_def evict_while_more)

section \<open>The longest recent history that fits\<close>

definition fits :: "nat \<Rightarrow> int \<Rightarrow> AccessUnit list \<Rightarrow> bool" where
  "fits cap maxb s \<longleftrightarrow> length s \<le> cap \<and> (maxb > 0 \<longrightarrow> au_total s \<le> maxb \<or> length s \<le> 1)"

definition longest_fit :: "nat \<Rightarrow> int \<Rightarrow> AccessUnit list \<Rightarrow> AccessUnit list \<Rightarrow> bool" where
  "longest_fit cap maxb s h \<longleftrightarrow>
     suffix s h \<and> fits cap maxb s \<and> (\<forall>s'. suffix s' h \<longrightarrow> fits cap maxb s' \<longrightarrow> length s' \<le> length s)"

lemma shed_suffix: "suffix (shed maxb need q) q"
  by (induction q) (auto intro: suffix_ConsI)

lemma shed_fits: "maxb > 0 \<Longrightarrow> shed maxb need q \<noteq> [] \<Longrightarrow> au_total (shed maxb need q) + need \<le> maxb"
  by (induction q) (auto split: if_splits)

lemma shed_longest:
  "suffix s q \<Longrightarrow> (maxb > 0 \<longrightarrow> s = [] \<or> au_total s + need \<le> maxb) \<Longrightarrow> length s \<le> length (shed maxb need q)"
  by (induction q) (auto simp: suffix_Cons dest: suffix_length_le)

lemma suffix_total: "suffix s q \<Longrightarrow> au_total s \<le> au_total q"
  by (auto simp: suffix_def)

lemma fits_snocD: "fits cap maxb (s @ [x]) \<Longrightarrow> fits cap maxb s"
  using au_size_nonneg [of x] by (auto simp: fits_def simp del: au_size_nonneg)

lemma longest_fit_push:
  assumes "longest_fit cap maxb s h"
  shows "longest_fit cap maxb (fifo_push cap maxb au s) (h @ [au])"
proof (cases "cap = 0")
  case True
  then show ?thesis using assms by (auto simp: longest_fit_def fits_def fifo_push_def suffix_def)
next
  case False
  define q where "q = shed maxb (au_size au) s"
  define r where "r = (if length q < cap then q else drop 1 q)"
  have push: "fifo_push cap maxb au s = r @ [au]" using False by (simp add: fifo_push_def q_def r_def Let_def)
  have q: "suffix q s" "maxb > 0 \<longrightarrow> q = [] \<or> au_total q + au_size au \<le> maxb"
    using shed_suffix shed_fits unfolding q_def by blast+
  have r: "suffix r q" by (simp add: r_def suffix_drop)
  have "length q \<le> cap" using q(1) assms by (auto simp: longest_fit_def fits_def dest: suffix_length_le)
  then have lr: "length r < cap" "length r = length q \<or> length r = cap - 1" using False by (auto simp: r_def)
  have sh: "suffix s h" "\<And>s'. suffix s' h \<Longrightarrow> fits cap maxb s' \<Longrightarrow> length s' \<le> length s"
    using assms by (auto simp: longest_fit_def)
  have "suffix (r @ [au]) (h @ [au])" using r q(1) sh(1) by (meson suffix_order.trans snoc_suffix_snoc)
  moreover have "fits cap maxb (r @ [au])"
    using lr(1) q(2) suffix_total [OF r] r by (auto simp: fits_def)
  moreover have "length s' \<le> length (r @ [au])" if s': "suffix s' (h @ [au])" "fits cap maxb s'" for s'
  proof (cases s' rule: rev_cases)
    case (snoc s'' x)
    then have x: "x = au" "suffix s'' h" using s'(1) by (auto simp: suffix_snoc)
    then have "length s'' \<le> length s" using sh(2) fits_snocD s'(2) snoc by blast
    then have "suffix s'' s" using x(2) sh(1) by (metis suffix_length_suffix)
    moreover have "length s'' < cap" "maxb > 0 \<longrightarrow> s'' = [] \<or> au_total s'' + au_size au \<le> maxb"
      using s'(2) snoc x by (auto simp: fits_def)
    ultimately have "length s'' \<le> length q" unfolding q_def using shed_longest by blast
    then show ?thesis using snoc lr(2) \<open>length s'' < cap\<close> by auto
  qed simp
  ultimately show ?thesis using push by (simp add: longest_fit_def)
qed

text \<open>The contract of a replay buffer, and what its clients may conclude from it.\<close>

locale replay_buffer =
  fixes inv :: "'b \<Rightarrow> bool" and abs :: "'b \<Rightarrow> AccessUnit list"
    and push :: "AccessUnit \<Rightarrow> 'b \<Rightarrow> 'b" and cap :: "'b \<Rightarrow> nat" and maxb :: "'b \<Rightarrow> int"
  assumes push_inv: "inv b \<Longrightarrow> inv (push au b)"
    and push_abs: "inv b \<Longrightarrow> abs (push au b) = fifo_push (cap b) (maxb b) au (abs b)"
    and push_limits: "inv b \<Longrightarrow> cap (push au b) = cap b" "inv b \<Longrightarrow> maxb (push au b) = maxb b"
begin

lemma push_all:
  "inv b \<Longrightarrow> longest_fit (cap b) (maxb b) (abs b) h \<Longrightarrow>
     inv (fold push aus b) \<and> cap (fold push aus b) = cap b \<and> maxb (fold push aus b) = maxb b
     \<and> longest_fit (cap b) (maxb b) (abs (fold push aus b)) (h @ aus)"
proof (induction aus arbitrary: b h)
  case (Cons au aus)
  then have "longest_fit (cap b) (maxb b) (abs (push au b)) (h @ [au])"
    using longest_fit_push push_abs by simp
  then show ?case using Cons.IH [of "push au b" "h @ [au]"] push_inv push_limits Cons.prems by simp
qed simp

end

interpretation ring: replay_buffer ring_inv replaySnapshotLocked replayAppendLocked replayCap replayMaxBytes
  by unfold_locales (simp_all add: append_ring)

lemma ring_empty:
  "ring_inv (b\<lparr>replayCap := c, replayBuf := [], replayHead := 0, replayBytes := 0\<rparr>)"
  "replaySnapshotLocked (b\<lparr>replayCap := c, replayBuf := [], replayHead := 0, replayBytes := 0\<rparr>) = []"
  by (simp_all add: ring_inv_def replaySnapshotLocked_def)

lemma longest_fit_Nil: "longest_fit cap maxb [] []"
  by (simp add: longest_fit_def fits_def)

lemma longest_fit_last:
  assumes "longest_fit cap maxb s (drop (length h - cap) h)"
  shows "longest_fit cap maxb s h"
proof -
  have "suffix s' (drop (length h - cap) h)" if "suffix s' h" "fits cap maxb s'" for s'
    using that by (auto simp: suffix_def fits_def)
  then show ?thesis using assms by (auto simp: longest_fit_def intro: suffix_order.trans suffix_drop)
qed

lemma SetReplayCap_ring:
  assumes "ring_inv b" "fits (replayCap b) (replayMaxBytes b) (replaySnapshotLocked b)"
  shows "ring_inv (SetReplayCap c b) \<and> replayCap (SetReplayCap c b) = nat c
    \<and> replayMaxBytes (SetReplayCap c b) = replayMaxBytes b
    \<and> longest_fit (nat c) (replayMaxBytes b) (replaySnapshotLocked (SetReplayCap c b)) (replaySnapshotLocked b)"
proof -
  define cur where "cur = replaySnapshotLocked b"
  define b1 where "b1 = b\<lparr>replayCap := nat c, replayBuf := [], replayHead := 0, replayBytes := 0\<rparr>"
  define h where "h = drop (length cur - nat c) cur"
  have b1: "ring_inv b1" "replaySnapshotLocked b1 = []" "replayCap b1 = nat c" "replayMaxBytes b1 = replayMaxBytes b"
    using ring_empty [of "nat c" b] by (simp_all add: b1_def)
  have "longest_fit (replayCap b1) (replayMaxBytes b1) (replaySnapshotLocked b1) []"
    using b1(2) by (simp add: longest_fit_Nil)
  note run = ring.push_all [OF b1(1) this, of h]
  have h_eq: "h = (if length cur > nat c then drop (length cur - nat c) cur else cur)" by (simp add: h_def)
  show ?thesis
  proof (cases "nat c = replayCap b")
    case True
    then show ?thesis using assms
      by (auto simp: SetReplayCap_def longest_fit_def dest: suffix_length_le)
  next
    case False
    then have eq: "SetReplayCap c b = (if nat c = 0 then b1 else fold replayAppendLocked h b1)"
      unfolding SetReplayCap_def Let_def cur_def [symmetric] b1_def [symmetric] h_eq by simp
    have "longest_fit 0 (replayMaxBytes b) [] cur" by (simp add: longest_fit_def fits_def)
    then show ?thesis
      using run b1 longest_fit_last [of "nat c" "replayMaxBytes b" _ cur]
      unfolding eq cur_def [symmetric] h_def by (cases "nat c = 0") simp_all
  qed
qed

lemma SetReplayMaxBytes_ring:
  assumes "ring_inv b"
  shows "ring_inv (SetReplayMaxBytes n b)
    \<and> replaySnapshotLocked (SetReplayMaxBytes n b) = shed (max 0 n) 0 (replaySnapshotLocked b)
    \<and> replayCap (SetReplayMaxBytes n b) = replayCap b \<and> replayMaxBytes (SetReplayMaxBytes n b) = max 0 n"
proof -
  have "ring_inv (b\<lparr>replayMaxBytes := k\<rparr>)"
    "replaySnapshotLocked (b\<lparr>replayMaxBytes := k\<rparr>) = replaySnapshotLocked b" for k
    using assms by (simp_all add: ring_inv_def replaySnapshotLocked_def Let_def)
  moreover have "SetReplayMaxBytes n b = replayEvictWhile 0 (b\<lparr>replayMaxBytes := max 0 n\<rparr>)"
    by (simp add: SetReplayMaxBytes_def max_def)
  ultimately show ?thesis using evict_while [of "b\<lparr>replayMaxBytes := max 0 n\<rparr>" 0] by simp
qed

lemma minSeq_fold:
  "foldl (\<lambda>m au. if au_Seq au < m then au_Seq au else m) m0 aus \<le> s
     \<longleftrightarrow> m0 \<le> s \<or> (\<exists>au \<in> set aus. au_Seq au \<le> s)"
proof (induction aus arbitrary: m0)
  case (Cons au aus)
  then show ?case by (auto simp: not_less intro: order_trans)
qed simp

lemma ring_inv_cap0: "ring_inv b \<Longrightarrow> replayCap b = 0 \<Longrightarrow> replayBuf b = []"
  by (simp add: ring_inv_def)

section \<open>Sequences of ring operations\<close>

datatype ring_op = RAppend AccessUnit | RSetCap int | RSetMaxBytes int

fun ring_exec :: "ring_op \<Rightarrow> 'a replay_ring_scheme \<Rightarrow> 'a replay_ring_scheme" where
  "ring_exec (RAppend au) b = replayAppendLocked au b"
| "ring_exec (RSetCap c) b = SetReplayCap c b"
| "ring_exec (RSetMaxBytes n) b = SetReplayMaxBytes n b"

fun appended :: "ring_op list \<Rightarrow> AccessUnit list" where
  "appended [] = []"
| "appended (RAppend au # ops) = au # appended ops"
| "appended (_ # ops) = appended ops"

lemma shed0_fits: "fits cap m q \<Longrightarrow> fits cap n (shed n 0 q)"
  using shed_fits [of n 0 q] suffix_length_le [OF shed_suffix [of n 0 q]]
  by (cases "shed n 0 q = []") (auto simp: fits_def)

lemma fifo_push_suffix: "suffix (fifo_push cap maxb au q) (q @ [au]) \<or> cap = 0 \<and> fifo_push cap maxb au q = q"
  using shed_suffix [of maxb "au_size au" q]
  by (auto simp: fifo_push_def Let_def suffix_def intro: append_take_drop_id [symmetric])
     (metis append.assoc append_take_drop_id)

lemma fifo_push_fits: "fits cap maxb q \<Longrightarrow> fits cap maxb (fifo_push cap maxb au q)"
  using longest_fit_push [of cap maxb q q au] by (auto simp: longest_fit_def dest: suffix_length_le)

lemma ring_exec_step:
  assumes "ring_inv b" "fits (replayCap b) (replayMaxBytes b) (replaySnapshotLocked b)"
  shows "ring_inv (ring_exec op b)
    \<and> fits (replayCap (ring_exec op b)) (replayMaxBytes (ring_exec op b)) (replaySnapshotLocked (ring_exec op b))"
proof (cases op)
  case (RAppend au)
  then show ?thesis using assms by (simp add: append_ring fifo_push_fits)
next
  case (RSetCap c)
  then show ?thesis using SetReplayCap_ring [OF assms, of c] by (auto simp: longest_fit_def)
next
  case (RSetMaxBytes n)
  then show ?thesis using SetReplayMaxBytes_ring [OF assms(1), of n] shed0_fits assms(2) by simp
qed

section \<open>Properties\<close>

text \<open>C9. The replay ring holds exactly the longest recent history that fits: if it does for the AUs
  published so far, then after any further appends its snapshot is the longest suffix of the whole
  history with at most \<open>replayCap\<close> entries and at most \<open>replayMaxBytes\<close> bytes (a single larger AU
  excepted), across wrap-around and byte evictions.\<close>

theorem replay_ring_longest_history:
  assumes "ring_inv b" "longest_fit (replayCap b) (replayMaxBytes b) (replaySnapshotLocked b) h"
  shows "longest_fit (replayCap b) (replayMaxBytes b)
           (replaySnapshotLocked (fold replayAppendLocked aus b)) (h @ aus)
    \<and> replayBytes (fold replayAppendLocked aus b) = au_total (replaySnapshotLocked (fold replayAppendLocked aus b))"
  using ring.push_all [OF assms, of aus] ring_bytes_snapshot by blast

theorem replay_ring_longest_history_witness:
  "longest_fit 2 10 (replaySnapshotLocked (fold replayAppendLocked
      [AccessUnit_zero\<lparr>au_Bytes := [1, 2]\<rparr>, AccessUnit_zero, AccessUnit_zero\<lparr>au_Bytes := [3]\<rparr>]
      \<lparr>replayBuf = [], replayHead = 0, replayCap = 2, replayBytes = 0, replayMaxBytes = 10\<rparr>))
    [AccessUnit_zero\<lparr>au_Bytes := [1, 2]\<rparr>, AccessUnit_zero, AccessUnit_zero\<lparr>au_Bytes := [3]\<rparr>]"
  using replay_ring_longest_history
    [of "\<lparr>replayBuf = [], replayHead = 0, replayCap = 2, replayBytes = 0, replayMaxBytes = 10\<rparr>" "[]"
      "[AccessUnit_zero\<lparr>au_Bytes := [1, 2]\<rparr>, AccessUnit_zero, AccessUnit_zero\<lparr>au_Bytes := [3]\<rparr>]"]
  by (simp add: ring_inv_def replaySnapshotLocked_def [of "\<lparr>replayBuf = [], replayHead = 0, replayCap = 2,
      replayBytes = 0, replayMaxBytes = 10\<rparr>"] longest_fit_def [of 2 10 "[]" "[]"] fits_def [of 2 10 "[]"] del: fold_simps)

text \<open>Every sequence of ring operations (appends, capacity and byte-budget changes, negative
  arguments included) keeps the ring well formed: indices in range, the byte count exact, and both
  limits respected.\<close>

theorem replay_ring_ops_invariant:
  assumes "ring_inv b" "fits (replayCap b) (replayMaxBytes b) (replaySnapshotLocked b)"
  shows "ring_inv (fold ring_exec ops b)
    \<and> fits (replayCap (fold ring_exec ops b)) (replayMaxBytes (fold ring_exec ops b))
        (replaySnapshotLocked (fold ring_exec ops b))"
  using assms by (induction ops arbitrary: b) (simp_all add: ring_exec_step)

theorem replay_ring_ops_invariant_witness:
  "ring_inv (fold ring_exec [RAppend AccessUnit_zero, RSetCap 1, RAppend AccessUnit_zero, RSetMaxBytes (-1)]
      \<lparr>replayBuf = [], replayHead = 0, replayCap = 256, replayBytes = 0, replayMaxBytes = 64\<rparr>)"
proof -
  let ?b = "\<lparr>replayBuf = [], replayHead = 0, replayCap = 256, replayBytes = 0, replayMaxBytes = 64\<rparr>"
  have "ring_inv ?b" "fits (replayCap ?b) (replayMaxBytes ?b) (replaySnapshotLocked ?b)"
    by (simp_all add: ring_inv_def fits_def replaySnapshotLocked_def)
  then show ?thesis using replay_ring_ops_invariant by blast
qed

text \<open>C19. \<open>ReplaySince\<close> on a well-formed ring: the resume range is refused exactly when the ring is
  non-empty and every buffered AU is newer than the requested sequence number; otherwise the result
  is the buffered AUs from that number on, each once, in ascending order.\<close>

theorem ReplaySince_spec:
  assumes "ring_inv b" "ReplaySince s b = (out, ok)"
  shows "(ok \<longleftrightarrow> replaySnapshotLocked b = [] \<or> (\<exists>au \<in> set (replaySnapshotLocked b). au_Seq au \<le> s))
    \<and> (if ok then sorted (map au_Seq out) \<and>
                 mset out = filter_mset (\<lambda>au. s \<le> au_Seq au) (mset (replaySnapshotLocked b))
       else out = [])"
proof (cases "replaySnapshotLocked b")
  case Nil
  then have "replayBuf b = []" by (metis length_0_conv length_replaySnapshotLocked)
  then show ?thesis using Nil assms(2) by (auto simp: ReplaySince_def)
next
  case (Cons x xs)
  then have "replayBuf b \<noteq> []" "replayCap b \<noteq> 0"
    using ring_inv_cap0 [OF assms(1)] by (metis length_0_conv length_replaySnapshotLocked list.discI)+
  moreover have "foldl (\<lambda>m au. if au_Seq au < m then au_Seq au else m) (au_Seq x) xs \<le> s
      \<longleftrightarrow> (\<exists>au \<in> set (replaySnapshotLocked b). au_Seq au \<le> s)"
    using minSeq_fold [of "au_Seq x" xs s] Cons by simp
  ultimately have "ReplaySince s b
      = (if \<exists>au \<in> set (replaySnapshotLocked b). au_Seq au \<le> s
         then (sort_key au_Seq (filter (\<lambda>au. au_Seq au \<ge> s) (replaySnapshotLocked b)), True) else ([], False))"
    using Cons by (auto simp: ReplaySince_def not_less [symmetric])
  then show ?thesis using assms(2) Cons by (auto simp del: filter.simps split: if_splits)
qed

theorem ReplaySince_spec_witness:
  "(ReplaySince 5 \<lparr>replayBuf = [AccessUnit_zero\<lparr>au_Seq := 7\<rparr>], replayHead = 0, replayCap = 3,
      replayBytes = 0, replayMaxBytes = 0\<rparr>) = ([], False)
   \<and> (False \<longleftrightarrow> (7 :: 32 word) \<le> 5)"
proof -
  let ?b = "\<lparr>replayBuf = [AccessUnit_zero\<lparr>au_Seq := 7\<rparr>], replayHead = 0, replayCap = 3,
      replayBytes = 0, replayMaxBytes = 0\<rparr>"
  have s: "replaySnapshotLocked ?b = [AccessUnit_zero\<lparr>au_Seq := 7\<rparr>]" by (simp add: replaySnapshotLocked_def)
  have i: "ring_inv ?b" by (simp add: ring_inv_def au_size_def AccessUnit_zero_def)
  have e: "ReplaySince 5 ?b = ([], False)" by (simp add: ReplaySince_def s)
  show ?thesis using ReplaySince_spec [OF i e] e s by simp
qed

end
