(* ===== verification/Pubsub_Broadcaster.thy ===== *)
theory Pubsub_Broadcaster
  imports Pubsub_Ring "HOL-Library.AList"
begin

text \<open>
  The broadcaster of \<^verbatim>\<open>pubsub/broadcaster.go\<close>: receivers with their bounded channels, the drop
  policy of \<open>Publish\<close>, subscription with the cached keyframe, splicing of replayed AUs, interceptors
  and closing. Receiver pointers are identifiers into a heap, so a receiver stays readable after it
  was unsubscribed. A send that would hit a closed channel is the explicit outcome \<open>None\<close>.
\<close>

section \<open>Receivers\<close>

record Receiver =
  rc_ch :: "AccessUnit chan"
  rc_closed :: bool
  rc_needKeyframe :: bool

definition Receiver_RequestKeyframe :: "Receiver \<Rightarrow> Receiver" where
  "Receiver_RequestKeyframe r = r\<lparr>rc_needKeyframe := True\<rparr>"

definition NeedsKeyframe :: "Receiver \<Rightarrow> bool" where
  "NeedsKeyframe r = rc_needKeyframe r"

definition QueueDepth :: "Receiver \<Rightarrow> nat" where
  "QueueDepth r = length (c_buf (rc_ch r))"

text \<open>The body of the fanout loop of \<open>Publish\<close> for one receiver (under \<^verbatim>\<open>r.mu\<close>).\<close>

definition deliver :: "bool \<Rightarrow> AccessUnit \<Rightarrow> Receiver \<Rightarrow> Receiver option" where
  "deliver selfContained au r =
     (if rc_closed r then Some r
      else if selfContained then
        (case chan_send au (rc_ch r) of
           SendPanic \<Rightarrow> None
         | Sent c \<Rightarrow> Some (r\<lparr>rc_ch := c\<rparr>)
         | Full \<Rightarrow>
             let c1 = chan_drop1 (rc_ch r) in
             (case chan_send au c1 of
                SendPanic \<Rightarrow> None
              | Sent c2 \<Rightarrow> Some (r\<lparr>rc_ch := c2\<rparr>)
              | Full \<Rightarrow> Some (r\<lparr>rc_ch := c1\<rparr>)))
      else if rc_needKeyframe r \<and> \<not> au_Keyframe au then Some r
      else
        (case chan_send au (rc_ch r) of
           SendPanic \<Rightarrow> None
         | Sent c \<Rightarrow> Some (if au_Keyframe au then r\<lparr>rc_ch := c, rc_needKeyframe := False\<rparr> else r\<lparr>rc_ch := c\<rparr>)
         | Full \<Rightarrow>
             if au_Keyframe au then
               let c1 = chan_drop1 (rc_ch r) in
               (case chan_send au c1 of
                  SendPanic \<Rightarrow> None
                | Sent c2 \<Rightarrow> Some (r\<lparr>rc_ch := c2, rc_needKeyframe := False\<rparr>)
                | Full \<Rightarrow> Some (r\<lparr>rc_ch := c1, rc_needKeyframe := True\<rparr>))
             else Some (r\<lparr>rc_needKeyframe := True\<rparr>)))"

text \<open>Closing a receiver (under \<^verbatim>\<open>r.mu\<close>): the flag and the channel together, once.\<close>

definition close_receiver :: "Receiver \<Rightarrow> Receiver" where
  "close_receiver r =
     (if rc_closed r then r else r\<lparr>rc_closed := True, rc_ch := (rc_ch r)\<lparr>c_closed := True\<rparr>\<rparr>)"

text \<open>\<^verbatim>\<open>SpliceFront\<close>: drain, merge by sequence number (the channel's copy wins), sort, refill with
  eviction of the oldest. The Go map's iteration order is irrelevant because the keys are distinct
  and the values are sorted by key.\<close>

definition merge_by_seq :: "AccessUnit list \<Rightarrow> AccessUnit list \<Rightarrow> AccessUnit list" where
  "merge_by_seq pre current =
     sort_key au_Seq (map snd (fold (\<lambda>au m. AList.update (au_Seq au) au m) (pre @ current) []))"

fun splice_refill :: "AccessUnit list \<Rightarrow> AccessUnit chan \<Rightarrow> (AccessUnit chan \<times> bool) option" where
  "splice_refill [] c = Some (c, False)"
| "splice_refill (au # aus) c =
     (case chan_send au c of
        SendPanic \<Rightarrow> None
      | Sent c1 \<Rightarrow> splice_refill aus c1
      | Full \<Rightarrow>
          let c1 = chan_drop1 c in
          (case chan_send au c1 of
             SendPanic \<Rightarrow> None
           | Sent c2 \<Rightarrow> splice_refill aus c2
           | Full \<Rightarrow> Some (c1, True)))"

definition SpliceFront :: "AccessUnit list \<Rightarrow> Receiver \<Rightarrow> Receiver option" where
  "SpliceFront pre r =
     (if pre = [] then Some r
      else if rc_closed r then Some r
      else
        let current = c_buf (rc_ch r); merged = merge_by_seq pre current in
        case splice_refill merged ((rc_ch r)\<lparr>c_buf := []\<rparr>) of
          None \<Rightarrow> None
        | Some (c, True) \<Rightarrow> Some (r\<lparr>rc_ch := c, rc_needKeyframe := True\<rparr>)
        | Some (c, False) \<Rightarrow> Some (r\<lparr>rc_ch := c\<rparr>))"

section \<open>Broadcaster\<close>

text \<open>An interceptor is caller code with its own state: it transforms the AU or refuses it.\<close>

type_synonym 's Interceptor = "'s \<Rightarrow> AccessUnit \<Rightarrow> 's \<times> (go_error + AccessUnit)"
type_synonym rid = nat

record 's broadcaster = replay_ring +
  receivers :: "rid list"
  rheap :: "rid \<Rightarrow> Receiver option"
  next_rid :: rid
  latestKeyframe :: "AccessUnit option"
  chanSize :: nat
  maxAUBytes :: int
  selfContained :: bool
  interceptors :: "'s Interceptor list"
  nextInterceptorID :: "64 word"
  interceptorIDs :: "64 word list"

definition NewBroadcasterWithBytes :: "int \<Rightarrow> int \<Rightarrow> 's broadcaster" where
  "NewBroadcasterWithBytes n maxBytes =
     \<lparr>replayBuf = [], replayHead = 0, replayCap = DefaultReplayCap, replayBytes = 0,
      replayMaxBytes = DefaultReplayMaxBytes, receivers = [], rheap = (\<lambda>_. None), next_rid = 0,
      latestKeyframe = None, chanSize = (if n \<le> 0 then 30 else nat n),
      maxAUBytes = maxBytes, selfContained = False, interceptors = [], nextInterceptorID = 0,
      interceptorIDs = []\<rparr>"

definition NewBroadcaster :: "int \<Rightarrow> 's broadcaster" where
  "NewBroadcaster n = NewBroadcasterWithBytes n (16 * 2 ^ 20)"

definition SetSelfContained :: "bool \<Rightarrow> 's broadcaster \<Rightarrow> 's broadcaster" where
  "SetSelfContained v b = b\<lparr>selfContained := v\<rparr>"

definition subscribeWithCap :: "nat \<Rightarrow> 's broadcaster \<Rightarrow> rid \<times> 's broadcaster" where
  "subscribeWithCap n b =
     (let ch = make_chan n;
          r = (case latestKeyframe b of
                 Some k \<Rightarrow> \<lparr>rc_ch = ch\<lparr>c_buf := [k]\<rparr>, rc_closed = False, rc_needKeyframe = False\<rparr>
               | None \<Rightarrow> \<lparr>rc_ch = ch, rc_closed = False, rc_needKeyframe = \<not> selfContained b\<rparr>) in
      (next_rid b, b\<lparr>receivers := receivers b @ [next_rid b],
                     rheap := (rheap b)(next_rid b := Some r), next_rid := Suc (next_rid b)\<rparr>))"

definition Subscribe :: "'s broadcaster \<Rightarrow> rid \<times> 's broadcaster" where
  "Subscribe b = subscribeWithCap (chanSize b) b"

definition SubscribeWithCapacity :: "int \<Rightarrow> 's broadcaster \<Rightarrow> rid \<times> 's broadcaster" where
  "SubscribeWithCapacity n b =
     (let n = (if n < int (chanSize b) then int (chanSize b) else n) in
      subscribeWithCap (nat n) b)"

definition Unsubscribe :: "rid \<Rightarrow> 's broadcaster \<Rightarrow> 's broadcaster" where
  "Unsubscribe r b =
     (if r \<notin> set (receivers b) then b
      else b\<lparr>receivers := filter (\<lambda>x. x \<noteq> r) (receivers b),
             rheap := (rheap b)(r := map_option close_receiver (rheap b r))\<rparr>)"

definition Count :: "'s broadcaster \<Rightarrow> nat" where
  "Count b = length (receivers b)"

text \<open>A nil interceptor registers nothing; otherwise the returned removal closure is named by the
  id it captured.\<close>

definition AddInterceptor :: "'s Interceptor option \<Rightarrow> 's broadcaster \<Rightarrow> 64 word option \<times> 's broadcaster" where
  "AddInterceptor fn b =
     (case fn of
        None \<Rightarrow> (None, b)
      | Some f \<Rightarrow>
          let i = nextInterceptorID b + 1 in
          (Some i, b\<lparr>nextInterceptorID := i, interceptors := interceptors b @ [f],
                     interceptorIDs := interceptorIDs b @ [i]\<rparr>))"

text \<open>The removal closure drops the first entry with its id, if there is one.\<close>

fun drop_interceptor :: "64 word \<Rightarrow> 64 word list \<Rightarrow> 'f list \<Rightarrow> 64 word list \<times> 'f list" where
  "drop_interceptor i (j # js) (f # fs) =
     (if j = i then (js, fs) else let (js', fs') = drop_interceptor i js fs in (j # js', f # fs'))"
| "drop_interceptor i js fs = (js, fs)"

definition remove_interceptor :: "64 word option \<Rightarrow> 's broadcaster \<Rightarrow> 's broadcaster" where
  "remove_interceptor h b =
     (case h of
        None \<Rightarrow> b
      | Some i \<Rightarrow>
          let (ids, fs) = drop_interceptor i (interceptorIDs b) (interceptors b) in
          b\<lparr>interceptorIDs := ids, interceptors := fs\<rparr>)"

fun run_chain :: "'s Interceptor list \<Rightarrow> 's \<Rightarrow> AccessUnit \<Rightarrow> 's \<times> AccessUnit option" where
  "run_chain [] s au = (s, Some au)"
| "run_chain (fn # fns) s au =
     (case fn s au of (s', Inl _) \<Rightarrow> (s', None) | (s', Inr au') \<Rightarrow> run_chain fns s' au')"

text \<open>The part of \<open>Publish\<close> under \<^verbatim>\<open>b.mu\<close>: size cap, keyframe cache, replay ring. \<open>None\<close> is the early
  return for an oversized AU.\<close>

definition publish_locked :: "AccessUnit \<Rightarrow> 's broadcaster \<Rightarrow> 's broadcaster option" where
  "publish_locked au b =
     (if maxAUBytes b > 0 \<and> au_size au > maxAUBytes b then None
      else
        let b1 = (if au_Keyframe au then b\<lparr>latestKeyframe := Some au\<rparr> else b) in
        Some (replayAppendLocked au b1))"

definition deliver_to :: "bool \<Rightarrow> AccessUnit \<Rightarrow> rid \<Rightarrow> (rid \<Rightarrow> Receiver option) \<Rightarrow> (rid \<Rightarrow> Receiver option) option" where
  "deliver_to sc au r h =
     (case h r of
        None \<Rightarrow> Some h
      | Some x \<Rightarrow> (case deliver sc au x of None \<Rightarrow> None | Some x' \<Rightarrow> Some (h(r := Some x'))))"

fun fanout :: "bool \<Rightarrow> AccessUnit \<Rightarrow> rid list \<Rightarrow> (rid \<Rightarrow> Receiver option) \<Rightarrow> (rid \<Rightarrow> Receiver option) option" where
  "fanout sc au [] h = Some h"
| "fanout sc au (r # rs) h =
     (case deliver_to sc au r h of None \<Rightarrow> None | Some h' \<Rightarrow> fanout sc au rs h')"

definition Publish :: "AccessUnit \<Rightarrow> 's \<Rightarrow> 's broadcaster \<Rightarrow> ('s \<times> 's broadcaster) option" where
  "Publish au s b =
     (case run_chain (interceptors b) s au of
        (s', None) \<Rightarrow> Some (s', b)
      | (s', Some au') \<Rightarrow>
          (case publish_locked au' b of
             None \<Rightarrow> Some (s', b)
           | Some b1 \<Rightarrow>
               (case fanout (selfContained b1) au' (receivers b1) (rheap b1) of
                  None \<Rightarrow> None
                | Some h \<Rightarrow> Some (s', b1\<lparr>rheap := h\<rparr>))))"

definition Close :: "'s broadcaster \<Rightarrow> 's broadcaster" where
  "Close b =
     b\<lparr>receivers := [],
       rheap := fold (\<lambda>r h. h(r := map_option close_receiver (h r))) (receivers b) (rheap b)\<rparr>"

definition LatestKeyframe :: "'s broadcaster \<Rightarrow> AccessUnit option" where
  "LatestKeyframe b = latestKeyframe b"

lemmas [step_defs] = subscribeWithCap_def Subscribe_def SubscribeWithCapacity_def Unsubscribe_def
  AddInterceptor_def remove_interceptor_def publish_locked_def Close_def SetSelfContained_def

section \<open>Receiver lemmas\<close>

definition rc_ok :: "Receiver \<Rightarrow> bool" where
  "rc_ok r \<longleftrightarrow> (rc_closed r \<longleftrightarrow> c_closed (rc_ch r)) \<and> chan_ok (rc_ch r) \<and> 1 \<le> c_cap (rc_ch r)"

abbreviation queue :: "Receiver \<Rightarrow> AccessUnit list" where
  "queue r \<equiv> c_buf (rc_ch r)"

text \<open>On a well-formed receiver \<open>deliver\<close> is the following drop policy on its queue.\<close>

definition deliver_spec :: "bool \<Rightarrow> AccessUnit \<Rightarrow> Receiver \<Rightarrow> AccessUnit list \<times> bool" where
  "deliver_spec sc au r =
     (let q = queue r; full = (length q = c_cap (rc_ch r)) in
      if rc_closed r then (q, rc_needKeyframe r)
      else if sc then ((if full then drop 1 q else q) @ [au], rc_needKeyframe r)
      else if au_Keyframe au then ((if full then drop 1 q else q) @ [au], False)
      else if rc_needKeyframe r then (q, True)
      else if full then (q, True)
      else (q @ [au], False))"

lemma chan_send_cases:
  assumes "rc_ok r" "\<not> rc_closed r"
  shows "length (queue r) < c_cap (rc_ch r) \<Longrightarrow>
      chan_send x (rc_ch r) = Sent ((rc_ch r)\<lparr>c_buf := queue r @ [x]\<rparr>)"
    and "\<not> length (queue r) < c_cap (rc_ch r) \<Longrightarrow> chan_send x (rc_ch r) = Full
      \<and> length (queue r) = c_cap (rc_ch r)
      \<and> chan_send x (chan_drop1 (rc_ch r)) = Sent ((rc_ch r)\<lparr>c_buf := drop 1 (queue r) @ [x]\<rparr>)"
  using assms by (auto simp: rc_ok_def chan_ok_def chan_send_def chan_drop1_def chan_recv_def split: list.split)

lemma deliver_refines:
  assumes "rc_ok r"
  shows "\<exists>r'. deliver sc au r = Some r' \<and> rc_ok r' \<and> rc_closed r' = rc_closed r
    \<and> c_cap (rc_ch r') = c_cap (rc_ch r) \<and> (queue r', rc_needKeyframe r') = deliver_spec sc au r"
proof (cases "rc_closed r")
  case True
  then show ?thesis using assms by (simp add: deliver_def deliver_spec_def)
next
  case False
  note send = chan_send_cases [OF assms False, of au]
  have cl: "\<not> c_closed (rc_ch r)" "1 \<le> c_cap (rc_ch r)" using assms False by (auto simp: rc_ok_def)
  show ?thesis
  proof (cases "length (queue r) < c_cap (rc_ch r)")
    case True
    then show ?thesis
      using False cl assms send(1) [OF True]
      by (simp add: deliver_def deliver_spec_def rc_ok_def chan_ok_def)
  next
    case full: False
    then show ?thesis
      using False cl assms send(2) [OF full]
      by (auto simp: deliver_def deliver_spec_def rc_ok_def chan_ok_def)
  qed
qed

lemma close_receiver_ok [intro]: "rc_ok r \<Longrightarrow> rc_ok (close_receiver r)"
  by (simp add: close_receiver_def rc_ok_def chan_ok_def)

lemma close_receiver_idem [simp]: "close_receiver (close_receiver r) = close_receiver r"
  by (simp add: close_receiver_def)

lemma close_receiver_sel [simp]:
  "rc_closed (close_receiver r)" "queue (close_receiver r) = queue r"
  by (simp_all add: close_receiver_def)

section \<open>Fanout\<close>

text \<open>Each receiver of the snapshot is delivered to exactly once and independently of the others, so
  the map iteration order of Go does not matter.\<close>

lemma fanout_eq:
  assumes "distinct rs" "\<forall>r \<in> set rs. \<exists>x. h r = Some x \<and> rc_ok x"
  shows "\<exists>h'. fanout sc au rs h = Some h' \<and>
    (\<forall>r. h' r = (if r \<in> set rs then deliver sc au (the (h r)) else h r))"
  using assms
proof (induction rs arbitrary: h)
  case (Cons r rs)
  then obtain x where x: "h r = Some x" "rc_ok x" by auto
  then obtain x' where x': "deliver sc au x = Some x'" using deliver_refines by blast
  have "distinct rs" "\<forall>q \<in> set rs. \<exists>y. (h(r := Some x')) q = Some y \<and> rc_ok y" using Cons.prems by auto
  from Cons.IH [OF this] obtain h' where h': "fanout sc au rs (h(r := Some x')) = Some h'"
    "\<forall>q. h' q = (if q \<in> set rs then deliver sc au (the ((h(r := Some x')) q)) else (h(r := Some x')) q)"
    by blast
  have "h' q = (if q \<in> set (r # rs) then deliver sc au (the (h q)) else h q)" for q
    using h'(2) [rule_format, of q] Cons.prems(1) x x' by auto
  then show ?case using h'(1) x x' by (simp add: deliver_to_def)
qed simp

lemma fanout_perm:
  assumes "distinct rs" "\<forall>r \<in> set rs. \<exists>x. h r = Some x \<and> rc_ok x" "mset rs' = mset rs"
  shows "fanout sc au rs' h = fanout sc au rs h"
proof -
  have "set rs' = set rs" "distinct rs'" using assms(1,3) by (metis mset_eq_setD, metis mset_eq_imp_distinct_iff)
  moreover obtain h1 where h1: "fanout sc au rs h = Some h1"
    "\<forall>r. h1 r = (if r \<in> set rs then deliver sc au (the (h r)) else h r)"
    using fanout_eq [OF assms(1,2)] by blast
  moreover obtain h2 where h2: "fanout sc au rs' h = Some h2"
    "\<forall>r. h2 r = (if r \<in> set rs' then deliver sc au (the (h r)) else h r)"
    using fanout_eq [of rs' h] calculation(1,2) assms(2) by metis
  ultimately show ?thesis by (simp add: fun_eq_iff)
qed

section \<open>Splicing\<close>

abbreviation seq_table :: "AccessUnit list \<Rightarrow> (32 word \<times> AccessUnit) list" where
  "seq_table aus \<equiv> fold (\<lambda>au m. AList.update (au_Seq au) au m) aus []"

lemma seq_table_props:
  shows "distinct (map fst (seq_table aus))"
    and "map_of (seq_table aus) = map_of (rev (map (\<lambda>au. (au_Seq au, au)) aus))"
proof (induction aus rule: rev_induct)
  case (snoc x xs)
  case 1
  have "distinct (map fst (AList.update (au_Seq x) x (seq_table xs)))"
    using snoc(1) by (rule distinct_update)
  then show ?case by (simp only: fold_append fold_simps comp_def id_def)
next
  case (snoc x xs)
  case 2
  have "map_of (AList.update (au_Seq x) x (seq_table xs)) = map_of (rev (map (\<lambda>au. (au_Seq au, au)) (xs @ [x])))"
    using snoc(2) by (simp only: update_conv') simp
  then show ?case by (simp only: fold_append fold_simps comp_def id_def)
qed simp_all

lemma seq_table_values:
  "(k, v) \<in> set (seq_table aus) \<longleftrightarrow> map_of (rev (map (\<lambda>au. (au_Seq au, au)) aus)) k = Some v"
  unfolding seq_table_props(2) [symmetric] by (rule map_of_eq_Some_iff [OF seq_table_props(1), symmetric])

lemma map_of_rev_seq:
  "map_of (rev (map (\<lambda>au. (au_Seq au, au)) aus)) k = Some v \<Longrightarrow> v \<in> set aus \<and> au_Seq v = k"
  by (drule map_of_SomeD) auto

lemma own_key: "(\<And>k. f k = Some v \<Longrightarrow> g v = k) \<Longrightarrow> (\<exists>k. f k = Some v) \<longleftrightarrow> f (g v) = Some v"
  by auto

lemma merge_by_seq_set:
  "v \<in> set (merge_by_seq pre cur) \<longleftrightarrow>
     map_of (rev (map (\<lambda>au. (au_Seq au, au)) (pre @ cur))) (au_Seq v) = Some v"
proof -
  have "v \<in> set (merge_by_seq pre cur) \<longleftrightarrow> v \<in> snd ` set (seq_table (pre @ cur))"
    by (simp only: merge_by_seq_def set_sort set_map)
  also have "\<dots> \<longleftrightarrow> (\<exists>k. (k, v) \<in> set (seq_table (pre @ cur)))"
    by (simp only: image_iff Bex_def split_paired_Ex snd_conv) blast
  also have "\<dots> \<longleftrightarrow> (\<exists>k. map_of (rev (map (\<lambda>au. (au_Seq au, au)) (pre @ cur))) k = Some v)"
    by (simp only: seq_table_values)
  also have "\<dots> \<longleftrightarrow> map_of (rev (map (\<lambda>au. (au_Seq au, au)) (pre @ cur))) (au_Seq v) = Some v"
    by (rule own_key) (rule map_of_rev_seq [THEN conjunct2])
  finally show ?thesis .
qed

lemma merge_by_seq_sorted:
  "sorted (map au_Seq (merge_by_seq pre cur))" "distinct (map au_Seq (merge_by_seq pre cur))"
proof -
  show "sorted (map au_Seq (merge_by_seq pre cur))" by (simp add: merge_by_seq_def)
  define t where "t = seq_table (pre @ cur)"
  have "au_Seq (snd p) = fst p" if "p \<in> set t" for p
    using that seq_table_values [of "fst p" "snd p" "pre @ cur"] map_of_rev_seq [of "pre @ cur" "fst p" "snd p"]
    by (simp add: t_def)
  then have "map au_Seq (map snd t) = map fst t" by simp
  then have "distinct (map au_Seq (map snd t))" using seq_table_props(1) [of "pre @ cur"] by (simp only: t_def)
  moreover have "mset (map au_Seq (merge_by_seq pre cur)) = mset (map au_Seq (map snd t))"
    by (simp only: merge_by_seq_def t_def mset_map mset_sort)
  ultimately show "distinct (map au_Seq (merge_by_seq pre cur))" using mset_eq_imp_distinct_iff by blast
qed

lemma map_of_rev_seq_ex:
  "x \<in> set aus \<Longrightarrow> \<exists>v. map_of (rev (map (\<lambda>au. (au_Seq au, au)) aus)) (au_Seq x) = Some v"
  by (induction aus) (auto simp: map_add_def split: option.split)

lemma merge_by_seq_subset: "set (merge_by_seq pre cur) \<subseteq> set pre \<union> set cur"
proof
  fix v assume "v \<in> set (merge_by_seq pre cur)"
  then have "v \<in> set (pre @ cur)" unfolding merge_by_seq_set by (rule map_of_rev_seq [THEN conjunct1])
  then show "v \<in> set pre \<union> set cur" by simp
qed

lemma merge_by_seq_cover: "au_Seq ` set (merge_by_seq pre cur) = au_Seq ` (set pre \<union> set cur)"
proof (intro equalityI subsetI)
  fix k assume "k \<in> au_Seq ` (set pre \<union> set cur)"
  then obtain x where x: "x \<in> set (pre @ cur)" "k = au_Seq x" by auto
  then obtain v where "map_of (rev (map (\<lambda>au. (au_Seq au, au)) (pre @ cur))) (au_Seq x) = Some v"
    using map_of_rev_seq_ex by blast
  moreover from this have "au_Seq v = au_Seq x" using map_of_rev_seq by blast
  ultimately show "k \<in> au_Seq ` set (merge_by_seq pre cur)"
    using merge_by_seq_set [of v pre cur] x(2) by (metis image_eqI)
qed (use merge_by_seq_subset [of pre cur] in auto)

lemma merge_by_seq_current_wins:
  assumes "au \<in> set (merge_by_seq pre cur)" "au_Seq au \<in> au_Seq ` set cur"
  shows "au \<in> set cur"
proof -
  obtain x where "x \<in> set cur" "au_Seq au = au_Seq x" using assms(2) by blast
  then obtain v where v: "map_of (rev (map (\<lambda>au. (au_Seq au, au)) cur)) (au_Seq au) = Some v"
    using map_of_rev_seq_ex [of x cur] by auto
  have "map_of (rev (map (\<lambda>au. (au_Seq au, au)) (pre @ cur))) (au_Seq au) = Some v"
    using v by (simp add: map_add_def)
  moreover have "map_of (rev (map (\<lambda>au. (au_Seq au, au)) (pre @ cur))) (au_Seq au) = Some au"
    using assms(1) by (simp only: merge_by_seq_set)
  ultimately have "v = au" by simp
  then show ?thesis using map_of_rev_seq [OF v] by simp
qed

lemma splice_refill_eq:
  assumes "\<not> c_closed c" "1 \<le> c_cap c" "chan_ok c"
  shows "splice_refill aus c
    = Some (c\<lparr>c_buf := drop (length (c_buf c @ aus) - c_cap c) (c_buf c @ aus)\<rparr>, False)"
  using assms
proof (induction aus arbitrary: c)
  case Nil
  then show ?case by (simp add: chan_ok_def)
next
  case (Cons au aus)
  show ?case
  proof (cases "length (c_buf c) < c_cap c")
    case True
    then show ?thesis using Cons.prems Cons.IH [of "c\<lparr>c_buf := c_buf c @ [au]\<rparr>"]
      by (simp add: chan_send_def chan_ok_def)
  next
    case False
    then obtain x xs where x: "c_buf c = x # xs" "length xs + 1 = c_cap c"
      using Cons.prems by (cases "c_buf c") (auto simp: chan_ok_def)
    then show ?thesis using Cons.prems Cons.IH [of "c\<lparr>c_buf := xs @ [au]\<rparr>"]
      by (simp add: chan_send_def chan_ok_def chan_drop1_def chan_recv_def Suc_diff_le)
  qed
qed

lemma SpliceFront_eq:
  assumes "rc_ok r" "\<not> rc_closed r" "pre \<noteq> []"
  defines "m \<equiv> merge_by_seq pre (queue r)"
  shows "SpliceFront pre r = Some (r\<lparr>rc_ch := (rc_ch r)\<lparr>c_buf := drop (length m - c_cap (rc_ch r)) m\<rparr>\<rparr>)"
proof -
  have "splice_refill m ((rc_ch r)\<lparr>c_buf := []\<rparr>)
      = Some ((rc_ch r)\<lparr>c_buf := drop (length m - c_cap (rc_ch r)) m\<rparr>, False)"
    using splice_refill_eq [of "(rc_ch r)\<lparr>c_buf := []\<rparr>" m] assms(1,2) by (simp add: rc_ok_def chan_ok_def)
  then show ?thesis using assms by (simp add: SpliceFront_def m_def)
qed

lemma SpliceFront_ok: "rc_ok r \<Longrightarrow> \<exists>r'. SpliceFront pre r = Some r' \<and> rc_ok r' \<and> rc_closed r' = rc_closed r"
proof (cases "rc_closed r \<or> pre = []")
  case False
  assume "rc_ok r"
  then show ?thesis using False SpliceFront_eq [of r pre] by (auto simp: rc_ok_def chan_ok_def)
qed (auto simp: SpliceFront_def)

section \<open>Broadcaster invariant\<close>

text \<open>Subscribed receivers are open, all others closed; every receiver's flag agrees with its channel
  and its queue respects the capacity; the replay ring is well formed; the cache holds a keyframe.\<close>

definition heap_inv :: "rid list \<Rightarrow> rid \<Rightarrow> (rid \<Rightarrow> Receiver option) \<Rightarrow> bool" where
  "heap_inv rs n h \<longleftrightarrow>
     distinct rs \<and> (\<forall>r \<in> set rs. \<exists>x. h r = Some x \<and> \<not> rc_closed x)
   \<and> (\<forall>r x. h r = Some x \<longrightarrow> rc_ok x \<and> r < n \<and> (r \<notin> set rs \<longrightarrow> rc_closed x))"

definition ring_ok :: "'a replay_ring_scheme \<Rightarrow> bool" where
  "ring_ok b \<longleftrightarrow> ring_inv b \<and> fits (replayCap b) (replayMaxBytes b) (replaySnapshotLocked b)"

lemma ring_ok_cong:
  "replayBuf b = replayBuf c \<Longrightarrow> replayHead b = replayHead c \<Longrightarrow> replayCap b = replayCap c \<Longrightarrow>
   replayBytes b = replayBytes c \<Longrightarrow> replayMaxBytes b = replayMaxBytes c \<Longrightarrow> ring_ok b = ring_ok c"
  by (simp add: ring_ok_def ring_inv_def replaySnapshotLocked_def Let_def)

lemma ring_ok_more [simp]:
  fixes b :: "'s broadcaster"
  shows "ring_ok (b\<lparr>receivers := x1\<rparr>) = ring_ok b" "ring_ok (b\<lparr>rheap := x2\<rparr>) = ring_ok b"
    "ring_ok (b\<lparr>next_rid := x3\<rparr>) = ring_ok b" "ring_ok (b\<lparr>latestKeyframe := x4\<rparr>) = ring_ok b"
    "ring_ok (b\<lparr>selfContained := x5\<rparr>) = ring_ok b" "ring_ok (b\<lparr>interceptors := x6\<rparr>) = ring_ok b"
    "ring_ok (b\<lparr>nextInterceptorID := x7\<rparr>) = ring_ok b" "ring_ok (b\<lparr>interceptorIDs := x8\<rparr>) = ring_ok b"
  by (rule ring_ok_cong; simp)+

lemma ring_ok_exec: "ring_ok b \<Longrightarrow> ring_ok (ring_exec op b)"
  using ring_exec_step [of b op] by (simp add: ring_ok_def)

definition b_inv :: "'s broadcaster \<Rightarrow> bool" where
  "b_inv b \<longleftrightarrow>
     heap_inv (receivers b) (next_rid b) (rheap b)
   \<and> 1 \<le> chanSize b \<and> ring_ok b
   \<and> length (interceptorIDs b) = length (interceptors b)
   \<and> (\<forall>k. latestKeyframe b = Some k \<longrightarrow> au_Keyframe k)"

lemma heap_inv_someD:
  "heap_inv rs n h \<Longrightarrow> h r = Some x \<Longrightarrow> rc_ok x \<and> r < n \<and> (r \<notin> set rs \<longrightarrow> rc_closed x)"
  by (simp add: heap_inv_def)

lemma heap_inv_openD:
  assumes "heap_inv rs n h" "r \<in> set rs"
  shows "\<exists>x. h r = Some x \<and> rc_ok x \<and> \<not> rc_closed x \<and> r < n"
proof -
  from assms obtain x where "h r = Some x" "\<not> rc_closed x" by (auto simp: heap_inv_def)
  then show ?thesis using heap_inv_someD [OF assms(1)] by blast
qed

lemma heap_inv_subscribe:
  assumes "heap_inv rs n h" "rc_ok x" "\<not> rc_closed x"
  shows "heap_inv (rs @ [n]) (Suc n) (h(n := Some x))"
proof -
  have "n \<notin> set rs" using heap_inv_openD [OF assms(1)] by auto
  then show ?thesis using assms unfolding heap_inv_def by (auto simp: less_Suc_eq)
qed

lemma heap_inv_close:
  assumes "heap_inv rs n h"
  shows "heap_inv (filter (\<lambda>x. x \<noteq> r) rs) n (h(r := map_option close_receiver (h r)))"
  using assms unfolding heap_inv_def by auto

lemma heap_inv_update:
  assumes "heap_inv rs n h" "h r = Some x" "rc_ok y" "rc_closed y = rc_closed x"
  shows "heap_inv rs n (h(r := Some y))"
  using assms unfolding heap_inv_def by auto

lemma heap_inv_fanout:
  assumes "heap_inv rs n h"
  shows "\<exists>h'. fanout sc au rs h = Some h' \<and> heap_inv rs n h'
    \<and> (\<forall>r. h' r = (if r \<in> set rs then deliver sc au (the (h r)) else h r))"
proof -
  have ok: "\<forall>r \<in> set rs. \<exists>x. h r = Some x \<and> rc_ok x" "distinct rs"
    using heap_inv_openD [OF assms] assms by (auto simp: heap_inv_def)
  from fanout_eq [OF ok(2,1)] obtain h' where h': "fanout sc au rs h = Some h'"
    "\<forall>r. h' r = (if r \<in> set rs then deliver sc au (the (h r)) else h r)"
    by blast
  have A: "\<exists>y. h' r = Some y \<and> rc_ok y \<and> \<not> rc_closed y" if r: "r \<in> set rs" for r
  proof -
    obtain x where x: "h r = Some x" "rc_ok x" "\<not> rc_closed x" using heap_inv_openD [OF assms r] by auto
    have "h' r = deliver sc au x" using h'(2) [rule_format, of r] r x(1) by simp
    then show ?thesis using deliver_refines [OF x(2), of sc au] x(3) by auto
  qed
  have "rc_ok x \<and> r < n \<and> (r \<notin> set rs \<longrightarrow> rc_closed x)" if x: "h' r = Some x" for r x
  proof (cases "r \<in> set rs")
    case True
    then have "r < n" using heap_inv_openD [OF assms True] by auto
    then show ?thesis using A [OF True] x True by auto
  next
    case False
    then have "h r = Some x" using h'(2) [rule_format, of r] x by simp
    then show ?thesis by (rule heap_inv_someD [OF assms])
  qed
  then have "heap_inv rs n h'" using A ok(2) unfolding heap_inv_def by blast
  then show ?thesis using h' by blast
qed

text \<open>\<open>Close\<close> closes the receivers one after the other.\<close>

lemma heap_inv_close_all:
  assumes "heap_inv rs n h"
  shows "heap_inv [] n (fold (\<lambda>r h. h(r := map_option close_receiver (h r))) rs h)"
  using assms
proof (induction rs arbitrary: h)
  case (Cons r rs)
  have "filter (\<lambda>x. x \<noteq> r) (r # rs) = rs"
    using Cons.prems by (auto simp: heap_inv_def filter_id_conv)
  then have "heap_inv rs n (h(r := map_option close_receiver (h r)))"
    using heap_inv_close [OF Cons.prems, of r] by simp
  from Cons.IH [OF this] show ?case by (simp only: fold_simps)
qed simp

lemma b_inv_New: "b_inv (NewBroadcasterWithBytes n m)"
  by (auto simp: b_inv_def heap_inv_def NewBroadcasterWithBytes_def ring_ok_def ring_inv_def fits_def
      replaySnapshotLocked_def DefaultReplayCap_def)

lemma b_inv_subscribe:
  assumes "b_inv b" "1 \<le> n"
  shows "b_inv (snd (subscribeWithCap n b))"
proof -
  define x where "x = (case latestKeyframe b of
       Some k \<Rightarrow> \<lparr>rc_ch = (make_chan n)\<lparr>c_buf := [k]\<rparr>, rc_closed = False, rc_needKeyframe = False\<rparr>
     | None \<Rightarrow> \<lparr>rc_ch = make_chan n, rc_closed = False, rc_needKeyframe = \<not> selfContained b\<rparr>)"
  have "rc_ok x" "\<not> rc_closed x"
    using assms(2) by (auto simp: x_def rc_ok_def chan_ok_def split: option.split)
  then have "heap_inv (receivers b @ [next_rid b]) (Suc (next_rid b)) ((rheap b)(next_rid b := Some x))"
    using heap_inv_subscribe assms(1) unfolding b_inv_def by blast
  then show ?thesis
    using assms(1) unfolding subscribeWithCap_def Let_def x_def [symmetric]
    by (simp add: b_inv_def)
qed

section \<open>Sequences of operations\<close>

text \<open>Everything a publisher, a session or a server does to a broadcaster. \<open>OpRecv\<close> is the consumer
  taking one AU from its channel. \<open>None\<close> is a panic.\<close>

datatype 's bc_op =
    OpSubscribe
  | OpSubscribeWithCapacity int
  | OpPublish AccessUnit
  | OpUnsubscribe rid
  | OpClose
  | OpRecv rid
  | OpRequestKeyframe rid
  | OpSplice rid "AccessUnit list"
  | OpSetSelfContained bool
  | OpAddInterceptor "'s Interceptor option"
  | OpRemoveInterceptor "64 word option"
  | OpSetReplayCap int
  | OpSetReplayMaxBytes int

definition on_receiver ::
    "(Receiver \<Rightarrow> Receiver option) \<Rightarrow> rid \<Rightarrow> 's broadcaster \<Rightarrow> 's broadcaster option" where
  "on_receiver f r b =
     (case rheap b r of
        None \<Rightarrow> Some b
      | Some x \<Rightarrow> (case f x of None \<Rightarrow> None | Some y \<Rightarrow> Some (b\<lparr>rheap := (rheap b)(r := Some y)\<rparr>)))"

fun bc_exec :: "'s bc_op \<Rightarrow> 's \<times> 's broadcaster \<Rightarrow> ('s \<times> 's broadcaster) option" where
  "bc_exec OpSubscribe (s, b) = Some (s, snd (Subscribe b))"
| "bc_exec (OpSubscribeWithCapacity n) (s, b) = Some (s, snd (SubscribeWithCapacity n b))"
| "bc_exec (OpPublish au) (s, b) = Publish au s b"
| "bc_exec (OpUnsubscribe r) (s, b) = Some (s, Unsubscribe r b)"
| "bc_exec OpClose (s, b) = Some (s, Close b)"
| "bc_exec (OpRecv r) (s, b) =
     map_option (Pair s) (on_receiver (\<lambda>x. Some (x\<lparr>rc_ch := chan_drop1 (rc_ch x)\<rparr>)) r b)"
| "bc_exec (OpRequestKeyframe r) (s, b) =
     map_option (Pair s) (on_receiver (\<lambda>x. Some (Receiver_RequestKeyframe x)) r b)"
| "bc_exec (OpSplice r pre) (s, b) = map_option (Pair s) (on_receiver (SpliceFront pre) r b)"
| "bc_exec (OpSetSelfContained v) (s, b) = Some (s, SetSelfContained v b)"
| "bc_exec (OpAddInterceptor f) (s, b) = Some (s, snd (AddInterceptor f b))"
| "bc_exec (OpRemoveInterceptor i) (s, b) = Some (s, remove_interceptor i b)"
| "bc_exec (OpSetReplayCap n) (s, b) = Some (s, SetReplayCap n b)"
| "bc_exec (OpSetReplayMaxBytes n) (s, b) = Some (s, SetReplayMaxBytes n b)"

lemma drop_interceptor_length:
  "length js = length fs \<Longrightarrow>
     length (fst (drop_interceptor i js fs)) = length (snd (drop_interceptor i js fs))"
  by (induction i js fs rule: drop_interceptor.induct) (auto simp: Let_def split: prod.split)

lemma on_receiver_inv:
  assumes "b_inv b" "\<And>x. rc_ok x \<Longrightarrow> \<exists>y. f x = Some y \<and> rc_ok y \<and> rc_closed y = rc_closed x"
  shows "\<exists>b'. on_receiver f r b = Some b' \<and> b_inv b'"
proof (cases "rheap b r")
  case None
  then show ?thesis using assms(1) by (simp add: on_receiver_def)
next
  case (Some x)
  have h: "heap_inv (receivers b) (next_rid b) (rheap b)" using assms(1) by (simp add: b_inv_def)
  then obtain y where y: "f x = Some y" "rc_ok y" "rc_closed y = rc_closed x"
    using heap_inv_someD [OF h Some] assms(2) by blast
  then show ?thesis using Some heap_inv_update [OF h Some y(2,3)] assms(1)
    by (simp add: on_receiver_def b_inv_def)
qed

lemma ring_frame_fields:
  fixes b :: "'s broadcaster"
  assumes "replay_ring.more c = replay_ring.more b"
  shows "receivers c = receivers b" "rheap c = rheap b" "next_rid c = next_rid b"
    "latestKeyframe c = latestKeyframe b" "chanSize c = chanSize b" "maxAUBytes c = maxAUBytes b"
    "selfContained c = selfContained b" "interceptors c = interceptors b"
    "nextInterceptorID c = nextInterceptorID b" "interceptorIDs c = interceptorIDs b"
  using assms by (cases b, cases c, simp)+

lemma publish_locked_inv:
  assumes "b_inv b" "publish_locked au b = Some b1"
  shows "b_inv b1" "receivers b1 = receivers b" "rheap b1 = rheap b" "selfContained b1 = selfContained b"
proof -
  define b0 where "b0 = (if au_Keyframe au then b\<lparr>latestKeyframe := Some au\<rparr> else b)"
  have b1: "b1 = replayAppendLocked au b0"
    using assms(2) by (simp add: publish_locked_def b0_def Let_def split: if_splits)
  have b0: "b_inv b0" "receivers b0 = receivers b" "rheap b0 = rheap b" "selfContained b0 = selfContained b"
    using assms(1) by (auto simp: b0_def b_inv_def)
  have "ring_ok b1" using ring_ok_exec [of b0 "RAppend au"] b0(1) b1 by (simp add: b_inv_def)
  then show "b_inv b1" "receivers b1 = receivers b" "rheap b1 = rheap b" "selfContained b1 = selfContained b"
    using b0 b1 ring_frame_fields [OF append_more, of au b0] by (simp_all add: b_inv_def)
qed

lemma Publish_inv:
  assumes "b_inv b"
  shows "\<exists>s' b'. Publish au s b = Some (s', b') \<and> b_inv b'"
proof -
  obtain s' r where c: "run_chain (interceptors b) s au = (s', r)" by fastforce
  show ?thesis
  proof (cases "\<exists>au' b1. r = Some au' \<and> publish_locked au' b = Some b1")
    case False
    then show ?thesis using assms c by (cases r) (auto simp: Publish_def)
  next
    case True
    then obtain au' b1 where b1: "r = Some au'" "publish_locked au' b = Some b1" by blast
    note b1_inv = publish_locked_inv [OF assms b1(2)]
    then obtain h where "fanout (selfContained b1) au' (receivers b1) (rheap b1) = Some h"
      "heap_inv (receivers b1) (next_rid b1) h"
      using heap_inv_fanout unfolding b_inv_def by blast
    then show ?thesis using c b1 b1_inv(1) by (simp add: Publish_def b_inv_def)
  qed
qed

lemma b_inv_Subscribe: "b_inv b \<Longrightarrow> b_inv (snd (Subscribe b))"
  unfolding Subscribe_def by (rule b_inv_subscribe) (simp_all add: b_inv_def)

lemma b_inv_SubscribeWithCapacity: "b_inv b \<Longrightarrow> b_inv (snd (SubscribeWithCapacity n b))"
proof -
  assume "b_inv b"
  moreover from this have "1 \<le> nat (if n < int (chanSize b) then int (chanSize b) else n)"
    by (simp add: b_inv_def) linarith
  ultimately show ?thesis unfolding SubscribeWithCapacity_def Let_def by (rule b_inv_subscribe)
qed

lemma b_inv_close:
  assumes "b_inv b"
  shows "b_inv (Unsubscribe r b)" "b_inv (Close b)"
proof -
  have h: "heap_inv (receivers b) (next_rid b) (rheap b)" using assms by (simp add: b_inv_def)
  show "b_inv (Unsubscribe r b)"
    using heap_inv_close [OF h, of r] assms by (simp add: Unsubscribe_def b_inv_def)
  show "b_inv (Close b)"
    using heap_inv_close_all [OF h] assms unfolding Close_def b_inv_def
    by (simp del: fun_upd_apply)
qed

lemma b_inv_ring_config:
  assumes "b_inv b"
  shows "b_inv (SetReplayCap c b)" "b_inv (SetReplayMaxBytes n b)"
  using assms ring_ok_exec [of b "RSetCap c"] ring_ok_exec [of b "RSetMaxBytes n"]
    ring_frame_fields [OF SetReplayCap_more, of c b] ring_frame_fields [OF SetReplayMaxBytes_more, of n b]
  by (simp_all add: b_inv_def)

lemma b_inv_interceptors:
  assumes "b_inv b"
  shows "b_inv (snd (AddInterceptor f b))" "b_inv (remove_interceptor i b)"
  using assms drop_interceptor_length [of "interceptorIDs b" "interceptors b"]
  by (auto simp: AddInterceptor_def remove_interceptor_def b_inv_def Let_def split: option.split prod.split)
     (metis fst_conv snd_conv)

lemma bc_exec_inv:
  assumes "b_inv b"
  shows "\<exists>s' b'. bc_exec op (s, b) = Some (s', b') \<and> b_inv b'"
proof (cases op)
  case (OpPublish au)
  then show ?thesis using Publish_inv [OF assms] by simp
next
  case (OpRecv r)
  have "\<exists>b'. on_receiver (\<lambda>x. Some (x\<lparr>rc_ch := chan_drop1 (rc_ch x)\<rparr>)) r b = Some b' \<and> b_inv b'"
    by (rule on_receiver_inv [OF assms]) (auto simp: rc_ok_def chan_ok_def)
  then show ?thesis using OpRecv by auto
next
  case (OpRequestKeyframe r)
  have "\<exists>b'. on_receiver (\<lambda>x. Some (Receiver_RequestKeyframe x)) r b = Some b' \<and> b_inv b'"
    by (rule on_receiver_inv [OF assms]) (auto simp: rc_ok_def Receiver_RequestKeyframe_def)
  then show ?thesis using OpRequestKeyframe by auto
next
  case (OpSplice r pre)
  have "\<exists>b'. on_receiver (SpliceFront pre) r b = Some b' \<and> b_inv b'"
    by (rule on_receiver_inv [OF assms]) (rule SpliceFront_ok)
  then show ?thesis using OpSplice by auto
qed (use assms in \<open>auto simp: b_inv_Subscribe b_inv_SubscribeWithCapacity b_inv_close b_inv_ring_config
    b_inv_interceptors SetSelfContained_def b_inv_def [of "_\<lparr>selfContained := _\<rparr>"] dest: b_inv_def [THEN iffD1]\<close>)

interpretation bc: transition_system
  "\<lambda>st. \<exists>n m. snd st = NewBroadcasterWithBytes n m"
  "\<lambda>st op st'. bc_exec op st = Some st'" "\<lambda>st. b_inv (snd st)"
proof (unfold_locales, goal_cases)
  case (1 s)
  then show ?case using b_inv_New by auto
next
  case (2 s l s')
  then show ?case using bc_exec_inv [of "snd s" l "fst s"] by auto
qed

section \<open>The drop policy over time\<close>

text \<open>One video receiver over time: AUs published to it, its consumer receiving, keyframes being
  requested. The log says for each published AU whether it was enqueued.\<close>

datatype rx_event = RxPublish AccessUnit | RxRecv | RxRequest

definition accepts :: "Receiver \<Rightarrow> AccessUnit \<Rightarrow> bool" where
  "accepts r au \<longleftrightarrow>
     \<not> rc_closed r \<and> (au_Keyframe au \<or> \<not> rc_needKeyframe r \<and> length (queue r) < c_cap (rc_ch r))"

fun rx_log :: "Receiver \<Rightarrow> rx_event list \<Rightarrow> (AccessUnit \<times> bool) list option" where
  "rx_log r [] = Some []"
| "rx_log r (RxPublish au # es) =
     (case deliver False au r of
        None \<Rightarrow> None
      | Some r' \<Rightarrow> map_option (Cons (au, accepts r au)) (rx_log r' es))"
| "rx_log r (RxRecv # es) = rx_log (r\<lparr>rc_ch := chan_drop1 (rc_ch r)\<rparr>) es"
| "rx_log r (RxRequest # es) = rx_log (Receiver_RequestKeyframe r) es"

text \<open>An enqueued P-frame directly follows an enqueued frame.\<close>

fun gated :: "bool \<Rightarrow> (AccessUnit \<times> bool) list \<Rightarrow> bool" where
  "gated prev [] = True"
| "gated prev ((au, acc) # l) = ((acc \<longrightarrow> au_Keyframe au \<or> prev) \<and> gated acc l)"

lemma deliver_accepts:
  assumes "rc_ok r" "\<not> rc_closed r" "deliver False au r = Some r'"
  shows "rc_ok r'" "\<not> rc_closed r'" "rc_needKeyframe r' \<longleftrightarrow> \<not> accepts r au"
    "queue r' = (if accepts r au then (if length (queue r) = c_cap (rc_ch r) then drop 1 (queue r) else queue r) @ [au]
                 else queue r)"
  using deliver_refines [OF assms(1), of False au] assms
  by (auto simp: deliver_spec_def accepts_def rc_ok_def chan_ok_def Let_def split: if_splits)

lemma rx_log_gated:
  assumes "rc_ok r" "\<not> rc_closed r" "rc_needKeyframe r \<or> prev"
  shows "\<exists>l. rx_log r es = Some l \<and> gated prev l"
  using assms
proof (induction r es arbitrary: prev rule: rx_log.induct)
  case (2 r au es)
  then obtain r' where r': "deliver False au r = Some r'" using deliver_refines by blast
  note d = deliver_accepts [OF 2(2,3) r']
  obtain l where "rx_log r' es = Some l" "gated (accepts r au) l"
    using 2(1) [OF r' d(1,2), of "accepts r au"] d(3) by auto
  moreover have "accepts r au \<longrightarrow> au_Keyframe au \<or> prev" using 2(4) by (auto simp: accepts_def)
  ultimately show ?case using r' by simp
next
  case (3 r es)
  then show ?case by (auto simp: rc_ok_def chan_ok_def)
next
  case (4 r es)
  then show ?case by (auto simp: rc_ok_def Receiver_RequestKeyframe_def)
qed simp

text \<open>What the chain and the size cap let through.\<close>

definition admitted :: "AccessUnit \<Rightarrow> 's \<Rightarrow> 's broadcaster \<Rightarrow> AccessUnit option" where
  "admitted au s b =
     (case snd (run_chain (interceptors b) s au) of
        None \<Rightarrow> None
      | Some au' \<Rightarrow> if maxAUBytes b > 0 \<and> au_size au' > maxAUBytes b then None else Some au')"

lemma Publish_cases:
  assumes "b_inv b" "Publish au s b = Some (s', b')"
  shows "case admitted au s b of
      None \<Rightarrow> b' = b
    | Some au' \<Rightarrow>
        receivers b' = receivers b \<and>
        latestKeyframe b' = (if au_Keyframe au' then Some au' else latestKeyframe b) \<and>
        replaySnapshotLocked b' = fifo_push (replayCap b) (replayMaxBytes b) au' (replaySnapshotLocked b) \<and>
        (\<forall>r. rheap b' r = (if r \<in> set (receivers b) then deliver (selfContained b) au' (the (rheap b r)) else rheap b r))"
proof -
  obtain t r where c: "run_chain (interceptors b) s au = (t, r)" by fastforce
  show ?thesis
  proof (cases "admitted au s b")
    case None
    then show ?thesis using c assms(2)
      by (auto simp: admitted_def Publish_def publish_locked_def split: option.splits if_splits)
  next
    case (Some au')
    define b0 where "b0 = (if au_Keyframe au' then b\<lparr>latestKeyframe := Some au'\<rparr> else b)"
    define b1 where "b1 = replayAppendLocked au' b0"
    have r: "r = Some au'" "publish_locked au' b = Some b1"
      using Some c by (auto simp: admitted_def publish_locked_def b1_def b0_def split: option.splits if_splits)
    note inv = publish_locked_inv [OF assms(1) r(2)]
    obtain h where h: "fanout (selfContained b) au' (receivers b) (rheap b) = Some h"
      "\<forall>r. h r = (if r \<in> set (receivers b) then deliver (selfContained b) au' (the (rheap b r)) else rheap b r)"
      using heap_inv_fanout assms(1) unfolding b_inv_def by blast
    then have b': "b' = b1\<lparr>rheap := h\<rparr>" using assms(2) c r inv(2-4) by (simp add: Publish_def)
    have "ring_inv b0" "replaySnapshotLocked b0 = replaySnapshotLocked b"
      "replayCap b0 = replayCap b" "replayMaxBytes b0 = replayMaxBytes b"
      using assms(1) by (auto simp: b0_def b_inv_def ring_ok_def ring_inv_def replaySnapshotLocked_def Let_def)
    moreover have "replaySnapshotLocked b' = replaySnapshotLocked b1"
      by (simp add: b' replaySnapshotLocked_def Let_def)
    moreover have "latestKeyframe b1 = latestKeyframe b0"
      using ring_frame_fields [OF append_more, of au' b0] by (simp add: b1_def)
    ultimately show ?thesis
      using Some h(2) inv(2) append_ring [of b0 au'] by (simp add: b' b1_def b0_def)
  qed
qed

section \<open>Publishing sequences and late joiners\<close>

fun publish_all :: "AccessUnit list \<Rightarrow> 's \<times> 's broadcaster \<Rightarrow> (AccessUnit list \<times> 's \<times> 's broadcaster) option" where
  "publish_all [] (s, b) = Some ([], s, b)"
| "publish_all (au # aus) (s, b) =
     (case Publish au s b of
        None \<Rightarrow> None
      | Some (s1, b1) \<Rightarrow>
          (case publish_all aus (s1, b1) of
             None \<Rightarrow> None
           | Some (adm, st) \<Rightarrow> Some (case admitted au s b of None \<Rightarrow> adm | Some a \<Rightarrow> a # adm, st)))"

definition last_keyframe :: "AccessUnit option \<Rightarrow> AccessUnit list \<Rightarrow> AccessUnit option" where
  "last_keyframe k0 aus = foldl (\<lambda>k au. if au_Keyframe au then Some au else k) k0 aus"

lemma Publish_frame:
  assumes "b_inv b" "Publish au s b = Some (s', b')"
  shows "b_inv b' \<and> selfContained b' = selfContained b"
proof -
  have "b_inv b'" using Publish_inv [OF assms(1), of au s] assms(2) by auto
  moreover have "selfContained b' = selfContained b"
    using assms publish_locked_inv(4) [OF assms(1)]
    by (fastforce simp: Publish_def split: prod.splits option.splits)
  ultimately show ?thesis by simp
qed

lemma publish_all_keyframe:
  assumes "b_inv b"
  shows "\<exists>adm s' b'. publish_all aus (s, b) = Some (adm, s', b') \<and> b_inv b' \<and>
    latestKeyframe b' = last_keyframe (latestKeyframe b) adm \<and> selfContained b' = selfContained b"
  using assms
proof (induction aus arbitrary: s b)
  case Nil
  then show ?case by (simp add: last_keyframe_def)
next
  case (Cons au aus)
  obtain s1 b1 where p: "Publish au s b = Some (s1, b1)" using Publish_inv [OF Cons.prems] by blast
  note f = Publish_frame [OF Cons.prems p] and c = Publish_cases [OF Cons.prems p]
  obtain adm s' b' where IH: "publish_all aus (s1, b1) = Some (adm, s', b')" "b_inv b'"
    "latestKeyframe b' = last_keyframe (latestKeyframe b1) adm" "selfContained b' = selfContained b1"
    using Cons.IH f by blast
  then show ?case using p f c by (cases "admitted au s b") (simp_all add: last_keyframe_def)
qed

lemma Subscribe_queue:
  "Subscribe b = (r, b') \<Longrightarrow> \<exists>x. rheap b' r = Some x \<and> queue x = (case latestKeyframe b of None \<Rightarrow> [] | Some k \<Rightarrow> [k])
     \<and> c_cap (rc_ch x) = chanSize b \<and> (rc_needKeyframe x \<longleftrightarrow> latestKeyframe b = None \<and> \<not> selfContained b)"
  by (auto simp: Subscribe_def subscribeWithCap_def Let_def split: option.splits)

lemma drop_interceptor_snoc:
  "i \<notin> set js \<Longrightarrow> length js = length fs \<Longrightarrow> drop_interceptor i (js @ [i]) (fs @ [f]) = (js, fs)"
  by (induction i js fs rule: drop_interceptor.induct) auto

lemma drop_interceptor_absent: "i \<notin> set js \<Longrightarrow> drop_interceptor i js fs = (js, fs)"
  by (induction i js fs rule: drop_interceptor.induct) auto

section \<open>Properties\<close>



text \<open>C2. \<open>Publish\<close> on a well-formed broadcaster never fails. An AU refused by an interceptor or by the
  size cap changes nothing; an admitted AU is cached when it is a keyframe, pushed to the replay
  ring, and handed to every subscribed receiver exactly according to the drop policy
  (\<open>deliver_spec\<close>), leaving all other receivers alone.\<close>

theorem Publish_spec:
  assumes "b_inv b"
  shows "\<exists>s' b'. Publish au s b = Some (s', b') \<and>
    (case admitted au s b of
       None \<Rightarrow> b' = b
     | Some au' \<Rightarrow>
         latestKeyframe b' = (if au_Keyframe au' then Some au' else latestKeyframe b) \<and>
         replaySnapshotLocked b' = fifo_push (replayCap b) (replayMaxBytes b) au' (replaySnapshotLocked b) \<and>
         (\<forall>r x. rheap b r = Some x \<longrightarrow>
            (if r \<in> set (receivers b)
             then \<exists>x'. rheap b' r = Some x' \<and> \<not> rc_closed x' \<and>
                    (queue x', rc_needKeyframe x') = deliver_spec (selfContained b) au' x
             else rheap b' r = Some x)))"
proof -
  obtain s' b' where p: "Publish au s b = Some (s', b')" using Publish_inv [OF assms] by blast
  note c = Publish_cases [OF assms p]
  have "\<exists>x'. rheap b' r = Some x' \<and> \<not> rc_closed x' \<and>
      (queue x', rc_needKeyframe x') = deliver_spec (selfContained b) au' x"
    if a: "admitted au s b = Some au'" "rheap b r = Some x" "r \<in> set (receivers b)" for au' r x
  proof -
    have "rc_ok x" "\<not> rc_closed x"
      using heap_inv_openD [of "receivers b" "next_rid b" "rheap b" r] a assms by (auto simp: b_inv_def)
    then show ?thesis using c a deliver_refines [of x "selfContained b" au'] by auto
  qed
  then show ?thesis using p c by (auto split: option.splits)
qed

definition ex_au :: "32 word \<Rightarrow> bool \<Rightarrow> AccessUnit" where
  "ex_au n k = AccessUnit_zero\<lparr>au_Seq := n, au_Keyframe := k\<rparr>"

theorem Publish_spec_witness:
  "\<exists>s' b'. Publish (ex_au 1 True) () (snd (Subscribe (NewBroadcaster 2))) = Some (s', b') \<and>
    latestKeyframe b' = Some (ex_au 1 True)"
proof -
  have "b_inv (snd (Subscribe (NewBroadcaster 2)))"
    by (rule b_inv_Subscribe) (simp add: NewBroadcaster_def b_inv_New)
  moreover have "admitted (ex_au 1 True) () (snd (Subscribe (NewBroadcaster 2))) = Some (ex_au 1 True)"
    by (simp add: admitted_def Subscribe_def subscribeWithCap_def NewBroadcaster_def NewBroadcasterWithBytes_def
        ex_au_def AccessUnit_zero_def au_size_def)
  ultimately show ?thesis
    using Publish_spec [of "snd (Subscribe (NewBroadcaster 2))" "ex_au 1 True" "()"]
    by (auto simp: ex_au_def)
qed





text \<open>C25. Late joiners: after any sequence of publishes a new subscriber's queue holds exactly the last
  admitted keyframe (post-interceptor), or nothing if there was none, in which case a video
  subscriber waits for a keyframe.\<close>

theorem late_joiner_keyframe:
  assumes "b_inv b" "latestKeyframe b = None"
  shows "\<exists>adm s' b'. publish_all aus (s, b) = Some (adm, s', b') \<and>
    (\<forall>r b''. Subscribe b' = (r, b'') \<longrightarrow>
      (\<exists>x. rheap b'' r = Some x \<and>
        queue x = (if filter au_Keyframe adm = [] then [] else [last (filter au_Keyframe adm)]) \<and>
        (rc_needKeyframe x \<longleftrightarrow> filter au_Keyframe adm = [] \<and> \<not> selfContained b)))"
proof -
  have last: "last_keyframe k0 l = (if filter au_Keyframe l = [] then k0 else Some (last (filter au_Keyframe l)))" for k0 l
    by (induction l arbitrary: k0) (auto simp: last_keyframe_def)
  obtain adm s' b' where *: "publish_all aus (s, b) = Some (adm, s', b')"
    "latestKeyframe b' = last_keyframe None adm" "selfContained b' = selfContained b"
    using publish_all_keyframe [OF assms(1), of aus s] assms(2) by auto
  have "\<exists>x. rheap b'' r = Some x \<and>
        queue x = (if filter au_Keyframe adm = [] then [] else [last (filter au_Keyframe adm)]) \<and>
        (rc_needKeyframe x \<longleftrightarrow> filter au_Keyframe adm = [] \<and> \<not> selfContained b)"
    if "Subscribe b' = (r, b'')" for r b''
    using Subscribe_queue [OF that] *(2,3) last [of None adm] by (auto split: if_splits)
  then show ?thesis using *(1) by blast
qed

theorem late_joiner_keyframe_witness:
  "\<exists>adm s' b'. publish_all [ex_au 1 True, ex_au 2 False] ((), NewBroadcasterWithBytes 4 0) = Some (adm, s', b')"
proof -
  have "b_inv (NewBroadcasterWithBytes 4 0)" "latestKeyframe (NewBroadcasterWithBytes 4 0) = None"
    by (rule b_inv_New) (simp add: NewBroadcasterWithBytes_def)
  then show ?thesis using late_joiner_keyframe [of "NewBroadcasterWithBytes 4 0" "[ex_au 1 True, ex_au 2 False]" "()"]
    by blast
qed

text \<open>Interceptors: removing the interceptor just added restores the chain, and calling a removal
  closure again (or when its interceptor is gone) changes nothing, as long as ids are not reused.\<close>

theorem interceptor_remove:
  assumes "b_inv b" "nextInterceptorID b + 1 \<notin> set (interceptorIDs b)" "AddInterceptor (Some f) b = (h, b1)"
  shows "interceptors b1 = interceptors b @ [f]
    \<and> interceptors (remove_interceptor h b1) = interceptors b
    \<and> remove_interceptor h (remove_interceptor h b1) = remove_interceptor h b1"
  using assms drop_interceptor_snoc [of "nextInterceptorID b + 1" "interceptorIDs b" "interceptors b" f]
  by (auto simp: AddInterceptor_def remove_interceptor_def Let_def b_inv_def drop_interceptor_absent)

theorem interceptor_remove_witness:
  "interceptors (remove_interceptor (Some 1) (snd (AddInterceptor (Some (\<lambda>s au. (s, Inr au)))
      (NewBroadcaster 1 :: unit broadcaster)))) = []"
proof -
  let ?b = "NewBroadcaster 1 :: unit broadcaster"
  have "b_inv ?b" "interceptorIDs ?b = []" "interceptors ?b = []" "nextInterceptorID ?b = 0"
    by (simp_all add: NewBroadcaster_def b_inv_New) (simp_all add: NewBroadcasterWithBytes_def)
  then show ?thesis
    using interceptor_remove [of ?b "\<lambda>s au. (s, Inr au)" "Some 1" "snd (AddInterceptor (Some (\<lambda>s au. (s, Inr au))) ?b)"]
    by (simp add: AddInterceptor_def)
qed


end
