(* ===== verification/Server.thy ===== *)
theory Server
  imports Session Server_Store Pubsub_Broadcaster
begin

text \<open>
  The server (\<^verbatim>\<open>server/server.go\<close>): the track registry, recorders, live sessions, parking of a
  disconnected session and its resumption, admission of new connections and draining. It composes the
  broadcasters, the sessions and the session store. A pointer to a broadcaster is an index into \<open>sv_bcs\<close>,
  a pointer to a receiver the pair of its broadcaster's index and its identifier there. Go maps are
  association lists in iteration order. The outer \<open>None\<close> of an operation is a panic.
\<close>

section \<open>State\<close>

type_synonym rref = "nat \<times> rid"

text \<open>The configuration without the TLS material, the metrics and log sinks and an external session store. Of
  callbacks that the server only forwards, the record says whether they are set.\<close>

record ServerConfig =
  svc_Addr :: string
  svc_Slug :: string
  svc_ExternalHost :: string
  svc_AllowedOrigins :: "string list"
  svc_MaxSessions :: int
  svc_SDP :: SDP
  svc_Session :: SessionConfig
  svc_PerSubscriberBuffer :: int
  svc_OnDataChannel :: bool
  svc_AuthValidator :: "(string \<Rightarrow> string + string) option"
  svc_OnBackpressure :: bool
  svc_OnKeyframeRequest :: bool
  svc_OnSession :: bool
  svc_InboundRateLimit :: RateLimit
  svc_OnAnnounce :: "(string \<Rightarrow> string \<Rightarrow> string \<Rightarrow> string \<Rightarrow> string option) option"
  svc_InstanceID :: string
  svc_InstanceAddr :: string
  svc_EvictionInterval :: int
  svc_OnKindStats :: bool
  svc_PriorityScheduler :: "8 word"
  svc_UsePriorityScheduler :: bool
  svc_SupportedFeatures :: "string list option"

definition DefaultSupportedFeatures :: "string list" where
  "DefaultSupportedFeatures = [''resume'', ''backpressure'', ''publishback'', ''stream-header'', ''kind-stats'']"

definition SchedulerAuto :: "8 word" where "SchedulerAuto = 0"
definition SchedulerOn :: "8 word" where "SchedulerOn = 1"
definition SchedulerOff :: "8 word" where "SchedulerOff = 2"

record trackEntry =
  te_name :: string
  te_kind :: Kind
  te_priority :: "8 word"
  te_trackID :: "8 word"
  te_bc :: nat

text \<open>A recorder is caller code: what its \<open>Write\<close> does to the application state. Its error is ignored. A
  detacher is the removal closure of one interceptor: the broadcaster and the handle it captured.\<close>

type_synonym 's recorder = "string \<Rightarrow> string \<Rightarrow> AccessUnit \<Rightarrow> 's \<Rightarrow> 's"

record 's recorderEntry =
  re_rec :: "'s recorder option"
  re_detachers :: "(string \<times> nat \<times> 64 word option) list"

record 's Server =
  sv_cfg :: ServerConfig
  sv_slug :: string
  sv_instanceID :: string
  sv_app :: 's
  sv_bcs :: "'s broadcaster list"
  sv_tracks :: "(string \<times> trackEntry) list"
  sv_sessions :: "(nat \<times> rref Session) list"
  sv_nextRef :: nat
  sv_store :: "(string \<times> rref) list memorySessionStore"
  sv_current :: int
  sv_draining :: bool
  sv_recorders :: "'s recorderEntry list"

record TrackSpec =
  ts_Name :: string
  ts_Kind :: Kind
  ts_Priority :: "8 word"
  ts_TrackID :: "8 word"

section \<open>Session configuration\<close>

definition schedulerEnabled :: "'s Server \<Rightarrow> bool" where
  "schedulerEnabled s =
     (if svc_PriorityScheduler (sv_cfg s) = SchedulerOn then True
      else if svc_PriorityScheduler (sv_cfg s) = SchedulerOff then False
      else svc_UsePriorityScheduler (sv_cfg s))"

text \<open>The configuration \<open>runSession\<close> builds for a session.\<close>

definition session_config :: "'s Server \<Rightarrow> SessionConfig" where
  "session_config s =
     (let c = sv_cfg s; f0 = sc_FeedConfig (svc_Session c);
          f1 = f0\<lparr>cfg_DatagramSender := True, cfg_BidiOpener := True, cfg_FallbackOpener := True\<rparr>;
          f2 = (if schedulerEnabled s then f1\<lparr>cfg_Scheduler := True\<rparr> else f1) in
      (svc_Session c)\<lparr>sc_ExpectSlug := sv_slug s, sc_AuthValidator := svc_AuthValidator c, sc_SDP := svc_SDP c,
        sc_OnAnnounce := svc_OnAnnounce c, sc_OnKindStats := svc_OnKindStats c,
        sc_SupportedFeatures := (case svc_SupportedFeatures c of Some fs \<Rightarrow> fs | None \<Rightarrow> DefaultSupportedFeatures),
        sc_FeedConfig := f2\<rparr>)"

definition deadlineOrDefault :: "int \<Rightarrow> int \<Rightarrow> int" where
  "deadlineOrDefault d def = (if d \<le> 0 then def else d)"

section \<open>Broadcasters and sessions of the server\<close>

definition upd_bc :: "nat \<Rightarrow> ('s broadcaster \<Rightarrow> 's broadcaster) \<Rightarrow> 's Server \<Rightarrow> 's Server" where
  "upd_bc i f s = s\<lparr>sv_bcs := (sv_bcs s)[i := f (sv_bcs s ! i)]\<rparr>"

definition upd_session :: "nat \<Rightarrow> (rref Session \<Rightarrow> rref Session) \<Rightarrow> 's Server \<Rightarrow> 's Server" where
  "upd_session ref f s = s\<lparr>sv_sessions := map (\<lambda>(k, x). (k, if k = ref then f x else x)) (sv_sessions s)\<rparr>"

text \<open>\<open>bc.Unsubscribe(r)\<close> does nothing for a receiver of another broadcaster.\<close>

definition sv_Unsubscribe :: "nat \<Rightarrow> rref \<Rightarrow> 's Server \<Rightarrow> 's Server" where
  "sv_Unsubscribe i rr s = (if fst rr = i then upd_bc i (Unsubscribe (snd rr)) s else s)"

definition upd_bc_opt ::
    "nat \<Rightarrow> ('s broadcaster \<Rightarrow> 's broadcaster option) \<Rightarrow> 's Server \<Rightarrow> 's Server option" where
  "upd_bc_opt i f s =
     (case f (sv_bcs s ! i) of None \<Rightarrow> None | Some b \<Rightarrow> Some (s\<lparr>sv_bcs := (sv_bcs s)[i := b]\<rparr>))"

text \<open>Subscribing to several tracks, one after the other.\<close>

fun subscribe_tracks ::
    "('s broadcaster \<Rightarrow> rid \<times> 's broadcaster) \<Rightarrow> trackEntry list \<Rightarrow> 's broadcaster list \<Rightarrow>
     (string \<times> rref) list \<times> 's broadcaster list" where
  "subscribe_tracks sub [] bcs = ([], bcs)"
| "subscribe_tracks sub (t # ts) bcs =
     (let (r, b) = sub (bcs ! te_bc t); (rs, bcs') = subscribe_tracks sub ts (bcs[te_bc t := b]) in
      ((te_name t, te_bc t, r) # rs, bcs'))"

section \<open>Tracks\<close>

definition recorder_fn :: "'s recorder \<Rightarrow> string \<Rightarrow> string \<Rightarrow> 's Interceptor" where
  "recorder_fn rec name kind = (\<lambda>st au. (rec name kind au st, Inr au))"

definition attach_recorder_to ::
    "'s recorder \<Rightarrow> string \<Rightarrow> string \<Rightarrow> nat \<Rightarrow> 's recorderEntry \<times> 's broadcaster list \<Rightarrow> 's recorderEntry \<times> 's broadcaster list" where
  "attach_recorder_to rec name kind i st =
     (let (e, bcs) = st; (h, b) = AddInterceptor (Some (recorder_fn rec name kind)) (bcs ! i) in
      (e\<lparr>re_detachers := AList.update name (i, h) (re_detachers e)\<rparr>, bcs[i := b]))"

fun recorders_to_track ::
    "string \<Rightarrow> string \<Rightarrow> nat \<Rightarrow> 's recorderEntry list \<Rightarrow> 's broadcaster list \<Rightarrow> 's recorderEntry list \<times> 's broadcaster list" where
  "recorders_to_track name kind i [] bcs = ([], bcs)"
| "recorders_to_track name kind i (e # es) bcs =
     (let (e', bcs') = (case re_rec e of None \<Rightarrow> (e, bcs) | Some rec \<Rightarrow> attach_recorder_to rec name kind i (e, bcs));
          (es', bcs'') = recorders_to_track name kind i es bcs' in
      (e' # es', bcs''))"

definition attachRecordersToTrack :: "string \<Rightarrow> string \<Rightarrow> nat \<Rightarrow> 's Server \<Rightarrow> 's Server" where
  "attachRecordersToTrack name kind i s =
     (let (es, bcs) = recorders_to_track name kind i (sv_recorders s) (sv_bcs s) in s\<lparr>sv_recorders := es, sv_bcs := bcs\<rparr>)"

text \<open>One round of the notification loop: subscribe for the session, attach, announce.\<close>

definition notify_added ::
    "(Announce \<Rightarrow> go_error + bytes) \<Rightarrow> string \<Rightarrow> Kind \<Rightarrow> 8 word \<Rightarrow> 8 word \<Rightarrow> nat \<Rightarrow> nat \<Rightarrow> 's Server \<Rightarrow> 's Server" where
  "notify_added ja name kind priority trackID i ref s =
     (let (r, b) = Subscribe (sv_bcs s ! i) in
      upd_session ref (\<lambda>x. SendAnnounce ja name kind []
          (AttachTrackWithKind (session_config s) name kind (i, r) priority trackID x))
        (s\<lparr>sv_bcs := (sv_bcs s)[i := b]\<rparr>))"

text \<open>The result is the broadcaster of the track's publisher.\<close>

definition addTrackInternal ::
    "(Announce \<Rightarrow> go_error + bytes) \<Rightarrow> string \<Rightarrow> Kind \<Rightarrow> 8 word \<Rightarrow> 8 word \<Rightarrow> 's Server \<Rightarrow> nat \<times> 's Server" where
  "addTrackInternal ja name kind priority trackID s =
     (case map_of (sv_tracks s) name of
        Some t \<Rightarrow> (te_bc t, s)
      | None \<Rightarrow>
          (let i = length (sv_bcs s);
               bc0 = NewBroadcaster (svc_PerSubscriberBuffer (sv_cfg s));
               bc = (if kind \<noteq> KindVideo \<and> kind \<noteq> [] then SetSelfContained True bc0 else bc0);
               t = \<lparr>te_name = name, te_kind = kind, te_priority = priority, te_trackID = trackID, te_bc = i\<rparr>;
               s1 = s\<lparr>sv_bcs := sv_bcs s @ [bc], sv_tracks := sv_tracks s @ [(name, t)]\<rparr>;
               s2 = attachRecordersToTrack name kind i s1 in
           (i, fold (notify_added ja name kind priority trackID i) (map fst (sv_sessions s2)) s2)))"

definition AddTrackSpec :: "(Announce \<Rightarrow> go_error + bytes) \<Rightarrow> TrackSpec \<Rightarrow> 's Server \<Rightarrow> nat \<times> 's Server" where
  "AddTrackSpec ja spec s =
     (let kind = (if ts_Kind spec = [] then KindVideo else ts_Kind spec);
          priority = (if ts_Priority spec = 0 then DefaultPriority kind else ts_Priority spec) in
      addTrackInternal ja (ts_Name spec) kind priority (ts_TrackID spec) s)"

definition AddTrack :: "(Announce \<Rightarrow> go_error + bytes) \<Rightarrow> string \<Rightarrow> 's Server \<Rightarrow> nat \<times> 's Server" where
  "AddTrack ja name = AddTrackSpec ja \<lparr>ts_Name = name, ts_Kind = [], ts_Priority = 0, ts_TrackID = 0\<rparr>"

definition AddTrackWithTrackID ::
    "(Announce \<Rightarrow> go_error + bytes) \<Rightarrow> string \<Rightarrow> 8 word \<Rightarrow> 8 word \<Rightarrow> 's Server \<Rightarrow> nat \<times> 's Server" where
  "AddTrackWithTrackID ja name priority trackID =
     AddTrackSpec ja \<lparr>ts_Name = name, ts_Kind = [], ts_Priority = priority, ts_TrackID = trackID\<rparr>"

definition AddTrackWithPriority ::
    "(Announce \<Rightarrow> go_error + bytes) \<Rightarrow> string \<Rightarrow> 8 word \<Rightarrow> 's Server \<Rightarrow> nat \<times> 's Server" where
  "AddTrackWithPriority ja name priority =
     AddTrackSpec ja \<lparr>ts_Name = name, ts_Kind = [], ts_Priority = priority, ts_TrackID = 0\<rparr>"

definition RemoveTrack :: "(Unannounce \<Rightarrow> go_error + bytes) \<Rightarrow> string \<Rightarrow> 's Server \<Rightarrow> 's Server" where
  "RemoveTrack ju name s =
     (case map_of (sv_tracks s) name of
        None \<Rightarrow> s
      | Some t \<Rightarrow>
          (let s1 = s\<lparr>sv_tracks := filter (\<lambda>p. fst p \<noteq> name) (sv_tracks s)\<rparr>;
               s2 = fold (\<lambda>ref. upd_session ref (\<lambda>x. SendUnannounce ju name (DetachTrack name x)))
                      (map fst (sv_sessions s1)) s1 in
           upd_bc (te_bc t) Close s2))"

definition Publisher :: "'s Server \<Rightarrow> nat option" where
  "Publisher s = map_option te_bc (map_of (sv_tracks s) ''primary'')"

text \<open>\<open>Publisher.Publish\<close>; the interceptors run on the application state.\<close>

definition Publisher_Publish :: "nat \<Rightarrow> AccessUnit \<Rightarrow> 's Server \<Rightarrow> 's Server option" where
  "Publisher_Publish i au s =
     (case Publish au (sv_app s) (sv_bcs s ! i) of
        None \<Rightarrow> None
      | Some (st, b) \<Rightarrow> Some (s\<lparr>sv_app := st, sv_bcs := (sv_bcs s)[i := b]\<rparr>))"

definition trackSnapshot :: "'s Server \<Rightarrow> (string \<times> rref) list \<times> 's Server" where
  "trackSnapshot s =
     (let (rs, bcs) = subscribe_tracks Subscribe (map snd (sv_tracks s)) (sv_bcs s) in (rs, s\<lparr>sv_bcs := bcs\<rparr>))"

definition trackEntry_of :: "string \<Rightarrow> 's Server \<Rightarrow> trackEntry option" where
  "trackEntry_of name s = map_of (sv_tracks s) name"

definition trackIDFor :: "'s Server \<Rightarrow> string \<Rightarrow> 8 word" where
  "trackIDFor s name = (case map_of (sv_tracks s) name of Some t \<Rightarrow> te_trackID t | None \<Rightarrow> 0)"

definition priorityFor :: "'s Server \<Rightarrow> string \<Rightarrow> 8 word" where
  "priorityFor s name = (case map_of (sv_tracks s) name of Some t \<Rightarrow> te_priority t | None \<Rightarrow> 4)"

definition kindFor :: "'s Server \<Rightarrow> string \<Rightarrow> Kind" where
  "kindFor s name =
     (case map_of (sv_tracks s) name of
        Some t \<Rightarrow> if te_kind t \<noteq> [] then te_kind t else KindVideo
      | None \<Rightarrow> KindVideo)"

section \<open>Recorders\<close>

text \<open>The result is the index that the detach closure captures.\<close>

definition AttachRecorder :: "'s recorder \<Rightarrow> 's Server \<Rightarrow> nat \<times> 's Server" where
  "AttachRecorder rec s =
     (let (e, bcs) = fold (\<lambda>(name, t). attach_recorder_to rec name (te_kind t) (te_bc t)) (sv_tracks s)
                       (\<lparr>re_rec = Some rec, re_detachers = []\<rparr>, sv_bcs s) in
      (length (sv_recorders s), s\<lparr>sv_recorders := sv_recorders s @ [e], sv_bcs := bcs\<rparr>))"

definition detach_recorder :: "nat \<Rightarrow> 's Server \<Rightarrow> 's Server" where
  "detach_recorder idx s =
     (if idx < length (sv_recorders s) then
        let detachers = re_detachers (sv_recorders s ! idx) in
        fold (\<lambda>(name, i, h). upd_bc i (remove_interceptor h)) detachers
          (s\<lparr>sv_recorders := (sv_recorders s)[idx := \<lparr>re_rec = None, re_detachers = []\<rparr>]\<rparr>)
      else s)"

section \<open>Sessions\<close>

text \<open>The store runs \<open>onEvict\<close> of every session it drops: the callbacks that are new in its log unsubscribe
  the parked receivers.\<close>

definition set_store :: "(string \<times> rref) list memorySessionStore \<Rightarrow> 's Server \<Rightarrow> 's Server" where
  "set_store st s =
     fold (\<lambda>p. fold (\<lambda>(name, rr). sv_Unsubscribe (fst rr) rr) (ps_receivers p))
       (drop (length (st_evicted (sv_store s))) (st_evicted st)) (s\<lparr>sv_store := st\<rparr>)"

definition addSession :: "rref Session \<Rightarrow> 's Server \<Rightarrow> nat \<times> 's Server" where
  "addSession x s =
     (sv_nextRef s, s\<lparr>sv_sessions := sv_sessions s @ [(sv_nextRef s, x)], sv_nextRef := Suc (sv_nextRef s)\<rparr>)"

definition session_cleanup :: "nat \<Rightarrow> 's Server \<Rightarrow> 's Server" where
  "session_cleanup ref s = s\<lparr>sv_sessions := filter (\<lambda>p. fst p \<noteq> ref) (sv_sessions s)\<rparr>"

definition AnySession :: "'s Server \<Rightarrow> rref Session option" where
  "AnySession s = (case sv_sessions s of [] \<Rightarrow> None | (_, x) # _ \<Rightarrow> Some x)"

text \<open>One round of the loop of \<open>OnResume\<close> over \<open>lastSeen\<close>.\<close>

definition resume_track :: "(string \<times> rref) list \<Rightarrow> string \<times> 32 word \<Rightarrow> 's Server \<Rightarrow> 's Server option" where
  "resume_track recvs p s =
     (let (name, fromSeq) = p in
      case map_of recvs name of
        None \<Rightarrow> Some s
      | Some (i, r) \<Rightarrow>
          (case trackEntry_of name s of
             None \<Rightarrow> Some s
           | Some te \<Rightarrow>
               (let (replay, available) = ReplaySince (fromSeq + 1) (sv_bcs s ! te_bc te) in
                if \<not> available then
                  (if te_kind te = KindVideo \<or> te_kind te = []
                   then upd_bc_opt i (on_receiver (\<lambda>x. Some (Receiver_RequestKeyframe x)) r) s
                   else Some s)
                else if replay \<noteq> [] then upd_bc_opt i (on_receiver (SpliceFront replay) r) s
                else Some s)))"

fun resume_tracks :: "(string \<times> rref) list \<Rightarrow> (string \<times> 32 word) list \<Rightarrow> 's Server \<Rightarrow> 's Server option" where
  "resume_tracks recvs [] s = Some s"
| "resume_tracks recvs (p # ps) s =
     (case resume_track recvs p s of None \<Rightarrow> None | Some s1 \<Rightarrow> resume_tracks recvs ps s1)"

definition OnResume ::
    "int \<Rightarrow> string \<Rightarrow> string \<Rightarrow> (string \<times> 32 word) list \<Rightarrow> 's Server \<Rightarrow> ((string \<times> rref) list option \<times> 's Server) option" where
  "OnResume now tenant sid lastSeen s =
     (let (res, st) = Resume now tenant sid (sv_store s); s1 = set_store st s in
      case res of
        None \<Rightarrow> Some (None, s1)
      | Some recvs \<Rightarrow> (case resume_tracks recvs lastSeen s1 of None \<Rightarrow> None | Some s2 \<Rightarrow> Some (Some recvs, s2)))"

definition OnFreshSession :: "'s Server \<Rightarrow> (string \<times> rref) list \<times> 's Server" where
  "OnFreshSession s = trackSnapshot s"

text \<open>The callbacks of the session that only read the server.\<close>

definition session_lookups :: "'s Server \<Rightarrow> rref session_hooks" where
  "session_lookups s = \<lparr>hk_AllocateID = None, hk_Resume = None, hk_Fresh = None, hk_Priority = Some (priorityFor s),
     hk_TrackID = Some (trackIDFor s), hk_Kind = Some (kindFor s)\<rparr>"

text \<open>The resume-or-fresh part of the handshake with the server's callbacks: \<open>newid\<close> is what
  \<open>AllocateID\<close> returns.\<close>

definition session_attach :: "string \<Rightarrow> int \<Rightarrow> Hello \<Rightarrow> nat \<Rightarrow> 's Server \<Rightarrow> 's Server option" where
  "session_attach newid now hello ref s =
     (case map_of (sv_sessions s) ref of
        None \<Rightarrow> Some s
      | Some x \<Rightarrow>
          (case (if h_SessionID hello \<noteq> [] then OnResume now (sn_Tenant x) (h_SessionID hello) (h_LastSeenSeq hello) s
                 else Some (None, s)) of
             None \<Rightarrow> None
           | Some (Some recvs, s1) \<Rightarrow>
               Some (upd_session ref (attach_resumed (session_config s1) (session_lookups s1) hello recvs) s1)
           | Some (None, s1) \<Rightarrow>
               (let (fresh, s2) = OnFreshSession s1 in
                Some (upd_session ref (attach_fresh (session_config s2)
                   ((session_lookups s2)\<lparr>hk_AllocateID := Some newid, hk_Fresh := Some fresh\<rparr>)) s2))))"

definition parkedChanCap :: int where "parkedChanCap = int DefaultReplayCap + 64"

definition unsubscribe_active :: "rref Session \<Rightarrow> trackEntry list \<Rightarrow> 's Server \<Rightarrow> 's Server" where
  "unsubscribe_active x ts s =
     fold (\<lambda>t. fold (sv_Unsubscribe (te_bc t)) (Receivers (te_name t) x)) ts s"

text \<open>The deferred function of \<open>runSession\<close>: unsubscribe, or park fresh receivers for a later resume.\<close>

definition session_park :: "int \<Rightarrow> int \<Rightarrow> bool \<Rightarrow> rref Session \<Rightarrow> 's Server \<Rightarrow> 's Server" where
  "session_park now1 now2 ctx_done x s =
     (let tracks = map snd (sv_tracks s) in
      if sn_SessionID x = [] \<or> ctx_done \<or> sv_draining s then unsubscribe_active x tracks s
      else
        let (parked, bcs) = subscribe_tracks (SubscribeWithCapacity parkedChanCap) tracks (sv_bcs s);
            s1 = unsubscribe_active x tracks (s\<lparr>sv_bcs := bcs\<rparr>) in
        set_store (Park now1 now2 (sn_Tenant x) (sn_SessionID x) parked True (sv_store s1)) s1)"

text \<open>The deferred calls in their order: parking, then the cleanup of \<open>addSession\<close>.\<close>

definition session_end :: "int \<Rightarrow> int \<Rightarrow> bool \<Rightarrow> nat \<Rightarrow> 's Server \<Rightarrow> 's Server" where
  "session_end now1 now2 ctx_done ref s =
     (case map_of (sv_sessions s) ref of
        None \<Rightarrow> s
      | Some x \<Rightarrow> session_cleanup ref (session_park now1 now2 ctx_done x s))"

definition eviction_interval :: "ServerConfig \<Rightarrow> int" where
  "eviction_interval cfg = (if svc_EvictionInterval cfg \<le> 0 then 30 * 1000000000 else svc_EvictionInterval cfg)"

text \<open>The eviction loop of \<open>ListenAndServe\<close>, one tick.\<close>

definition eviction_tick :: "int \<Rightarrow> 's Server \<Rightarrow> 's Server" where
  "eviction_tick now s = set_store (snd (EvictExpired now (sv_store s))) s"

section \<open>Admission and shutdown\<close>

datatype wt_response = WtDraining | WtTooMany | WtRedirect string | WtUpgrade

text \<open>The handler of \<^verbatim>\<open>/wt\<close> up to the upgrade. \<open>lookup\<close> is the store's \<open>LookupInstance\<close> if the store is
  distributed; the request is its session query value, tenant header, path and raw query.\<close>

definition wt_admit ::
    "(string \<Rightarrow> string \<Rightarrow> string option) option \<Rightarrow> string \<Rightarrow> string \<Rightarrow> string \<Rightarrow> string \<Rightarrow> 's Server \<Rightarrow> wt_response" where
  "wt_admit lookup sessID tenant path rawQuery s =
     (if sv_draining s then WtDraining
      else if sv_current s \<ge> svc_MaxSessions (sv_cfg s) then WtTooMany
      else if sessID \<noteq> [] \<and> lookup \<noteq> None \<and> svc_InstanceAddr (sv_cfg s) \<noteq> [] then
        (case the lookup tenant sessID of
           None \<Rightarrow> WtUpgrade
         | Some addr \<Rightarrow>
             if addr \<noteq> svc_InstanceAddr (sv_cfg s)
             then WtRedirect (addr @ path @ (if rawQuery \<noteq> [] then ''?'' @ rawQuery else []))
             else WtUpgrade)
      else WtUpgrade)"

definition wt_upgraded :: "'s Server \<Rightarrow> 's Server" where
  "wt_upgraded s = s\<lparr>sv_current := sv_current s + 1\<rparr>"

definition wt_finished :: "'s Server \<Rightarrow> 's Server" where
  "wt_finished s = s\<lparr>sv_current := sv_current s - 1\<rparr>"

text \<open>The handler of \<^verbatim>\<open>/locate\<close>: the instance address, or not found.\<close>

definition locate :: "(string \<Rightarrow> string \<Rightarrow> string option) option \<Rightarrow> string \<Rightarrow> string \<Rightarrow> string option" where
  "locate lookup sessID tenant =
     (if sessID = [] then None else case lookup of None \<Rightarrow> None | Some f \<Rightarrow> f tenant sessID)"

definition makeOriginCheck :: "string list \<Rightarrow> string \<Rightarrow> bool" where
  "makeOriginCheck allowed origin = (if length allowed = 0 then True else origin \<in> set allowed)"

definition Shutdown_notify :: "'s Server \<Rightarrow> 's Server" where
  "Shutdown_notify s =
     (let s1 = s\<lparr>sv_draining := True\<rparr> in
      fold (\<lambda>ref. upd_session ref (SendClose ''server-shutdown'')) (map fst (sv_sessions s1)) s1)"

text \<open>The wait loop over its polls: the session count and whether the drain context ended by the next tick.
  \<open>None\<close> is still waiting, \<open>Some True\<close> a complete drain, \<open>Some False\<close> the context's error.\<close>

fun Shutdown_wait :: "(int \<times> bool) list \<Rightarrow> bool option" where
  "Shutdown_wait [] = None"
| "Shutdown_wait ((cur, expired) # polls) =
     (if cur = 0 then Some True else if expired then Some False else Shutdown_wait polls)"

text \<open>A new server: \<open>randSlug\<close> and \<open>randID\<close> are the random values for an empty slug and instance id;
  \<open>resumeWindow\<close> is the one of the session configuration. The default track exists from the start.\<close>

definition NewServer ::
    "(Announce \<Rightarrow> go_error + bytes) \<Rightarrow> ServerConfig \<Rightarrow> string \<Rightarrow> string \<Rightarrow> int \<Rightarrow> 's \<Rightarrow> 's Server" where
  "NewServer ja conf randSlug randID resumeWindow app =
     (let conf1 = (if svc_Addr conf = [] then conf\<lparr>svc_Addr := '':4433''\<rparr> else conf);
          cfg = (if svc_MaxSessions conf1 \<le> 0 then conf1\<lparr>svc_MaxSessions := 16\<rparr> else conf1);
          s = \<lparr>sv_cfg = cfg, sv_slug = (if svc_Slug cfg = [] then randSlug else svc_Slug cfg),
               sv_instanceID = (if svc_InstanceID cfg = [] then randID else svc_InstanceID cfg), sv_app = app, sv_bcs = [],
               sv_tracks = [], sv_sessions = [], sv_nextRef = 0, sv_store = NewMemorySessionStore resumeWindow,
               sv_current = 0, sv_draining = False, sv_recorders = []\<rparr> in
      snd (AddTrack ja ''primary'' s))"

text \<open>The zero value of \<open>ServerConfig\<close>, which \<open>NewServer\<close> completes.\<close>

definition ServerConfig_zero :: ServerConfig where
  "ServerConfig_zero = \<lparr>svc_Addr = [], svc_Slug = [], svc_ExternalHost = [], svc_AllowedOrigins = [], svc_MaxSessions = 0, svc_SDP = \<lparr>sdp_Codec = [], sdp_Width = 0, sdp_Height = 0, sdp_FPS = 0,
      sdp_ScreenW = 0, sdp_ScreenH = 0, sdp_SessionID = [], sdp_Features = [], sdp_NegotiatedVersion = []\<rparr>,
    svc_Session = \<lparr>sc_ExpectSlug = [], sc_AuthValidator = None, sc_SupportedFeatures = [],
      sc_SDP = \<lparr>sdp_Codec = [], sdp_Width = 0, sdp_Height = 0, sdp_FPS = 0, sdp_ScreenW = 0, sdp_ScreenH = 0,
        sdp_SessionID = [], sdp_Features = [], sdp_NegotiatedVersion = []\<rparr>,
      sc_AcceptTimeout = 0, sc_ReadHelloTimeout = 0, sc_IdleTimeout = 0, sc_FeedConfig = Config_zero,
      sc_DataInboundBuffer = 0, sc_OnAnnounce = None, sc_OnKindStats = False\<rparr>,
    svc_PerSubscriberBuffer = 0, svc_OnDataChannel = False, svc_AuthValidator = None, svc_OnBackpressure = False,
    svc_OnKeyframeRequest = False, svc_OnSession = False,
    svc_InboundRateLimit = \<lparr>rl_MaxAUsPerSecond = 0, rl_MaxBytesPerSecond = 0, rl_BurstAUs = 0, rl_BurstBytes = 0\<rparr>,
    svc_OnAnnounce = None, svc_InstanceID = [], svc_InstanceAddr = [], svc_EvictionInterval = 0,
    svc_OnKindStats = False, svc_PriorityScheduler = 0, svc_UsePriorityScheduler = False, svc_SupportedFeatures = None\<rparr>"

end
