(* ===== verification/Server_Safety.thy ===== *)
theory Server_Safety
  imports Server
begin

text \<open>
  The server as a transition system over its operations, and its invariant: broadcasters stay well formed,
  the registry is consistent, no receiver has two owners, and a receiver that a live or parked session
  holds stays subscribed as long as its track exists.
\<close>

section \<open>Broadcasters over time\<close>

text \<open>What every operation guarantees of a broadcaster, apart from the receivers \<open>R\<close> it may drop.\<close>

definition bc_evolve :: "rid set \<Rightarrow> 's broadcaster \<Rightarrow> 's broadcaster \<Rightarrow> bool" where
  "bc_evolve R b b' \<longleftrightarrow> (b_inv b \<longrightarrow> b_inv b' \<and> next_rid b \<le> next_rid b' \<and> selfContained b' = selfContained b \<and>
     set (receivers b) - R \<subseteq> set (receivers b'))"

definition bcs_evolve :: "rref set \<Rightarrow> 's broadcaster list \<Rightarrow> 's broadcaster list \<Rightarrow> bool" where
  "bcs_evolve K bs bs' \<longleftrightarrow> length bs' = length bs \<and>
     (\<forall>i < length bs. bc_evolve {r. (i, r) \<in> K} (bs ! i) (bs' ! i))"

lemma bc_evolve_refl [simp]: "bc_evolve R b b"
  by (auto simp: bc_evolve_def)

lemma bc_evolve_trans: "bc_evolve R a b \<Longrightarrow> bc_evolve Q b c \<Longrightarrow> bc_evolve (R \<union> Q) a c"
  unfolding bc_evolve_def by auto

lemma bc_evolve_mono: "bc_evolve R a b \<Longrightarrow> R \<subseteq> Q \<Longrightarrow> bc_evolve Q a b"
  unfolding bc_evolve_def by blast

lemma bcs_evolve_refl [simp]: "bcs_evolve K bs bs"
  by (simp add: bcs_evolve_def)

lemma bcs_evolve_trans:
  assumes "bcs_evolve K a b" "bcs_evolve L b c"
  shows "bcs_evolve (K \<union> L) a c"
  unfolding bcs_evolve_def
proof (intro conjI allI impI)
  show "length c = length a" using assms by (simp add: bcs_evolve_def)
  fix i assume i: "i < length a"
  have "bc_evolve ({r. (i, r) \<in> K} \<union> {r. (i, r) \<in> L}) (a ! i) (c ! i)"
    using assms i by (intro bc_evolve_trans [of _ "a ! i" "b ! i"]) (simp_all add: bcs_evolve_def)
  then show "bc_evolve {r. (i, r) \<in> K \<union> L} (a ! i) (c ! i)" by (rule bc_evolve_mono) auto
qed

lemma bcs_evolve_mono: "bcs_evolve K a b \<Longrightarrow> K \<subseteq> L \<Longrightarrow> bcs_evolve L a b"
  unfolding bcs_evolve_def by (blast intro: bc_evolve_mono)

lemma bcs_evolve_trans0: "bcs_evolve {} a b \<Longrightarrow> bcs_evolve K b c \<Longrightarrow> bcs_evolve K a c"
  using bcs_evolve_trans [of "{}" a b K c] by simp

lemma bcs_evolve_update:
  "bc_evolve {r. (i, r) \<in> K} (bs ! i) b \<Longrightarrow> bcs_evolve K bs (bs[i := b])"
  by (cases "i < length bs") (auto simp: bcs_evolve_def nth_list_update)

lemma bc_evolve_subscribe:
  assumes "1 \<le> n" "subscribeWithCap n b = (r, b')"
  shows "bc_evolve {} b b' \<and> r = next_rid b \<and> next_rid b' = Suc r \<and> r \<in> set (receivers b')"
  using assms b_inv_subscribe [of b n]
  by (auto simp: bc_evolve_def subscribeWithCap_def Let_def)

lemma bc_evolve_Subscribe:
  "b_inv b \<Longrightarrow> Subscribe b = (r, b') \<Longrightarrow> bc_evolve {} b b' \<and> r = next_rid b \<and> next_rid b' = Suc r \<and> r \<in> set (receivers b')"
  unfolding Subscribe_def by (rule bc_evolve_subscribe) (simp_all add: b_inv_def)

lemma bc_evolve_SubscribeWithCapacity:
  "b_inv b \<Longrightarrow> SubscribeWithCapacity n b = (r, b') \<Longrightarrow>
     bc_evolve {} b b' \<and> r = next_rid b \<and> next_rid b' = Suc r \<and> r \<in> set (receivers b')"
  unfolding SubscribeWithCapacity_def Let_def
  by (rule bc_evolve_subscribe [of "nat (if n < int (chanSize b) then int (chanSize b) else n)"])
     (auto simp: b_inv_def)

lemma bc_evolve_close: "bc_evolve {r} b (Unsubscribe r b)" "bc_evolve UNIV b (Close b)"
  using b_inv_close [of b] by (auto simp: bc_evolve_def Unsubscribe_def Close_def)

lemma Publish_next_rid:
  assumes "b_inv b" "Publish au s b = Some (s', b')"
  shows "next_rid b' = next_rid b \<and> receivers b' = receivers b"
proof -
  have "receivers b' = receivers b" using Publish_cases [OF assms] by (auto split: option.splits)
  moreover have "next_rid b1 = next_rid b" if "publish_locked a b = Some b1" for a b1
    using that ring_frame_fields [OF append_more, of a "if au_Keyframe a then b\<lparr>latestKeyframe := Some a\<rparr> else b"]
    by (auto simp: publish_locked_def Let_def split: if_splits)
  ultimately show ?thesis using assms(2) by (fastforce simp: Publish_def split: prod.splits option.splits)
qed

lemma bc_evolve_Publish: "Publish au s b = Some (s', b') \<Longrightarrow> bc_evolve {} b b'"
  using Publish_frame [of b au s s' b'] Publish_next_rid [of b au s s' b'] by (auto simp: bc_evolve_def)

lemma bc_evolve_on_receiver:
  assumes "\<And>x. rc_ok x \<Longrightarrow> \<exists>y. f x = Some y \<and> rc_ok y \<and> rc_closed y = rc_closed x" "on_receiver f r b = Some b'"
  shows "bc_evolve {} b b'"
  using on_receiver_inv [of b f r] assms
  by (auto simp: bc_evolve_def on_receiver_def split: option.splits)

lemma on_receiver_total:
  assumes "b_inv b" "\<And>x. rc_ok x \<Longrightarrow> \<exists>y. f x = Some y \<and> rc_ok y \<and> rc_closed y = rc_closed x"
  shows "\<exists>b'. on_receiver f r b = Some b' \<and> bc_evolve {} b b'"
  using on_receiver_inv [OF assms] bc_evolve_on_receiver [OF assms(2)] by blast

lemma RequestKeyframe_ok:
  "rc_ok x \<Longrightarrow> \<exists>y. Some (Receiver_RequestKeyframe x) = Some y \<and> rc_ok y \<and> rc_closed y = rc_closed x"
  by (simp add: rc_ok_def Receiver_RequestKeyframe_def)

lemma bc_evolve_interceptors: "bc_evolve {} b (snd (AddInterceptor f b))" "bc_evolve {} b (remove_interceptor h b)"
  using b_inv_interceptors [of b]
  by (auto simp: bc_evolve_def AddInterceptor_def remove_interceptor_def Let_def split: option.split prod.split)

section \<open>Owners\<close>

definition session_refs :: "rref Session \<Rightarrow> rref multiset" where
  "session_refs x = mset (map (tp_recv \<circ> snd) (sn_tracks x))"

definition sessions_refs :: "(nat \<times> rref Session) list \<Rightarrow> rref multiset" where
  "sessions_refs xs = sum_list (map (session_refs \<circ> snd) xs)"

definition parked_refs :: "(string \<times> rref) list persistedSession multiset \<Rightarrow> rref multiset" where
  "parked_refs M = sum_mset (image_mset (\<lambda>p. mset (map snd (ps_receivers p))) M)"

definition srv_refs :: "'s Server \<Rightarrow> rref multiset" where
  "srv_refs s = sessions_refs (sv_sessions s) + parked_refs (stored (sv_store s))"

text \<open>No receiver has two owners, and one of a registered broadcaster is subscribed.\<close>

definition refs_ok :: "nat set \<Rightarrow> 's broadcaster list \<Rightarrow> rref multiset \<Rightarrow> bool" where
  "refs_ok T bs M \<longleftrightarrow> (\<forall>x. count M x \<le> 1) \<and>
     (\<forall>(i, r) \<in># M. i < length bs \<and> r < next_rid (bs ! i) \<and> (i \<in> T \<longrightarrow> r \<in> set (receivers (bs ! i))))"

definition registered :: "'s Server \<Rightarrow> nat set" where
  "registered s = te_bc ` snd ` set (sv_tracks s)"

definition tracks_ok :: "'s broadcaster list \<Rightarrow> (string \<times> trackEntry) list \<Rightarrow> bool" where
  "tracks_ok bs ts \<longleftrightarrow> distinct (map fst ts) \<and> distinct (map (te_bc \<circ> snd) ts) \<and>
     (\<forall>(n, t) \<in> set ts. te_name t = n \<and> te_kind t \<noteq> [] \<and> te_bc t < length bs \<and>
        (selfContained (bs ! te_bc t) \<longleftrightarrow> te_kind t \<noteq> KindVideo))"

definition keys_ok :: "'s Server \<Rightarrow> bool" where
  "keys_ok s \<longleftrightarrow> distinct (map fst (sv_sessions s)) \<and> (\<forall>k \<in> fst ` set (sv_sessions s). k < sv_nextRef s) \<and>
     distinct (map fst (byID (sv_store s)))"

definition srv_inv :: "'s Server \<Rightarrow> bool" where
  "srv_inv s \<longleftrightarrow> (\<forall>b \<in> set (sv_bcs s). b_inv b) \<and> tracks_ok (sv_bcs s) (sv_tracks s) \<and>
     refs_ok (registered s) (sv_bcs s) (srv_refs s) \<and> keys_ok s"

lemma tracks_okD:
  assumes "tracks_ok bs ts" "(n, t) \<in> set ts"
  shows "te_name t = n" "te_kind t \<noteq> []" "te_bc t < length bs" "selfContained (bs ! te_bc t) \<longleftrightarrow> te_kind t \<noteq> KindVideo"
  using assms unfolding tracks_ok_def by auto

lemma parked_refs_mono: "M \<subseteq># N \<Longrightarrow> parked_refs M \<subseteq># parked_refs N"
  unfolding parked_refs_def by (metis image_mset_union mset_subset_eq_add_left subset_mset.add_diff_inverse sum_mset.union)

lemma parked_refs_simps [simp]:
  "parked_refs {#} = {#}" "parked_refs (add_mset p M) = mset (map snd (ps_receivers p)) + parked_refs M"
  "parked_refs (M + N) = parked_refs M + parked_refs N"
  by (simp_all add: parked_refs_def)

lemma sessions_refs_simps [simp]:
  "sessions_refs [] = {#}" "sessions_refs (p # xs) = session_refs (snd p) + sessions_refs xs"
  "sessions_refs (xs @ ys) = sessions_refs xs + sessions_refs ys"
  by (simp_all add: sessions_refs_def)

lemma session_refs_New [simp]: "session_refs (NewSession c) = {#}"
  by (simp add: session_refs_def NewSession_def)

lemma sessions_refs_update:
  assumes "distinct (map fst xs)" "\<And>x. session_refs (f x) \<subseteq># session_refs x + N"
  shows "sessions_refs (map (\<lambda>(k, x). (k, if k = ref then f x else x)) xs) \<subseteq># sessions_refs xs + N"
  using assms(1)
proof (induction xs)
  case (Cons p xs)
  obtain k x where p: "p = (k, x)" by fastforce
  show ?case
  proof (cases "k = ref")
    case True
    then have "map (\<lambda>(k, x). (k, if k = ref then f x else x)) xs = xs"
      using Cons.prems p by (intro map_idI) (auto simp: image_iff)
    then show ?thesis using True p subset_mset.add_right_mono [OF assms(2) [of x], of "sessions_refs xs"] by (simp add: ac_simps)
  next
    case False
    then show ?thesis using Cons p by (simp add: add.assoc)
  qed
qed simp

lemma sessions_refs_update_frame:
  "(\<And>x. session_refs (f x) = session_refs x) \<Longrightarrow>
     sessions_refs (map (\<lambda>(k, x). (k, if k = ref then f x else x)) xs) = sessions_refs xs"
  by (induction xs) auto

lemma sessions_refs_delete:
  assumes "distinct (map fst xs)" "map_of xs ref = Some x"
  shows "sessions_refs xs = session_refs x + sessions_refs (filter (\<lambda>p. fst p \<noteq> ref) xs)"
  using assms
proof (induction xs)
  case (Cons p xs)
  then show ?case
  proof (cases "fst p = ref")
    case True
    then have "filter (\<lambda>p. fst p \<noteq> ref) xs = xs" using Cons.prems by (auto simp: filter_id_conv rev_image_eqI)
    then show ?thesis using True Cons.prems by simp
  qed (simp add: ac_simps)
qed simp

lemma refs_ok_subset: "refs_ok T bs M \<Longrightarrow> N \<subseteq># M \<Longrightarrow> refs_ok T bs N"
  unfolding refs_ok_def by (meson le_trans mset_subset_eqD mset_subset_eq_count)

lemma refs_ok_step:
  assumes "refs_ok T bs M" "\<forall>b \<in> set bs. b_inv b" "bcs_evolve K bs bs'" "T' \<subseteq> T" "N \<subseteq># M"
    and "\<And>i r. (i, r) \<in># N \<Longrightarrow> i \<in> T' \<Longrightarrow> (i, r) \<notin> K"
  shows "refs_ok T' bs' N"
proof -
  have N: "refs_ok T bs N" using assms(1,5) by (rule refs_ok_subset)
  have "i < length bs' \<and> r < next_rid (bs' ! i) \<and> (i \<in> T' \<longrightarrow> r \<in> set (receivers (bs' ! i)))" if ir: "(i, r) \<in># N" for i r
  proof -
    have i: "i < length bs" "r < next_rid (bs ! i)" "i \<in> T \<Longrightarrow> r \<in> set (receivers (bs ! i))"
      using N ir by (auto simp: refs_ok_def)
    then have "bc_evolve {r. (i, r) \<in> K} (bs ! i) (bs' ! i)" "b_inv (bs ! i)" "length bs' = length bs"
      using assms(2,3) by (auto simp: bcs_evolve_def)
    then show ?thesis using i assms(4) assms(6) [OF ir] by (auto simp: bc_evolve_def)
  qed
  then show ?thesis using N by (auto simp: refs_ok_def)
qed

text \<open>Receivers that an operation created and gave to an owner.\<close>

definition fresh_refs :: "'s broadcaster list \<Rightarrow> 's broadcaster list \<Rightarrow> rref list \<Rightarrow> bool" where
  "fresh_refs bs bs' new \<longleftrightarrow> distinct new \<and> (\<forall>(i, r) \<in> set new. i < length bs \<and> next_rid (bs ! i) \<le> r \<and>
     r < next_rid (bs' ! i) \<and> r \<in> set (receivers (bs' ! i)))"

lemma refs_ok_count: "refs_ok T bs M \<Longrightarrow> count M x \<le> 1"
  unfolding refs_ok_def by blast

lemma count_distinct_le: "distinct xs \<Longrightarrow> count (mset xs) x \<le> 1"
  by (drule distinct_count_atmost_1 [THEN iffD1, rule_format, of _ x]) simp

lemma refs_ok_new:
  assumes "refs_ok T bs M" "\<forall>b \<in> set bs. b_inv b" "bcs_evolve {} bs bs'" "fresh_refs bs bs' new"
  shows "refs_ok T bs' (M + mset new)"
proof -
  have M: "refs_ok T bs' M" using refs_ok_step [OF assms(1-3), of T M] by simp
  have disj: "x \<notin># M" if "x \<in> set new" for x
    using assms(1,4) that by (cases x) (fastforce simp: refs_ok_def fresh_refs_def)
  have "count (M + mset new) x \<le> 1" for x
  proof (cases "x \<in> set new")
    case True
    moreover have "count (mset new) x \<le> 1" using assms(4) unfolding fresh_refs_def by (blast intro: count_distinct_le)
    ultimately show ?thesis using disj [OF True] by (simp add: not_in_iff)
  next
    case False
    then have "count (mset new) x = 0" by (simp add: count_eq_zero_iff)
    then show ?thesis using refs_ok_count [OF M, of x] unfolding count_union by linarith
  qed
  then show ?thesis using M assms(3,4) by (auto simp: refs_ok_def fresh_refs_def bcs_evolve_def)
qed

text \<open>The rule for an operation: broadcasters evolve, owners keep theirs or get new ones, and what was
  dropped of a registered broadcaster has no owner any more.\<close>

lemma srv_inv_step:
  assumes "srv_inv s" "bcs_evolve {} (sv_bcs s) bs1" "fresh_refs (sv_bcs s) bs1 new"
    and "bcs_evolve K bs1 (sv_bcs s')" "set (sv_tracks s') \<subseteq> set (sv_tracks s)" "distinct (map fst (sv_tracks s'))"
    "distinct (map (te_bc \<circ> snd) (sv_tracks s'))"
    and "srv_refs s' \<subseteq># srv_refs s + mset new" "keys_ok s'"
    and "\<And>i r. (i, r) \<in># srv_refs s' \<Longrightarrow> i \<in> registered s' \<Longrightarrow> (i, r) \<notin> K"
  shows "srv_inv s'"
proof -
  have inv0: "\<forall>b \<in> set (sv_bcs s). b_inv b" and refs0: "refs_ok (registered s) (sv_bcs s) (srv_refs s)"
    and tr0: "tracks_ok (sv_bcs s) (sv_tracks s)" using assms(1) by (simp_all add: srv_inv_def)
  have inv1: "\<forall>b \<in> set bs1. b_inv b"
    using inv0 assms(2) by (auto simp: bcs_evolve_def bc_evolve_def all_set_conv_all_nth)
  have inv2: "\<forall>b \<in> set (sv_bcs s'). b_inv b"
    using inv1 assms(4) by (auto simp: bcs_evolve_def bc_evolve_def all_set_conv_all_nth)
  have refs1: "refs_ok (registered s) bs1 (srv_refs s + mset new)"
    using refs0 inv0 assms(2,3) by (rule refs_ok_new)
  have "registered s' \<subseteq> registered s" using assms(5) by (auto simp: registered_def)
  then have refs: "refs_ok (registered s') (sv_bcs s') (srv_refs s')"
    by (rule refs_ok_step [OF refs1 inv1 assms(4) _ assms(8)]) (rule assms(10))
  have sc: "selfContained (sv_bcs s' ! i) = selfContained (sv_bcs s ! i)" if "i < length (sv_bcs s)" for i
    using that assms(2,4) inv0 inv1 by (simp add: bcs_evolve_def bc_evolve_def)
  have "length (sv_bcs s') = length (sv_bcs s)" using assms(2,4) by (simp add: bcs_evolve_def)
  moreover have "(n, t) \<in> set (sv_tracks s)" if "(n, t) \<in> set (sv_tracks s')" for n t using that assms(5) by blast
  ultimately have "te_name t = n \<and> te_kind t \<noteq> [] \<and> te_bc t < length (sv_bcs s') \<and>
      (selfContained (sv_bcs s' ! te_bc t) \<longleftrightarrow> te_kind t \<noteq> KindVideo)" if "(n, t) \<in> set (sv_tracks s')" for n t
    using tracks_okD [OF tr0, of n t] sc [of "te_bc t"] that by simp
  then have "tracks_ok (sv_bcs s') (sv_tracks s')" using assms(6,7) unfolding tracks_ok_def by auto
  then show ?thesis using inv2 refs assms(9) by (simp add: srv_inv_def)
qed

section \<open>Operations on broadcasters\<close>

abbreviation bcs_inv :: "'s broadcaster list \<Rightarrow> bool" where
  "bcs_inv bs \<equiv> \<forall>b \<in> set bs. b_inv b"

lemma bcs_evolve_inv: "bcs_evolve K bs bs' \<Longrightarrow> bcs_inv bs \<Longrightarrow> bcs_inv bs'"
  by (auto simp: bcs_evolve_def bc_evolve_def all_set_conv_all_nth)

lemma fresh_refs_Nil [simp]: "fresh_refs bs bs' []"
  by (simp add: fresh_refs_def)

lemma fresh_refs_Cons:
  assumes "bcs_inv bs" "bcs_evolve {} bs bs1" "bcs_evolve {} bs1 bs'" "fresh_refs bs bs1 [x]" "fresh_refs bs1 bs' xs"
  shows "fresh_refs bs bs' (x # xs)"
proof -
  obtain i r where x: "x = (i, r)" by fastforce
  have i: "i < length bs" "next_rid (bs ! i) \<le> r" "r < next_rid (bs1 ! i)" "r \<in> set (receivers (bs1 ! i))"
    using assms(4) x by (auto simp: fresh_refs_def)
  have inv1: "bcs_inv bs1" using assms(1,2) bcs_evolve_inv by blast
  have ev: "next_rid (bs ! j) \<le> next_rid (bs1 ! j)" "next_rid (bs1 ! j) \<le> next_rid (bs' ! j)"
    "set (receivers (bs1 ! j)) \<subseteq> set (receivers (bs' ! j))" "length bs1 = length bs" if "j < length bs" for j
    using that assms(1-3) inv1 by (auto simp: bcs_evolve_def bc_evolve_def)
  have xs: "j < length bs" "next_rid (bs1 ! j) \<le> q" "q < next_rid (bs' ! j)" "q \<in> set (receivers (bs' ! j))"
    if "(j, q) \<in> set xs" for j q
    using that assms(5) ev(4) [OF i(1)] by (auto simp: fresh_refs_def)
  have "x \<notin> set xs" using xs [of i r] i(3) x by auto
  moreover have "next_rid (bs ! j) \<le> q" if "(j, q) \<in> set xs" for j q
    using ev(1) [OF xs(1) [OF that]] xs(2) [OF that] by simp
  moreover have "r < next_rid (bs' ! i)" "r \<in> set (receivers (bs' ! i))" using ev [OF i(1)] i by auto
  ultimately show ?thesis using x i xs assms(5) by (auto simp: fresh_refs_def)
qed

lemma fresh_refs_subscribe:
  assumes "i < length bs" "bc_evolve {} (bs ! i) b" "r = next_rid (bs ! i)" "next_rid b = Suc r" "r \<in> set (receivers b)"
  shows "bcs_evolve {} bs (bs[i := b])" "fresh_refs bs (bs[i := b]) [(i, r)]"
  using assms by (simp_all add: bcs_evolve_update fresh_refs_def)

lemma subscribe_tracks_fresh:
  assumes "\<And>b r b'. b_inv b \<Longrightarrow> sub b = (r, b') \<Longrightarrow>
      bc_evolve {} b b' \<and> r = next_rid b \<and> next_rid b' = Suc r \<and> r \<in> set (receivers b')"
    and "\<forall>t \<in> set ts. te_bc t < length bs" "bcs_inv bs" "subscribe_tracks sub ts bs = (rs, bs')"
  shows "bcs_evolve {} bs bs' \<and> fresh_refs bs bs' (map snd rs) \<and> map fst rs = map te_name ts"
  using assms(2-4)
proof (induction ts arbitrary: bs rs)
  case (Cons t ts)
  obtain r b where sb: "sub (bs ! te_bc t) = (r, b)" by fastforce
  obtain rs1 where rs1: "subscribe_tracks sub ts (bs[te_bc t := b]) = (rs1, bs')" "rs = (te_name t, te_bc t, r) # rs1"
    using Cons.prems(3) sb by (auto split: prod.splits)
  have "b_inv (bs ! te_bc t)" using Cons.prems(1,2) by simp
  note b = assms(1) [OF this sb]
  have f: "bcs_evolve {} bs (bs[te_bc t := b])" "fresh_refs bs (bs[te_bc t := b]) [(te_bc t, r)]"
    using fresh_refs_subscribe [of "te_bc t" bs b r] b Cons.prems(1) by auto
  have IH: "bcs_evolve {} (bs[te_bc t := b]) bs' \<and> fresh_refs (bs[te_bc t := b]) bs' (map snd rs1) \<and> map fst rs1 = map te_name ts"
    using Cons.prems(1) bcs_evolve_inv [OF f(1) Cons.prems(2)] by (intro Cons.IH [OF _ _ rs1(1)]) auto
  show ?case using IH f(1) bcs_evolve_trans0 fresh_refs_Cons [OF Cons.prems(2) f(1) _ f(2)] rs1(2) by auto
qed auto

lemma bcs_evolve_Unsubscribe: "bcs_evolve {rr} (sv_bcs s) (sv_bcs (sv_Unsubscribe i rr s))"
proof (cases "fst rr = i")
  case True
  have "bc_evolve {r. (i, r) \<in> {rr}} (sv_bcs s ! i) (Unsubscribe (snd rr) (sv_bcs s ! i))"
    by (rule bc_evolve_mono [OF bc_evolve_close(1)]) (use True in auto)
  then show ?thesis using True by (simp add: sv_Unsubscribe_def upd_bc_def bcs_evolve_update)
qed (simp add: sv_Unsubscribe_def)

text \<open>Operations that leave everything but the broadcasters alone.\<close>

definition only_bcs :: "rref set \<Rightarrow> 's Server \<Rightarrow> 's Server \<Rightarrow> bool" where
  "only_bcs K s s' \<longleftrightarrow> bcs_evolve K (sv_bcs s) (sv_bcs s') \<and> s' = s\<lparr>sv_bcs := sv_bcs s'\<rparr>"

lemma only_bcs_refl [simp]: "only_bcs K s s"
  by (simp add: only_bcs_def)

lemma only_bcs_trans: "only_bcs K a b \<Longrightarrow> only_bcs L b c \<Longrightarrow> only_bcs (K \<union> L) a c"
proof -
  assume "only_bcs K a b" "only_bcs L b c"
  then obtain bs cs where "b = a\<lparr>sv_bcs := bs\<rparr>" "c = b\<lparr>sv_bcs := cs\<rparr>" "bcs_evolve K (sv_bcs a) bs" "bcs_evolve L bs cs"
    unfolding only_bcs_def by (metis Server.select_convs(5) Server.surjective Server.update_convs(5))
  then show ?thesis using bcs_evolve_trans by (fastforce simp: only_bcs_def)
qed

lemma only_bcs_mono: "only_bcs K a b \<Longrightarrow> K \<subseteq> L \<Longrightarrow> only_bcs L a b"
  by (auto simp: only_bcs_def intro: bcs_evolve_mono)

lemma only_bcs_fold:
  assumes "\<And>x s. x \<in> set xs \<Longrightarrow> only_bcs (K x) s (f x s)"
  shows "only_bcs (\<Union>x \<in> set xs. K x) s (fold f xs s)"
  using assms
proof (induction xs arbitrary: s)
  case (Cons x xs)
  then show ?case using only_bcs_trans [of "K x" s "f x s" "\<Union>x \<in> set xs. K x"] by simp
qed simp

lemma only_bcs_Unsubscribe: "only_bcs {rr} s (sv_Unsubscribe i rr s)"
  using bcs_evolve_Unsubscribe [of rr s i] by (simp add: only_bcs_def sv_Unsubscribe_def upd_bc_def)

lemma only_bcs_sel:
  assumes "only_bcs K s s'"
  shows "sv_cfg s' = sv_cfg s" "sv_tracks s' = sv_tracks s" "sv_sessions s' = sv_sessions s" "sv_nextRef s' = sv_nextRef s"
    "sv_store s' = sv_store s" "srv_refs s' = srv_refs s" "registered s' = registered s" "keys_ok s' = keys_ok s"
    "sv_slug s' = sv_slug s"
proof -
  have "s' = s\<lparr>sv_bcs := sv_bcs s'\<rparr>" using assms by (simp add: only_bcs_def)
  then obtain bs where "s' = s\<lparr>sv_bcs := bs\<rparr>" by blast
  then show "sv_cfg s' = sv_cfg s" "sv_tracks s' = sv_tracks s" "sv_sessions s' = sv_sessions s" "sv_nextRef s' = sv_nextRef s"
    "sv_store s' = sv_store s" "srv_refs s' = srv_refs s" "registered s' = registered s" "keys_ok s' = keys_ok s"
    "sv_slug s' = sv_slug s"
    by (simp_all add: srv_refs_def registered_def keys_ok_def)
qed

lemma srv_inv_only_bcs:
  assumes "srv_inv s" "only_bcs {} s s'"
  shows "srv_inv s'"
  by (rule srv_inv_step [OF assms(1), of "sv_bcs s" "[]" "{}"])
     (use assms in \<open>auto simp: only_bcs_sel [OF assms(2)] srv_inv_def tracks_ok_def only_bcs_def\<close>)

lemma unsubscribe_all_bcs:
  "only_bcs (snd ` set rs) s (fold (\<lambda>(name, rr). sv_Unsubscribe (fst rr) rr) rs s)"
proof -
  have "only_bcs (\<Union>x \<in> set rs. {snd x}) s (fold (\<lambda>(name, rr). sv_Unsubscribe (fst rr) rr) rs s)"
    by (rule only_bcs_fold) (auto simp: only_bcs_Unsubscribe)
  then show ?thesis by (rule only_bcs_mono) auto
qed

lemma set_store_bcs:
  assumes "st_evicted st = st_evicted (sv_store s) @ ev"
  shows "only_bcs (set_mset (parked_refs (mset ev))) (s\<lparr>sv_store := st\<rparr>) (set_store st s)"
proof -
  have "only_bcs (\<Union>p \<in> set ev. snd ` set (ps_receivers p)) (s\<lparr>sv_store := st\<rparr>) (set_store st s)"
    unfolding set_store_def using assms by (simp, intro only_bcs_fold unsubscribe_all_bcs)
  then show ?thesis by (rule only_bcs_mono) (auto simp: parked_refs_def)
qed

lemma Receivers_refs: "rr \<in> set (Receivers name x) \<Longrightarrow> rr \<in># session_refs x"
proof -
  assume "rr \<in> set (Receivers name x)"
  then obtain tp where "map_of (sn_tracks x) name = Some tp" "rr = tp_recv tp"
    by (cases "map_of (sn_tracks x) name") (auto simp: Receivers_def)
  then show ?thesis using map_of_SomeD [of "sn_tracks x" name tp] by (auto simp: session_refs_def intro: rev_image_eqI)
qed

lemma unsubscribe_active_bcs: "only_bcs (set_mset (session_refs x)) s (unsubscribe_active x ts s)"
proof -
  have "only_bcs (\<Union>t \<in> set ts. \<Union>rr \<in> set (Receivers (te_name t) x). {rr}) s (unsubscribe_active x ts s)"
    unfolding unsubscribe_active_def by (intro only_bcs_fold only_bcs_Unsubscribe)
  then show ?thesis by (rule only_bcs_mono) (use Receivers_refs in blast)
qed

section \<open>Operations on sessions\<close>

lemma session_refs_cong [simp]:
  "session_refs (x\<lparr>sn_ctl := w\<rparr>) = session_refs x" "session_refs (x\<lparr>sn_Tenant := t\<rparr>) = session_refs x"
  "session_refs (x\<lparr>sn_SessionID := t\<rparr>) = session_refs x" "session_refs (x\<lparr>sn_resumedLeading := l\<rparr>) = session_refs x"
  "session_refs (Run_start x) = session_refs x"
  by (simp_all add: session_refs_def Run_start_def)

lemma session_refs_Send [simp]:
  "session_refs (SendAnnounce ja n k c x) = session_refs x" "session_refs (SendUnannounce ju n x) = session_refs x"
  "session_refs (SendClose m x) = session_refs x"
  by (simp_all add: SendAnnounce_def SendUnannounce_def SendClose_def ctlWriter_Write_def split_beta split: sum.split)

lemma session_refs_attach: "session_refs (AttachTrackWithKind cfg n k r p i x) \<subseteq># session_refs x + {#r#}"
  by (simp add: AttachTrackWithKind_def session_refs_def Let_def)

lemma session_refs_detach: "session_refs (DetachTrack n x) \<subseteq># session_refs x"
  by (simp add: DetachTrack_def session_refs_def image_mset_subseteq_mono multiset_filter_subset)

lemma session_refs_attach_all:
  assumes "\<And>n r x. session_refs (f n r x) \<subseteq># session_refs x + {#r#}"
  shows "session_refs (fold (\<lambda>(n, r). f n r) rs x) \<subseteq># session_refs x + mset (map snd rs)"
proof (induction rs arbitrary: x)
  case (Cons p rs)
  obtain n r where p: "p = (n, r)" by (rule prod.exhaust)
  have "session_refs (fold (\<lambda>(n, r). f n r) rs (f n r x)) \<subseteq># session_refs (f n r x) + mset (map snd rs)" by (rule Cons.IH)
  also have "\<dots> \<subseteq># session_refs x + {#r#} + mset (map snd rs)" using assms by simp
  finally show ?case using p by simp
qed simp

lemma session_refs_resumed:
  "session_refs (attach_resumed cfg hk hello rs x) \<subseteq># session_refs x + mset (map snd rs)"
proof -
  define y where "y = (if h_LastSeenSeq hello \<noteq> []
    then x\<lparr>sn_SessionID := h_SessionID hello, sn_resumedLeading := map fst (h_LastSeenSeq hello)\<rparr>
    else x\<lparr>sn_SessionID := h_SessionID hello\<rparr>)"
  have "session_refs (fold (\<lambda>(n, r). AttachTrack cfg hk n r) rs y) \<subseteq># session_refs y + mset (map snd rs)"
    unfolding AttachTrack_def AttachTrackWithTrackID_def by (rule session_refs_attach_all) (rule session_refs_attach)
  then show ?thesis by (simp add: attach_resumed_def y_def Let_def session_refs_def split: if_splits)
qed

lemma session_refs_fresh:
  assumes "hk_Fresh hk = Some rs"
  shows "session_refs (attach_fresh cfg hk x) \<subseteq># session_refs x + mset (map snd rs)"
proof -
  define y where "y = (case hk_AllocateID hk of None \<Rightarrow> x | Some sid \<Rightarrow> x\<lparr>sn_SessionID := sid\<rparr>)"
  have "session_refs (fold (\<lambda>(n, r). AttachTrackWithKind cfg n (case hk_Kind hk of None \<Rightarrow> [] | Some f \<Rightarrow> f n) r
      (case hk_Priority hk of None \<Rightarrow> 4 | Some f \<Rightarrow> f n) (case hk_TrackID hk of None \<Rightarrow> 0 | Some f \<Rightarrow> f n)) rs y)
    \<subseteq># session_refs y + mset (map snd rs)"
    by (rule session_refs_attach_all) (rule session_refs_attach)
  moreover have "session_refs y = session_refs x" by (simp add: y_def split: option.split)
  ultimately show ?thesis using assms by (simp add: attach_fresh_def y_def Let_def)
qed

lemma upd_session_sel [simp]:
  "sv_cfg (upd_session ref f s) = sv_cfg s" "sv_bcs (upd_session ref f s) = sv_bcs s"
  "sv_tracks (upd_session ref f s) = sv_tracks s" "sv_store (upd_session ref f s) = sv_store s"
  "sv_nextRef (upd_session ref f s) = sv_nextRef s" "registered (upd_session ref f s) = registered s"
  "map fst (sv_sessions (upd_session ref f s)) = map fst (sv_sessions s)"
  by (simp_all add: upd_session_def registered_def split_beta)

lemma upd_session_keys [simp]: "keys_ok (upd_session ref f s) = keys_ok s"
proof -
  have "fst ` set (sv_sessions (upd_session ref f s)) = fst ` set (sv_sessions s)"
    using upd_session_sel(7) [of ref f s] by (metis set_map)
  then show ?thesis unfolding keys_ok_def by simp
qed

lemma upd_session_refs:
  assumes "keys_ok s" "\<And>x. session_refs (f x) \<subseteq># session_refs x + N"
  shows "srv_refs (upd_session ref f s) \<subseteq># srv_refs s + N"
proof -
  have "sessions_refs (sv_sessions (upd_session ref f s)) \<subseteq># sessions_refs (sv_sessions s) + N"
    unfolding upd_session_def using sessions_refs_update [OF _ assms(2), of "sv_sessions s" ref] assms(1)
    by (simp add: keys_ok_def)
  then show ?thesis unfolding srv_refs_def by (simp add: ac_simps)
qed

section \<open>Every operation keeps the invariant\<close>

lemma srv_inv_bcs: "srv_inv s \<Longrightarrow> bcs_inv (sv_bcs s)"
  and srv_inv_tracks: "srv_inv s \<Longrightarrow> tracks_ok (sv_bcs s) (sv_tracks s)"
  and srv_inv_refs: "srv_inv s \<Longrightarrow> refs_ok (registered s) (sv_bcs s) (srv_refs s)"
  and srv_inv_keys: "srv_inv s \<Longrightarrow> keys_ok s"
  by (simp_all add: srv_inv_def)

lemma srv_inv_distinct:
  "srv_inv s \<Longrightarrow> distinct (map fst (sv_tracks s))" "srv_inv s \<Longrightarrow> distinct (map (te_bc \<circ> snd) (sv_tracks s))"
  by (simp_all add: srv_inv_def tracks_ok_def)

text \<open>Sessions change, or new receivers are given to one.\<close>

lemma srv_inv_upd_session:
  assumes "srv_inv s" "only_bcs {} s s1" "fresh_refs (sv_bcs s) (sv_bcs s1) new"
    and "\<And>x. session_refs (f x) \<subseteq># session_refs x + mset new"
  shows "srv_inv (upd_session ref f s1)"
proof (rule srv_inv_step [OF assms(1) _ assms(3), of "{}"])
  note sel = only_bcs_sel [OF assms(2)]
  show "bcs_evolve {} (sv_bcs s) (sv_bcs s1)" using assms(2) by (simp add: only_bcs_def)
  show "srv_refs (upd_session ref f s1) \<subseteq># srv_refs s + mset new"
    using upd_session_refs [of s1 f "mset new" ref] assms(4) srv_inv_keys [OF assms(1)] sel by simp
qed (use assms(1) srv_inv_distinct [OF assms(1)] only_bcs_sel [OF assms(2)] in \<open>simp_all add: srv_inv_keys\<close>)

lemma only_bcs_bcs: "bcs_evolve K (sv_bcs s) bs \<Longrightarrow> only_bcs K s (s\<lparr>sv_bcs := bs\<rparr>)"
  by (simp add: only_bcs_def)

lemma srv_inv_notify:
  assumes "srv_inv s" "i < length (sv_bcs s)"
  shows "srv_inv (notify_added ja n k p tid i ref s) \<and> length (sv_bcs (notify_added ja n k p tid i ref s)) = length (sv_bcs s)"
proof -
  obtain r b where sb: "Subscribe (sv_bcs s ! i) = (r, b)" by fastforce
  have "b_inv (sv_bcs s ! i)" using srv_inv_bcs [OF assms(1)] assms(2) by simp
  from bc_evolve_Subscribe [OF this sb] assms(2)
  have f: "bcs_evolve {} (sv_bcs s) ((sv_bcs s)[i := b])" "fresh_refs (sv_bcs s) ((sv_bcs s)[i := b]) [(i, r)]"
    using fresh_refs_subscribe [of i "sv_bcs s" b r] by auto
  have "srv_inv (upd_session ref (\<lambda>x. SendAnnounce ja n k [] (AttachTrackWithKind (session_config s) n k (i, r) p tid x))
      (s\<lparr>sv_bcs := (sv_bcs s)[i := b]\<rparr>))"
    by (rule srv_inv_upd_session [OF assms(1) only_bcs_bcs [OF f(1)], of "[(i, r)]"])
       (use f(2) session_refs_attach [of "session_config s" n k "(i, r)"] in simp_all)
  then show ?thesis by (simp add: notify_added_def sb)
qed

lemma fold_keeps: "P s \<Longrightarrow> (\<And>x s. x \<in> set xs \<Longrightarrow> P s \<Longrightarrow> P (f x s)) \<Longrightarrow> P (fold f xs s)"
  by (induction xs arbitrary: s) simp_all

lemma attach_recorder_evolve: "bcs_evolve {} bs (snd (attach_recorder_to rec n k i (e, bs)))"
  using bc_evolve_interceptors(1) [of "bs ! i" "Some (recorder_fn rec n k)"]
  by (auto simp: attach_recorder_to_def split_beta intro: bcs_evolve_update)

lemma recorders_to_track_evolve: "bcs_evolve {} bs (snd (recorders_to_track n k i es bs))"
proof (induction es arbitrary: bs)
  case (Cons e es)
  define q where "q = (case re_rec e of None \<Rightarrow> (e, bs) | Some rec \<Rightarrow> attach_recorder_to rec n k i (e, bs))"
  have "bcs_evolve {} bs (snd q)" by (simp add: q_def attach_recorder_evolve split: option.split)
  from bcs_evolve_trans0 [OF this Cons.IH [of "snd q"]]
  show ?case by (simp add: q_def [symmetric] split_beta Let_def)
qed simp

lemma srv_inv_recorders: "srv_inv (s\<lparr>sv_recorders := es\<rparr>) = srv_inv s" "srv_inv (s\<lparr>sv_app := a\<rparr>) = srv_inv s"
  by (simp_all add: srv_inv_def srv_refs_def registered_def keys_ok_def)

lemma srv_inv_attachRecorders: "srv_inv s \<Longrightarrow> srv_inv (attachRecordersToTrack n k i s)"
proof -
  assume inv: "srv_inv s"
  obtain es bs where r: "recorders_to_track n k i (sv_recorders s) (sv_bcs s) = (es, bs)" by fastforce
  have "bcs_evolve {} (sv_bcs s) bs" using recorders_to_track_evolve [of "sv_bcs s" n k i "sv_recorders s"] r by simp
  then have "only_bcs {} (s\<lparr>sv_recorders := es\<rparr>) (s\<lparr>sv_recorders := es, sv_bcs := bs\<rparr>)" by (simp add: only_bcs_def)
  then have "srv_inv (s\<lparr>sv_recorders := es, sv_bcs := bs\<rparr>)" using inv srv_inv_only_bcs srv_inv_recorders(1) by blast
  then show ?thesis using r by (simp add: attachRecordersToTrack_def)
qed

text \<open>A new broadcaster and its registry entry.\<close>

lemma srv_inv_register:
  assumes "srv_inv s" "map_of (sv_tracks s) n = None" "b_inv b" "k \<noteq> []" "selfContained b \<longleftrightarrow> k \<noteq> KindVideo"
  shows "srv_inv (s\<lparr>sv_bcs := sv_bcs s @ [b], sv_tracks := sv_tracks s @
    [(n, \<lparr>te_name = n, te_kind = k, te_priority = p, te_trackID = tid, te_bc = length (sv_bcs s)\<rparr>)]\<rparr>)" (is "srv_inv ?s")
proof -
  have tr: "tracks_ok (sv_bcs s) (sv_tracks s)" using assms(1) by (rule srv_inv_tracks)
  have less: "te_bc t < length (sv_bcs s)" if "(m, t) \<in> set (sv_tracks s)" for m t by (rule tracks_okD(3) [OF tr that])
  have "tracks_ok (sv_bcs ?s) (sv_tracks ?s)"
    using tr less assms(2,4,5) unfolding tracks_ok_def
    by (auto simp: nth_append map_of_eq_None_iff image_iff)
  moreover have "i < length (sv_bcs s)" if "(i, r) \<in># srv_refs s" for i r
    using srv_inv_refs [OF assms(1)] that by (auto simp: refs_ok_def)
  then have "refs_ok (registered ?s) (sv_bcs ?s) (srv_refs s)"
    using srv_inv_refs [OF assms(1)] unfolding refs_ok_def by (fastforce simp: registered_def nth_append)
  ultimately show ?thesis
    using assms(1,3) by (simp add: srv_inv_def srv_refs_def keys_ok_def)
qed

lemma srv_inv_addTrackInternal:
  fixes s :: "'s Server"
  assumes "srv_inv s" "kind \<noteq> []"
  shows "srv_inv (snd (addTrackInternal ja n kind p tid s))"
proof (cases "map_of (sv_tracks s) n")
  case None
  define b :: "'s broadcaster" where "b = (if kind \<noteq> KindVideo \<and> kind \<noteq> [] then SetSelfContained True (NewBroadcaster (svc_PerSubscriberBuffer (sv_cfg s)))
    else NewBroadcaster (svc_PerSubscriberBuffer (sv_cfg s)))"
  have b0: "b_inv (NewBroadcaster m :: 's broadcaster)" "\<not> selfContained (NewBroadcaster m :: 's broadcaster)" for m
    by (simp add: NewBroadcaster_def b_inv_New) (simp add: NewBroadcaster_def NewBroadcasterWithBytes_def)
  have b: "b_inv b" "selfContained b \<longleftrightarrow> kind \<noteq> KindVideo"
    using b0 assms(2) by (auto simp: b_def SetSelfContained_def b_inv_def)
  define s1 where "s1 = s\<lparr>sv_bcs := sv_bcs s @ [b], sv_tracks := sv_tracks s @
    [(n, \<lparr>te_name = n, te_kind = kind, te_priority = p, te_trackID = tid, te_bc = length (sv_bcs s)\<rparr>)]\<rparr>"
  define s2 where "s2 = attachRecordersToTrack n kind (length (sv_bcs s)) s1"
  have "srv_inv s1" unfolding s1_def using assms(1) None b(1) assms(2) b(2) by (rule srv_inv_register)
  then have s2: "srv_inv s2" unfolding s2_def by (rule srv_inv_attachRecorders)
  have "length (sv_bcs s2) = length (sv_bcs s1)"
    using recorders_to_track_evolve [of "sv_bcs s1" n kind "length (sv_bcs s)" "sv_recorders s1"]
    by (simp add: s2_def attachRecordersToTrack_def split_beta bcs_evolve_def)
  then have len: "length (sv_bcs s) < length (sv_bcs s2)" by (simp add: s1_def)
  have "srv_inv t \<and> length (sv_bcs s) < length (sv_bcs t)"
    if "t = fold (notify_added ja n kind p tid (length (sv_bcs s))) (map fst (sv_sessions s2)) s2" for t
    unfolding that by (rule fold_keeps [where P = "\<lambda>t. srv_inv t \<and> length (sv_bcs s) < length (sv_bcs t)"])
      (use s2 len in \<open>auto simp: srv_inv_notify\<close>)
  then show ?thesis using None by (simp add: addTrackInternal_def b_def [symmetric] s1_def [symmetric] s2_def [symmetric] Let_def)
qed (use assms(1) in \<open>simp add: addTrackInternal_def\<close>)

lemma srv_inv_AddTrackSpec: "srv_inv s \<Longrightarrow> srv_inv (snd (AddTrackSpec ja spec s))"
  unfolding AddTrackSpec_def Let_def by (rule srv_inv_addTrackInternal) (simp_all add: KindVideo_def)

text \<open>Removing a track.\<close>

lemma keys_ok_fold_upd: "keys_ok (fold (\<lambda>ref. upd_session ref f) refs s) = keys_ok s"
  by (induction refs arbitrary: s) simp_all

lemma srv_refs_fold_upd:
  assumes "\<And>x. session_refs (f x) \<subseteq># session_refs x" "keys_ok s"
  shows "srv_refs (fold (\<lambda>ref. upd_session ref f) refs s) \<subseteq># srv_refs s"
  using assms(2)
proof (induction refs arbitrary: s)
  case (Cons r refs)
  have "srv_refs (fold (\<lambda>ref. upd_session ref f) refs (upd_session r f s)) \<subseteq># srv_refs (upd_session r f s)"
    using Cons by simp
  also have "\<dots> \<subseteq># srv_refs s" using upd_session_refs [OF Cons.prems, of f "{#}" r] assms(1) by simp
  finally show ?case by simp
qed simp

lemma fold_upd_sel:
  "sv_bcs (fold (\<lambda>ref. upd_session ref f) refs s) = sv_bcs s" "sv_tracks (fold (\<lambda>ref. upd_session ref f) refs s) = sv_tracks s"
  by (induction refs arbitrary: s) simp_all

lemma srv_inv_RemoveTrack:
  assumes "srv_inv s"
  shows "srv_inv (RemoveTrack ju n s)"
proof (cases "map_of (sv_tracks s) n")
  case (Some t)
  define f where "f = (\<lambda>x :: rref Session. SendUnannounce ju n (DetachTrack n x))"
  define s1 where "s1 = s\<lparr>sv_tracks := filter (\<lambda>p. fst p \<noteq> n) (sv_tracks s)\<rparr>"
  define s2 where "s2 = fold (\<lambda>ref. upd_session ref f) (map fst (sv_sessions s1)) s1"
  have rem: "RemoveTrack ju n s = upd_bc (te_bc t) Close s2"
    using Some by (simp add: RemoveTrack_def f_def s1_def s2_def Let_def)
  have s1: "keys_ok s1" "srv_refs s1 = srv_refs s" using srv_inv_keys [OF assms] by (simp_all add: s1_def keys_ok_def srv_refs_def)
  have mem: "(n, t) \<in> set (sv_tracks s)" using Some by (rule map_of_SomeD)
  have d: "distinct (map fst (sv_tracks s))" "distinct (map (te_bc \<circ> snd) (sv_tracks s))" using srv_inv_distinct [OF assms] .
  have notin: "te_bc t \<notin> registered (RemoveTrack ju n s)"
  proof
    assume "te_bc t \<in> registered (RemoveTrack ju n s)"
    then obtain m u where u: "(m, u) \<in> set (sv_tracks s)" "m \<noteq> n" "te_bc u = te_bc t"
      by (auto simp: rem s2_def fold_upd_sel s1_def registered_def upd_bc_def)
    then show False using d(2) mem inj_onD [of "te_bc \<circ> snd" "set (sv_tracks s)" "(m, u)" "(n, t)"] by (simp add: distinct_map)
  qed
  show ?thesis
  proof (rule srv_inv_step [OF assms bcs_evolve_refl fresh_refs_Nil, of "{te_bc t} \<times> UNIV"])
    have "bc_evolve {r. (te_bc t, r) \<in> {te_bc t} \<times> UNIV} (sv_bcs s ! te_bc t) (Close (sv_bcs s ! te_bc t))"
      by (rule bc_evolve_mono [OF bc_evolve_close(2)]) simp
    then show "bcs_evolve ({te_bc t} \<times> UNIV) (sv_bcs s) (sv_bcs (RemoveTrack ju n s))"
      by (simp add: rem upd_bc_def s2_def fold_upd_sel s1_def bcs_evolve_update)
    show "srv_refs (RemoveTrack ju n s) \<subseteq># srv_refs s + mset []"
      using srv_refs_fold_upd [OF _ s1(1), of f "map fst (sv_sessions s1)"] session_refs_detach [of n] s1(2)
      by (simp add: rem upd_bc_def srv_refs_def f_def s2_def)
    show "keys_ok (RemoveTrack ju n s)"
      using s1(1) keys_ok_fold_upd [of f "map fst (sv_sessions s1)" s1] by (simp add: rem upd_bc_def keys_ok_def s2_def)
  qed (use d notin in \<open>auto simp: rem upd_bc_def s2_def fold_upd_sel s1_def distinct_map_filter\<close>)
qed (use assms in \<open>simp add: RemoveTrack_def\<close>)

text \<open>Resuming, starting and ending a session.\<close>

lemma upd_bc_opt_bcs:
  assumes "bcs_inv (sv_bcs s)" "i < length (sv_bcs s)"
    and "\<And>x. rc_ok x \<Longrightarrow> \<exists>y. f x = Some y \<and> rc_ok y \<and> rc_closed y = rc_closed x"
  shows "\<exists>s'. upd_bc_opt i (on_receiver f r) s = Some s' \<and> only_bcs {} s s'"
proof -
  have "b_inv (sv_bcs s ! i)" using assms(1,2) by simp
  then obtain b where "on_receiver f r (sv_bcs s ! i) = Some b" "bc_evolve {} (sv_bcs s ! i) b"
    using on_receiver_total assms(3) by blast
  then show ?thesis by (simp add: upd_bc_opt_def only_bcs_def bcs_evolve_update)
qed

lemma SpliceFront_keeps: "rc_ok x \<Longrightarrow> \<exists>y. SpliceFront pre x = Some y \<and> rc_ok y \<and> rc_closed y = rc_closed x"
  by (rule SpliceFront_ok)

lemma resume_track_bcs:
  assumes "bcs_inv (sv_bcs s)" "\<forall>rr \<in> snd ` set recvs. fst rr < length (sv_bcs s)"
  shows "\<exists>s'. resume_track recvs p s = Some s' \<and> only_bcs {} s s'"
proof -
  obtain name fromSeq where p: "p = (name, fromSeq)" by fastforce
  show ?thesis
  proof (cases "map_of recvs name = None \<or> trackEntry_of name s = None")
    case True
    then show ?thesis by (auto simp: p resume_track_def split: option.split)
  next
    case False
    then obtain i r te where h: "map_of recvs name = Some (i, r)" "trackEntry_of name s = Some te" by auto
    have i: "i < length (sv_bcs s)" using assms(2) map_of_SomeD [OF h(1)] by force
    obtain replay av where rp: "ReplaySince (fromSeq + 1) (sv_bcs s ! te_bc te) = (replay, av)" by fastforce
    have key: "\<exists>s'. upd_bc_opt i (on_receiver (\<lambda>x. Some (Receiver_RequestKeyframe x)) r) s = Some s' \<and> only_bcs {} s s'"
      and splice: "\<exists>s'. upd_bc_opt i (on_receiver (SpliceFront replay) r) s = Some s' \<and> only_bcs {} s s'"
      by (rule upd_bc_opt_bcs [OF assms(1) i]; rule RequestKeyframe_ok SpliceFront_keeps; assumption)+
    show ?thesis unfolding resume_track_def p
      by (simp add: h rp) (use key splice in \<open>auto simp: only_bcs_refl\<close>)
  qed
qed

lemma resume_tracks_bcs:
  assumes "bcs_inv (sv_bcs s)" "\<forall>rr \<in> snd ` set recvs. fst rr < length (sv_bcs s)"
  shows "\<exists>s'. resume_tracks recvs ps s = Some s' \<and> only_bcs {} s s'"
  using assms
proof (induction ps arbitrary: s)
  case (Cons p ps)
  obtain s1 where s1: "resume_track recvs p s = Some s1" "only_bcs {} s s1" using resume_track_bcs [OF Cons.prems] by blast
  have ev: "bcs_evolve {} (sv_bcs s) (sv_bcs s1)" using s1(2) by (simp add: only_bcs_def)
  then have "bcs_inv (sv_bcs s1)" "length (sv_bcs s1) = length (sv_bcs s)"
    using bcs_evolve_inv [OF ev Cons.prems(1)] by (simp_all add: bcs_evolve_def)
  then obtain s2 where "resume_tracks recvs ps s1 = Some s2" "only_bcs {} s1 s2" using Cons.IH [of s1] Cons.prems(2) by auto
  then show ?case using s1 only_bcs_trans [of "{}" s s1 "{}" s2] by simp
qed simp

text \<open>A store call on a server: what it evicted has lost its owner.\<close>

lemma disjoint_owner:
  assumes "refs_ok T bs M" "A + B \<subseteq># M" "x \<in># A"
  shows "x \<notin># B"
proof
  assume "x \<in># B"
  then have "1 \<le> count A x" "1 \<le> count B x" using assms(3) by (simp_all add: count_greater_eq_one_iff)
  moreover have "count (A + B) x \<le> count M x" using assms(2) by (rule mset_subset_eq_count)
  moreover have "count M x \<le> 1" using assms(1) by (rule refs_ok_count)
  ultimately show False by (simp only: count_union)
qed

text \<open>The rule for operations that release receivers \<open>A\<close>: they had owners before and have none after.\<close>

lemma srv_inv_release:
  assumes "srv_inv s" "bcs_evolve {} (sv_bcs s) bs1" "fresh_refs (sv_bcs s) bs1 new"
    and "bcs_evolve (set_mset A) bs1 (sv_bcs s')" "sv_tracks s' = sv_tracks s" "keys_ok s'"
    and "A + srv_refs s' \<subseteq># srv_refs s + mset new"
  shows "srv_inv s'"
proof (rule srv_inv_step [OF assms(1-4)])
  show "srv_refs s' \<subseteq># srv_refs s + mset new"
    using assms(7) by (metis mset_subset_eq_add_right subset_mset.order_trans)
  have "refs_ok (registered s) bs1 (srv_refs s + mset new)"
    by (rule refs_ok_new [OF srv_inv_refs [OF assms(1)] srv_inv_bcs [OF assms(1)] assms(2,3)])
  then show "(i, r) \<notin> set_mset A" if "(i, r) \<in># srv_refs s'" for i r
    using disjoint_owner [OF _ assms(7)] that by blast
qed (use assms(5,6) srv_inv_distinct [OF assms(1)] in simp_all)

lemma set_store_frame:
  assumes "st_evicted st = st_evicted (sv_store s) @ ev"
  shows "bcs_evolve (set_mset (parked_refs (mset ev))) (sv_bcs s) (sv_bcs (set_store st s))"
    "sv_tracks (set_store st s) = sv_tracks s" "sv_sessions (set_store st s) = sv_sessions s"
    "sv_nextRef (set_store st s) = sv_nextRef s" "sv_store (set_store st s) = st" "sv_cfg (set_store st s) = sv_cfg s"
    "sv_slug (set_store st s) = sv_slug s"
  using set_store_bcs [OF assms] only_bcs_sel [OF set_store_bcs [OF assms]] by (simp_all add: only_bcs_def)

lemma srv_inv_evict:
  assumes "srv_inv s"
  shows "srv_inv (eviction_tick now s)"
proof -
  define st where "st = snd (EvictExpired now (sv_store s))"
  obtain ev where ev: "st_evicted st = st_evicted (sv_store s) @ ev" "mset ev + stored st \<subseteq># stored (sv_store s)"
    using evict_drops [of now "sv_store s"] by (auto simp: st_def EvictExpired_def)
  note f = set_store_frame [OF ev(1)]
  have "srv_inv (set_store st s)"
  proof (rule srv_inv_release [OF assms bcs_evolve_refl fresh_refs_Nil f(1,2)])
    have "distinct (map fst (byID st))" using srv_inv_keys [OF assms]
      by (simp add: st_def EvictExpired_def evictExpired_byID keys_ok_def distinct_map_filter)
    then show "keys_ok (set_store st s)" using srv_inv_keys [OF assms] by (simp add: keys_ok_def f)
    show "parked_refs (mset ev) + srv_refs (set_store st s) \<subseteq># srv_refs s + mset []"
      using parked_refs_mono [OF ev(2)] by (simp add: srv_refs_def f ac_simps)
  qed
  then show ?thesis by (simp add: eviction_tick_def st_def)
qed

lemma keys_ok_cleanup: "keys_ok s \<Longrightarrow> keys_ok (session_cleanup ref s)"
  by (auto simp: keys_ok_def session_cleanup_def distinct_map_filter)

lemma srv_inv_end:
  assumes "srv_inv s"
  shows "srv_inv (session_end now1 now2 ctx ref s)"
proof (cases "map_of (sv_sessions s) ref")
  case (Some x)
  note keys = srv_inv_keys [OF assms]
  define ts where "ts = map snd (sv_tracks s)"
  have refs: "sessions_refs (sv_sessions s) = session_refs x + sessions_refs (filter (\<lambda>p. fst p \<noteq> ref) (sv_sessions s))"
    using keys Some by (intro sessions_refs_delete) (simp_all add: keys_ok_def)
  show ?thesis
  proof (cases "sn_SessionID x = [] \<or> ctx \<or> sv_draining s")
    case True
    define s1 where "s1 = unsubscribe_active x ts s"
    have b: "only_bcs (set_mset (session_refs x)) s s1" unfolding s1_def by (rule unsubscribe_active_bcs)
    note sel = only_bcs_sel [OF b]
    have "srv_inv (session_cleanup ref s1)"
    proof (rule srv_inv_release [OF assms bcs_evolve_refl fresh_refs_Nil, of "session_refs x"])
      show "keys_ok (session_cleanup ref s1)" using keys sel by (intro keys_ok_cleanup) simp
      show "session_refs x + srv_refs (session_cleanup ref s1) \<subseteq># srv_refs s + mset []"
        by (simp add: srv_refs_def refs session_cleanup_def sel ac_simps)
    qed (use b sel in \<open>simp_all add: session_cleanup_def only_bcs_def\<close>)
    then show ?thesis using Some True by (simp add: session_end_def session_park_def s1_def ts_def Let_def)
  next
    case False
    obtain parked bs where sub: "subscribe_tracks (SubscribeWithCapacity parkedChanCap) ts (sv_bcs s) = (parked, bs)" by fastforce
    have "\<forall>t\<in>set ts. te_bc t < length (sv_bcs s)"
      using tracks_okD(3) [OF srv_inv_tracks [OF assms]] by (auto simp: ts_def)
    from subscribe_tracks_fresh [OF bc_evolve_SubscribeWithCapacity this srv_inv_bcs [OF assms] sub]
    have fr: "bcs_evolve {} (sv_bcs s) bs" "fresh_refs (sv_bcs s) bs (map snd parked)" by auto
    define s1 where "s1 = unsubscribe_active x ts (s\<lparr>sv_bcs := bs\<rparr>)"
    have b: "only_bcs (set_mset (session_refs x)) (s\<lparr>sv_bcs := bs\<rparr>) s1" unfolding s1_def by (rule unsubscribe_active_bcs)
    have sel: "sv_tracks s1 = sv_tracks s" "sv_sessions s1 = sv_sessions s" "sv_nextRef s1 = sv_nextRef s" "sv_store s1 = sv_store s"
      using only_bcs_sel [OF b] by simp_all
    define st where "st = Park now1 now2 (sn_Tenant x) (sn_SessionID x) parked True (sv_store s1)"
    obtain ev p where ev: "st_evicted st = st_evicted (sv_store s1) @ ev" "ps_receivers p = parked"
      "mset ev + stored st \<subseteq># add_mset p (stored (sv_store s))"
      using Park_drops [of "sv_store s" now1 now2 "sn_Tenant x" "sn_SessionID x" parked True] keys
      by (auto simp: st_def keys_ok_def sel)
    note f = set_store_frame [OF ev(1)]
    have "srv_inv (session_cleanup ref (set_store st s1))"
    proof (rule srv_inv_release [OF assms fr, of "session_refs x + parked_refs (mset ev)"])
      have "bcs_evolve (set_mset (session_refs x) \<union> set_mset (parked_refs (mset ev))) bs (sv_bcs (set_store st s1))"
        using bcs_evolve_trans [OF _ f(1)] b by (simp add: only_bcs_def)
      then show "bcs_evolve (set_mset (session_refs x + parked_refs (mset ev))) bs (sv_bcs (session_cleanup ref (set_store st s1)))"
        by (simp add: session_cleanup_def)
      have "distinct (map fst (byID st))"
        using store_exec_distinct [of "sv_store s1" "OpPark now1 now2 (sn_Tenant x) (sn_SessionID x) parked True"] keys
        by (simp add: st_def keys_ok_def sel)
      then show "keys_ok (session_cleanup ref (set_store st s1))"
        using keys by (intro keys_ok_cleanup) (simp add: keys_ok_def f sel)
      have "parked_refs (mset ev) + parked_refs (stored st) \<subseteq># mset (map snd parked) + parked_refs (stored (sv_store s))"
        using parked_refs_mono [OF ev(3)] by (simp add: ev(2))
      then show "session_refs x + parked_refs (mset ev) + srv_refs (session_cleanup ref (set_store st s1))
          \<subseteq># srv_refs s + mset (map snd parked)"
        by (simp add: srv_refs_def refs session_cleanup_def f sel ac_simps)
    qed (simp add: session_cleanup_def f sel)
    then show ?thesis using Some False sub
      by (simp add: session_end_def session_park_def ts_def [symmetric] s1_def [symmetric] st_def [symmetric])
  qed
qed (use assms in \<open>simp add: session_end_def\<close>)

lemma OnResume_facts:
  assumes "srv_inv s"
  shows "\<exists>res s1 ev. OnResume now ten sid ls s = Some (res, s1) \<and>
    bcs_evolve (set_mset (parked_refs (mset ev))) (sv_bcs s) (sv_bcs s1) \<and> sv_tracks s1 = sv_tracks s \<and>
    sv_sessions s1 = sv_sessions s \<and> keys_ok s1 \<and>
    parked_refs (mset ev) + mset (map snd (case res of None \<Rightarrow> [] | Some rs \<Rightarrow> rs)) + srv_refs s1 \<subseteq># srv_refs s"
proof -
  note keys = srv_inv_keys [OF assms]
  obtain res st where r: "Resume now ten sid (sv_store s) = (res, st)" by fastforce
  obtain ev taken where ev: "st_evicted st = st_evicted (sv_store s) @ ev" "map_option ps_receivers taken = res"
    "mset ev + (case taken of None \<Rightarrow> {#} | Some p \<Rightarrow> {#p#}) + stored st \<subseteq># stored (sv_store s)"
    using Resume_drops [OF _ r] keys by (auto simp: keys_ok_def)
  define s1 where "s1 = set_store st s"
  note f = set_store_frame [OF ev(1), folded s1_def]
  have d: "distinct (map fst (byID st))"
    using store_exec_distinct [of "sv_store s" "OpResume now ten sid"] keys r by (simp add: keys_ok_def)
  have P: "parked_refs (mset ev) + mset (map snd (case res of None \<Rightarrow> [] | Some rs \<Rightarrow> rs)) + parked_refs (stored st)
      \<subseteq># parked_refs (stored (sv_store s))"
    using parked_refs_mono [OF ev(3)] ev(2) by (cases taken) (auto simp: ac_simps)
  have k1: "keys_ok s1" using keys d by (simp add: keys_ok_def f)
  have inv1: "bcs_inv (sv_bcs s1)" using bcs_evolve_inv [OF f(1) srv_inv_bcs [OF assms]] .
  have len: "length (sv_bcs s1) = length (sv_bcs s)" using f(1) by (simp add: bcs_evolve_def)
  show ?thesis
  proof (cases res)
    case None
    then show ?thesis using r P f k1
      by (intro exI [of _ None] exI [of _ s1] exI [of _ ev]) (simp add: OnResume_def s1_def [symmetric] srv_refs_def ac_simps)
  next
    case (Some rs)
    have "fst rr < length (sv_bcs s1)" if "rr \<in> snd ` set rs" for rr
    proof -
      have "rr \<in># parked_refs (stored (sv_store s))" using that Some by (intro mset_subset_eqD [OF P]) simp
      then have "rr \<in># srv_refs s" by (simp add: srv_refs_def)
      then show ?thesis using srv_inv_refs [OF assms] len by (auto simp: refs_ok_def)
    qed
    then obtain s2 where s2: "resume_tracks rs ls s1 = Some s2" "only_bcs {} s1 s2"
      using resume_tracks_bcs [OF inv1, of rs ls] by blast
    note sel = only_bcs_sel [OF s2(2)]
    have "bcs_evolve (set_mset (parked_refs (mset ev))) (sv_bcs s) (sv_bcs s2)"
      using bcs_evolve_trans [OF f(1), of "{}" "sv_bcs s2"] s2(2) by (simp add: only_bcs_def)
    then show ?thesis using r Some P f k1 s2(1) sel
      by (intro exI [of _ "Some rs"] exI [of _ s2] exI [of _ ev])
         (simp add: OnResume_def s1_def [symmetric] srv_refs_def ac_simps)
  qed
qed

lemma trackSnapshot_facts:
  assumes "bcs_inv (sv_bcs s)" "tracks_ok (sv_bcs s) (sv_tracks s)" "trackSnapshot s = (fresh, s1)"
  shows "only_bcs {} s s1" "fresh_refs (sv_bcs s) (sv_bcs s1) (map snd fresh)"
proof -
  obtain bs where sub: "subscribe_tracks Subscribe (map snd (sv_tracks s)) (sv_bcs s) = (fresh, bs)" "s1 = s\<lparr>sv_bcs := bs\<rparr>"
    using assms(3) by (auto simp: trackSnapshot_def split: prod.splits)
  have "\<forall>t\<in>set (map snd (sv_tracks s)). te_bc t < length (sv_bcs s)" using tracks_okD(3) [OF assms(2)] by auto
  from subscribe_tracks_fresh [OF bc_evolve_Subscribe this assms(1) sub(1)] sub(2)
  show "only_bcs {} s s1" "fresh_refs (sv_bcs s) (sv_bcs s1) (map snd fresh)" by (simp_all add: only_bcs_def)
qed

lemma srv_inv_attach:
  assumes "srv_inv s"
  shows "\<exists>s'. session_attach newid now hello ref s = Some s' \<and> srv_inv s'"
proof (cases "map_of (sv_sessions s) ref")
  case (Some x)
  obtain res s1 ev where h: "(if h_SessionID hello \<noteq> [] then OnResume now (sn_Tenant x) (h_SessionID hello) (h_LastSeenSeq hello) s
        else Some (None, s)) = Some (res, s1)"
    "bcs_evolve (set_mset (parked_refs (mset ev))) (sv_bcs s) (sv_bcs s1)" "sv_tracks s1 = sv_tracks s"
    "sv_sessions s1 = sv_sessions s" "keys_ok s1"
    "parked_refs (mset ev) + mset (map snd (case res of None \<Rightarrow> [] | Some rs \<Rightarrow> rs)) + srv_refs s1 \<subseteq># srv_refs s"
  proof (cases "h_SessionID hello = []")
    case True
    then show thesis using that [of None s "[]"] srv_inv_keys [OF assms] by simp
  next
    case False
    then show thesis using that OnResume_facts [OF assms, of now "sn_Tenant x" "h_SessionID hello" "h_LastSeenSeq hello"] by auto
  qed
  show ?thesis
  proof (cases res)
    case None
    have s1: "srv_inv s1"
      by (rule srv_inv_release [OF assms bcs_evolve_refl fresh_refs_Nil h(2,3,5)]) (use h(6) None in simp)
    obtain fresh s2 where t: "trackSnapshot s1 = (fresh, s2)" by fastforce
    note f = trackSnapshot_facts [OF srv_inv_bcs [OF s1] srv_inv_tracks [OF s1] t]
    have "srv_inv (upd_session ref (attach_fresh (session_config s2)
        ((session_lookups s2)\<lparr>hk_AllocateID := Some newid, hk_Fresh := Some fresh\<rparr>)) s2)"
      by (rule srv_inv_upd_session [OF s1 f]) (rule session_refs_fresh, simp)
    then show ?thesis using Some h(1) None t by (auto simp: session_attach_def OnFreshSession_def)
  next
    case (Some recvs)
    define s2 where "s2 = upd_session ref (attach_resumed (session_config s1) (session_lookups s1) hello recvs) s1"
    have "srv_inv s2"
    proof (rule srv_inv_release [OF assms bcs_evolve_refl fresh_refs_Nil, of "parked_refs (mset ev)"])
      have "srv_refs s2 \<subseteq># srv_refs s1 + mset (map snd recvs)"
        unfolding s2_def by (rule upd_session_refs [OF h(5)]) (rule session_refs_resumed)
      then have "parked_refs (mset ev) + srv_refs s2 \<subseteq># parked_refs (mset ev) + (srv_refs s1 + mset (map snd recvs))" by simp
      also have "\<dots> \<subseteq># srv_refs s" using h(6) Some by (simp add: ac_simps)
      finally show "parked_refs (mset ev) + srv_refs s2 \<subseteq># srv_refs s + mset []" by simp
    qed (use h in \<open>simp_all add: s2_def\<close>)
    then show ?thesis using \<open>map_of (sv_sessions s) ref = Some x\<close> h(1) Some by (auto simp: session_attach_def s2_def)
  qed
qed (use assms in \<open>simp add: session_attach_def\<close>)

section \<open>The server as a transition system\<close>

text \<open>Everything that happens to a server: calls of the application, AUs published and taken by pumps, and
  the life of sessions. The session id \<open>newid\<close> and the clock readings are given; \<open>None\<close> is a panic.\<close>

datatype 's sv_op =
    SvAddTrack TrackSpec
  | SvRemoveTrack string
  | SvPublish nat AccessUnit
  | SvRecv nat rid
  | SvAttachRecorder "'s recorder"
  | SvDetachRecorder nat
  | SvOpen writer
  | SvAuthenticated nat string
  | SvAttach string int Hello nat
  | SvRun nat
  | SvEnd int int bool nat
  | SvEvict int
  | SvShutdown

fun sv_exec ::
    "(Announce \<Rightarrow> go_error + bytes) \<Rightarrow> (Unannounce \<Rightarrow> go_error + bytes) \<Rightarrow> 's sv_op \<Rightarrow> 's Server \<Rightarrow> 's Server option" where
  "sv_exec ja ju (SvAddTrack spec) s = Some (snd (AddTrackSpec ja spec s))"
| "sv_exec ja ju (SvRemoveTrack n) s = Some (RemoveTrack ju n s)"
| "sv_exec ja ju (SvPublish i au) s = (if i < length (sv_bcs s) then Publisher_Publish i au s else Some s)"
| "sv_exec ja ju (SvRecv i r) s =
     (if i < length (sv_bcs s) then upd_bc_opt i (on_receiver (\<lambda>x. Some (x\<lparr>rc_ch := chan_drop1 (rc_ch x)\<rparr>)) r) s else Some s)"
| "sv_exec ja ju (SvAttachRecorder rec) s = Some (snd (AttachRecorder rec s))"
| "sv_exec ja ju (SvDetachRecorder i) s = Some (detach_recorder i s)"
| "sv_exec ja ju (SvOpen ctl) s = Some (snd (addSession (NewSession ctl) s))"
| "sv_exec ja ju (SvAuthenticated ref tenant) s = Some (upd_session ref (\<lambda>x. x\<lparr>sn_Tenant := tenant\<rparr>) s)"
| "sv_exec ja ju (SvAttach newid now hello ref) s = session_attach newid now hello ref s"
| "sv_exec ja ju (SvRun ref) s = Some (upd_session ref Run_start s)"
| "sv_exec ja ju (SvEnd now1 now2 ctx ref) s = Some (session_end now1 now2 ctx ref s)"
| "sv_exec ja ju (SvEvict now) s = Some (eviction_tick now s)"
| "sv_exec ja ju SvShutdown s = Some (Shutdown_notify s)"

lemma srv_inv_upd_frame: "srv_inv s \<Longrightarrow> (\<And>x. session_refs (f x) = session_refs x) \<Longrightarrow> srv_inv (upd_session ref f s)"
  by (rule srv_inv_upd_session [of s s "[]"]) simp_all

lemma srv_inv_Publish:
  assumes "srv_inv s" "i < length (sv_bcs s)"
  shows "\<exists>s'. Publisher_Publish i au s = Some s' \<and> srv_inv s'"
proof -
  have "b_inv (sv_bcs s ! i)" using srv_inv_bcs [OF assms(1)] assms(2) by simp
  then obtain a b where p: "Publish au (sv_app s) (sv_bcs s ! i) = Some (a, b)"
    using Publish_inv [of "sv_bcs s ! i" au "sv_app s"] by blast
  then have "bcs_evolve {} (sv_bcs s) ((sv_bcs s)[i := b])" by (simp add: bcs_evolve_update bc_evolve_Publish)
  then have "only_bcs {} (s\<lparr>sv_app := a\<rparr>) (s\<lparr>sv_app := a, sv_bcs := (sv_bcs s)[i := b]\<rparr>)" by (simp add: only_bcs_def)
  then show ?thesis using p srv_inv_only_bcs assms(1) srv_inv_recorders(2) by (fastforce simp: Publisher_Publish_def)
qed

lemma srv_inv_AttachRecorder:
  assumes "srv_inv s"
  shows "srv_inv (snd (AttachRecorder rec s))"
proof -
  define q where "q = fold (\<lambda>(name, t). attach_recorder_to rec name (te_kind t) (te_bc t)) (sv_tracks s)
    (\<lparr>re_rec = Some rec, re_detachers = []\<rparr>, sv_bcs s)"
  have "bcs_evolve {} (sv_bcs s) (snd q)" unfolding q_def
    by (rule fold_keeps [where P = "\<lambda>q. bcs_evolve {} (sv_bcs s) (snd q)"])
       (auto intro!: bcs_evolve_trans0 [OF _ attach_recorder_evolve])
  then have "only_bcs {} (s\<lparr>sv_recorders := sv_recorders s @ [fst q]\<rparr>)
      (s\<lparr>sv_recorders := sv_recorders s @ [fst q], sv_bcs := snd q\<rparr>)" by (simp add: only_bcs_def)
  then have "srv_inv (s\<lparr>sv_recorders := sv_recorders s @ [fst q], sv_bcs := snd q\<rparr>)"
    by (rule srv_inv_only_bcs [rotated]) (simp add: srv_inv_recorders(1) assms)
  then show ?thesis by (simp add: AttachRecorder_def q_def split_beta)
qed

lemma srv_inv_detach_recorder:
  fixes s :: "'s Server"
  assumes "srv_inv s"
  shows "srv_inv (detach_recorder idx s)"
proof -
  have ob: "only_bcs {} t (upd_bc i (remove_interceptor h) t)" for i h and t :: "'s Server"
    by (simp add: only_bcs_def upd_bc_def bcs_evolve_update bc_evolve_interceptors)
  have "srv_inv (fold (\<lambda>(name, i, h). upd_bc i (remove_interceptor h)) ds t)" if "srv_inv t"
    for ds :: "(string \<times> nat \<times> 64 word option) list" and t :: "'s Server"
    by (rule fold_keeps [where P = srv_inv]) (use that ob in \<open>auto intro: srv_inv_only_bcs\<close>)
  then show ?thesis using assms srv_inv_recorders(1) [of _ s] by (simp add: detach_recorder_def Let_def)
qed

lemma srv_inv_open: "srv_inv s \<Longrightarrow> srv_inv (snd (addSession (NewSession ctl) s))"
  by (force simp: srv_inv_def addSession_def srv_refs_def registered_def keys_ok_def)

lemma srv_inv_shutdown:
  assumes "srv_inv s"
  shows "srv_inv (Shutdown_notify s)"
proof -
  have "srv_inv (s\<lparr>sv_draining := True\<rparr>)" using assms by (simp add: srv_inv_def srv_refs_def registered_def keys_ok_def)
  then show ?thesis unfolding Shutdown_notify_def Let_def by (rule fold_keeps) (simp add: srv_inv_upd_frame)
qed

lemma srv_inv_New: "srv_inv (NewServer ja cfg rnd iid w app)"
  unfolding NewServer_def AddTrack_def Let_def
  by (rule srv_inv_AddTrackSpec)
     (simp add: srv_inv_def tracks_ok_def refs_ok_def srv_refs_def keys_ok_def NewMemorySessionStore_def NewMemorySessionStoreWithCap_def)

lemma sv_exec_inv: "srv_inv s \<Longrightarrow> \<exists>s'. sv_exec ja ju op s = Some s' \<and> srv_inv s'"
proof (cases op)
  case (SvPublish i au)
  assume "srv_inv s"
  then show ?thesis using SvPublish srv_inv_Publish by auto
next
  case (SvRecv i r)
  assume inv: "srv_inv s"
  show ?thesis
  proof (cases "i < length (sv_bcs s)")
    case True
    have "\<exists>s'. upd_bc_opt i (on_receiver (\<lambda>x. Some (x\<lparr>rc_ch := chan_drop1 (rc_ch x)\<rparr>)) r) s = Some s' \<and> only_bcs {} s s'"
      by (rule upd_bc_opt_bcs [OF srv_inv_bcs [OF inv] True]) (auto simp: rc_ok_def chan_ok_def)
    then show ?thesis using SvRecv True srv_inv_only_bcs [OF inv] by auto
  qed (use inv SvRecv in simp)
next
  case (SvAttach newid now hello ref)
  assume "srv_inv s"
  then show ?thesis using SvAttach srv_inv_attach by auto
qed (simp_all add: srv_inv_AddTrackSpec srv_inv_RemoveTrack srv_inv_AttachRecorder srv_inv_detach_recorder srv_inv_open
    srv_inv_upd_frame srv_inv_end srv_inv_evict srv_inv_shutdown)

interpretation srv: transition_system
  "\<lambda>s. \<exists>cfg rnd iid w app. s = NewServer ja cfg rnd iid w app" "\<lambda>s op s'. sv_exec ja ju op s = Some s'" srv_inv
  for ja ju
proof (unfold_locales, goal_cases)
  case (1 s)
  then show ?case using srv_inv_New by auto
next
  case (2 s l s')
  then show ?case using sv_exec_inv [of s ja ju l] by auto
qed

section \<open>What the invariant does not give\<close>

text \<open>A session that resumed while one of its parked tracks was removed keeps the dead receiver in its table.
  When the track is added again, the new receiver is subscribed, but the session does not attach it.\<close>

lemma readded_track_lost:
  assumes "distinct (map fst (sv_sessions s))" "map_of (sv_sessions s) ref = Some x" "map_of (sn_tracks x) n \<noteq> None"
    and "i < length (sv_bcs s)" "Subscribe (sv_bcs s ! i) = (r, b)"
  shows "\<exists>y. map_of (sv_sessions (notify_added ja n k p tid i ref s)) ref = Some y \<and> sn_tracks y = sn_tracks x"
    "r \<in> set (receivers (sv_bcs (notify_added ja n k p tid i ref s) ! i))"
proof -
  have upd: "map_of (map (\<lambda>(q, z). (q, if q = ref then f z else z)) xs) ref = map_option f (map_of xs ref)"
    for f :: "rref Session \<Rightarrow> rref Session" and xs by (induction xs) auto
  show "\<exists>y. map_of (sv_sessions (notify_added ja n k p tid i ref s)) ref = Some y \<and> sn_tracks y = sn_tracks x"
    using assms(2,3,5) by (auto simp: notify_added_def upd_session_def upd AttachTrackWithKind_def SendAnnounce_def
        ctlWriter_Write_def split_beta split: sum.split)
  show "r \<in> set (receivers (sv_bcs (notify_added ja n k p tid i ref s) ! i))"
    using assms(4,5) by (auto simp: notify_added_def upd_session_def Subscribe_def subscribeWithCap_def Let_def)
qed

text \<open>A resumed session attaches the parked tracks only: a track added while it was disconnected is not among them.\<close>

lemma resumed_only_parked:
  assumes "name \<notin> fst ` set recvs" "map_of (sn_tracks x) name = None"
  shows "map_of (sn_tracks (attach_resumed cfg hk hello recvs x)) name = None"
proof -
  have att: "map_of (sn_tracks (AttachTrack cfg hk n r y)) name = None" if "n \<noteq> name" "map_of (sn_tracks y) name = None" for n r y
    using that by (simp add: AttachTrack_def AttachTrackWithTrackID_def AttachTrackWithKind_def Let_def)
  have step: "map_of (sn_tracks ((case q of (n, r) \<Rightarrow> AttachTrack cfg hk n r) y)) name = None"
    if "q \<in> set recvs" "map_of (sn_tracks y) name = None" for q y
  proof -
    have "fst q \<noteq> name" using that(1) assms(1) by force
    then show ?thesis using att [of "fst q" y "snd q"] that(2) by (simp add: split_beta)
  qed
  have "map_of (sn_tracks (fold (\<lambda>(n, r). AttachTrack cfg hk n r) recvs y)) name = None" if "map_of (sn_tracks y) name = None" for y
    using that step by (intro fold_keeps [where P = "\<lambda>y. map_of (sn_tracks y) name = None"])
  then show ?thesis using assms(2) by (simp add: attach_resumed_def Let_def)
qed

text \<open>A connection is notified of new tracks from the moment it is registered, that is before its HELLO: the
  announcement reaches a peer that has not authenticated.\<close>

lemma announce_before_hello:
  assumes "ja \<lparr>an_Name = n, an_Kind = k, an_Codec = []\<rparr> = Inr body" "length body \<le> MaxControlPayload"
    and "sv_sessions s = [(ref, NewSession \<lparr>w_out = [], w_script = []\<rparr>)]"
  shows "\<exists>y. sv_sessions (notify_added ja n k p tid i ref s) = [(ref, y)] \<and>
    w_out (sn_ctl y) = control_frame_bytes (TypeAnnounce, body) \<and> sn_NegotiatedVersion y = []"
proof -
  obtain e w where w: "WriteControlFrame \<lparr>w_out = [], w_script = []\<rparr> TypeAnnounce body = (e, w)" by fastforce
  moreover have "e = None" using w assms(2) by (auto simp: WriteControlFrame_def io_write_def split: if_splits)
  ultimately have "w_out w = control_frame_bytes (TypeAnnounce, body)" using WriteControlFrame_None by fastforce
  then show ?thesis using assms(1,3) w
    by (simp add: notify_added_def upd_session_def split_beta SendAnnounce_def ctlWriter_Write_def AttachTrackWithKind_def NewSession_def Let_def)
qed

text \<open>The session limit is checked before the upgrade and counted after it: two requests that are checked
  together pass together.\<close>

lemma max_sessions_exceeded:
  assumes "sv_current s = svc_MaxSessions (sv_cfg s) - 1" "\<not> sv_draining s"
  shows "wt_admit None [] t p q s = WtUpgrade" "sv_current (wt_upgraded (wt_upgraded s)) > svc_MaxSessions (sv_cfg s)"
  using assms by (simp_all add: wt_admit_def wt_upgraded_def)

lemma draining_admits_none: "sv_draining s \<Longrightarrow> wt_admit l i t p q s = WtDraining"
  by (simp add: wt_admit_def)

lemma Shutdown_wait_returns:
  "(cur, True) \<in> set polls \<Longrightarrow> \<exists>r. Shutdown_wait polls = Some r"
  by (induction polls rule: Shutdown_wait.induct) auto

section \<open>Properties\<close>

text \<open>C7. The server never panics and never mixes up receivers. In every state that the operations of the
  application, the publishers, the pumps and the sessions can reach: no operation panics; every broadcaster
  is well formed; no receiver is held twice, be it by two sessions, by two tracks of one session or by a
  session and a parked one; a receiver that a live or parked session holds for a registered track is
  subscribed and open; and a track is gated on keyframes exactly when it is a video track.\<close>

theorem server_invariant:
  assumes "reach (\<lambda>s. \<exists>cfg rnd iid w app. s = NewServer ja cfg rnd iid w app) (\<lambda>s op s'. sv_exec ja ju op s = Some s') s"
  shows "sv_exec ja ju op s \<noteq> None \<and> (\<forall>b\<in>set (sv_bcs s). b_inv b) \<and> count (srv_refs s) rr \<le> 1 \<and>
    (\<forall>(n, t)\<in>set (sv_tracks s). (\<forall>r. (te_bc t, r) \<in># srv_refs s \<longrightarrow>
        r \<in> set (receivers (sv_bcs s ! te_bc t)) \<and> (\<exists>x. rheap (sv_bcs s ! te_bc t) r = Some x \<and> \<not> rc_closed x)) \<and>
      (selfContained (sv_bcs s ! te_bc t) \<longleftrightarrow> te_kind t \<noteq> KindVideo))"
proof -
  have inv: "srv_inv s" using assms by (rule srv.reach_inv)
  have "r \<in> set (receivers (sv_bcs s ! te_bc t)) \<and> (\<exists>x. rheap (sv_bcs s ! te_bc t) r = Some x \<and> \<not> rc_closed x)"
    if "(n, t) \<in> set (sv_tracks s)" "(te_bc t, r) \<in># srv_refs s" for n t r
  proof -
    have "te_bc t \<in> registered s" using that(1) by (force simp: registered_def)
    then have r: "r \<in> set (receivers (sv_bcs s ! te_bc t))" using srv_inv_refs [OF inv] that(2) by (auto simp: refs_ok_def)
    have "b_inv (sv_bcs s ! te_bc t)" using srv_inv_bcs [OF inv] tracks_okD(3) [OF srv_inv_tracks [OF inv] that(1)] by simp
    then have "heap_inv (receivers (sv_bcs s ! te_bc t)) (next_rid (sv_bcs s ! te_bc t)) (rheap (sv_bcs s ! te_bc t))"
      by (simp add: b_inv_def)
    from heap_inv_openD [OF this r] show ?thesis using r by blast
  qed
  then show ?thesis
    using sv_exec_inv [OF inv, of ja ju op] srv_inv_bcs [OF inv] refs_ok_count [OF srv_inv_refs [OF inv]]
      tracks_okD(4) [OF srv_inv_tracks [OF inv]] by auto
qed

theorem server_invariant_witness:
  "\<exists>s. sv_exec (\<lambda>_. Inr []) (\<lambda>_. Inr []) (SvEnd 0 0 False 0) s \<noteq> None \<and> count (srv_refs s) (0, 0) \<le> 1 \<and>
    srv_refs s = {#(0, 0)#} \<and> map fst (sv_tracks s) = [''primary''] \<and> 0 \<in> set (receivers (sv_bcs s ! 0)) \<and>
    sv_app s = (7 :: nat)"
proof -
  define s0 :: "nat Server" where "s0 = NewServer (\<lambda>_. Inr []) ServerConfig_zero ''k'' ''i'' 60 7"
  define hello where "hello = \<lparr>h_Role = [], h_Slug = ''k'', h_Version = ''1'', h_MinVersion = [], h_MaxVersion = [],
    h_SessionID = [], h_Features = [], h_LastSeenSeq = []\<rparr>"
  define s1 where "s1 = snd (addSession (NewSession \<lparr>w_out = [], w_script = []\<rparr>) s0)"
  have t0: "sv_tracks s0 = [(''primary'', \<lparr>te_name = ''primary'', te_kind = KindVideo, te_priority = DefaultPriority KindVideo,
      te_trackID = 0, te_bc = 0\<rparr>)]" "sv_sessions s0 = []" "sv_nextRef s0 = 0" "byID (sv_store s0) = []" "sv_app s0 = 7"
    "length (sv_bcs s0) = 1" "next_rid (sv_bcs s0 ! 0) = 0" "receivers (sv_bcs s0 ! 0) = []"
    by (simp_all add: s0_def NewServer_def AddTrack_def AddTrackSpec_def addTrackInternal_def attachRecordersToTrack_def
        NewMemorySessionStore_def NewMemorySessionStoreWithCap_def NewBroadcaster_def NewBroadcasterWithBytes_def Let_def)
  obtain b where b: "sv_bcs s0 = [b]" using t0(6) by (auto simp: length_Suc_conv)
  obtain b' where b': "Subscribe b = (0, b')" "0 \<in> set (receivers b')"
    using t0(7) b by (auto simp: Subscribe_def subscribeWithCap_def Let_def)
  define s2 where "s2 = the (session_attach ''id'' 0 hello 0 s1)"
  have att: "session_attach ''id'' 0 hello 0 s1 = Some s2"
    by (simp add: s2_def session_attach_def s1_def addSession_def t0 hello_def OnFreshSession_def trackSnapshot_def b b' split_beta)
  have s2: "srv_refs s2 = {#(0, 0)#}" "sv_tracks s2 = sv_tracks s0" "sv_bcs s2 = [b']" "sv_app s2 = 7"
    by (simp_all add: s2_def session_attach_def s1_def addSession_def t0 hello_def OnFreshSession_def trackSnapshot_def b b'
        upd_session_def srv_refs_def session_refs_def attach_fresh_def AttachTrackWithKind_def NewSession_def Let_def)
  have r: "reach (\<lambda>s. \<exists>cfg rnd iid w app. s = NewServer (\<lambda>_. Inr []) cfg rnd iid w app)
      (\<lambda>s op s'. sv_exec (\<lambda>_. Inr []) (\<lambda>_. Inr []) op s = Some s') s2"
  proof (rule reach_step [where l = "SvAttach ''id'' 0 hello 0"])
    show "reach (\<lambda>s. \<exists>cfg rnd iid w app. s = NewServer (\<lambda>_. Inr []) cfg rnd iid w app)
      (\<lambda>s op s'. sv_exec (\<lambda>_. Inr []) (\<lambda>_. Inr []) op s = Some s') s1"
      by (rule reach_step [OF reach_init [of _ s0], where l = "SvOpen \<lparr>w_out = [], w_script = []\<rparr>"])
         (use s0_def in blast, simp add: s1_def)
  qed (simp add: att)
  show ?thesis
    using server_invariant [OF r, of "SvEnd 0 0 False 0" "(0, 0)"] s2 t0(1) b'(2) by (intro exI [of _ s2]) simp
qed

end
