(* ===== verification/Server_Resume.thy ===== *)
theory Server_Resume
  imports Server_Safety
begin

text \<open>
  Parking and resuming a session, end to end: a subscriber that reconnects within the resume window and
  says what it saw last finds in its queue exactly the access units that followed, in order, none missing
  and none twice, together with at most the keyframe its parked receiver was seeded with.
\<close>

section \<open>Merging by sequence number\<close>

lemma seq_inj: "sorted_wrt (<) (map au_Seq h) \<Longrightarrow> inj_on au_Seq (set h)"
  by (metis distinct_map sorted_wrt_map strict_sorted_iff sorted_wrt_map)

lemma merge_filter:
  assumes "sorted_wrt (<) (map au_Seq h)" "set pre \<union> set cur \<subseteq> set h"
  shows "merge_by_seq pre cur = filter (\<lambda>a. a \<in> set pre \<union> set cur) h"
proof -
  let ?m = "merge_by_seq pre cur"
  have h: "sorted (map au_Seq h)" "distinct (map au_Seq h)" using assms(1) by (simp_all add: strict_sorted_iff)
  have inj: "inj_on au_Seq (set h)" using assms(1) by (rule seq_inj)
  have sub: "set ?m \<subseteq> set pre \<union> set cur" by (rule merge_by_seq_subset)
  have "set pre \<union> set cur \<subseteq> set ?m"
  proof
    fix a assume a: "a \<in> set pre \<union> set cur"
    then have "au_Seq a \<in> au_Seq ` set ?m" unfolding merge_by_seq_cover by blast
    then obtain c where c: "c \<in> set ?m" "au_Seq a = au_Seq c" by blast
    then have "a = c" using inj a sub assms(2) by (auto dest!: inj_onD)
    then show "a \<in> set ?m" using c(1) by simp
  qed
  then have set: "set ?m = set (filter (\<lambda>a. a \<in> set pre \<union> set cur) h)" using sub assms(2) by auto
  show ?thesis
  proof (rule map_sorted_distinct_set_unique [of au_Seq])
    show "inj_on au_Seq (set ?m \<union> set (filter (\<lambda>a. a \<in> set pre \<union> set cur) h))"
      using inj set by (auto intro: inj_on_subset)
    show "sorted (map au_Seq (filter (\<lambda>a. a \<in> set pre \<union> set cur) h))" using h(1) by (rule sorted_filter)
    show "distinct (map au_Seq (filter (\<lambda>a. a \<in> set pre \<union> set cur) h))" using h(2) by (rule distinct_map_filter)
  qed (use set merge_by_seq_sorted in simp_all)
qed

lemma suffixes_linear: "suffix a h \<Longrightarrow> suffix b h \<Longrightarrow> length a \<le> length b \<Longrightarrow> set a \<subseteq> set b"
  by (metis set_mono_suffix suffix_length_suffix)

section \<open>Resuming one receiver\<close>

text \<open>\<open>h\<close> is everything the broadcaster ever admitted, \<open>ring\<close> what its replay ring still holds, \<open>away\<close> what was
  published while the subscriber was away, \<open>seed\<close> the keyframe the parked receiver started with.\<close>

lemma succ_le_word: "f \<noteq> - 1 \<Longrightarrow> f + 1 \<le> x \<longleftrightarrow> f < (x :: 32 word)"
  using unatSuc [of f] by (simp add: word_le_nat_alt word_less_nat_alt add.commute eq_neg_iff_add_eq_0 Suc_le_eq)

lemma replay_available:
  assumes "ring_inv b" "replayCap b > 0" "sorted_wrt (<) (map au_Seq (replaySnapshotLocked b))" "f \<noteq> - 1"
  shows "ReplaySince (f + 1) b =
    (if replaySnapshotLocked b = [] \<or> (\<exists>a \<in> set (replaySnapshotLocked b). au_Seq a \<le> f + 1)
     then (filter (\<lambda>a. f < au_Seq a) (replaySnapshotLocked b), True) else ([], False))"
proof (cases "replaySnapshotLocked b")
  case Nil
  then have "replayBuf b = []" by (metis length_0_conv length_replaySnapshotLocked)
  then show ?thesis using Nil by (simp add: ReplaySince_def)
next
  case (Cons x xs)
  then have ne: "replayBuf b \<noteq> []" by (metis length_0_conv length_replaySnapshotLocked list.discI)
  have le: "f + 1 \<le> au_Seq a \<longleftrightarrow> f < au_Seq a" for a using assms(4) by (rule succ_le_word)
  have "sorted (map au_Seq (filter (\<lambda>a. f < au_Seq a) (replaySnapshotLocked b)))"
    using assms(3) by (intro sorted_filter) (simp add: strict_sorted_iff)
  then have "sort_key au_Seq (filter (\<lambda>a. f + 1 \<le> au_Seq a) (replaySnapshotLocked b)) = filter (\<lambda>a. f < au_Seq a) (replaySnapshotLocked b)"
    by (simp add: le sort_key_id_if_sorted)
  then show ?thesis using ne assms(2) minSeq_fold [of "au_Seq x" xs "f + 1"] Cons
    by (auto simp: ReplaySince_def not_less [symmetric])
qed

lemma replay_covers:
  assumes "sorted_wrt (<) (map au_Seq h)" "suffix ring h" "ring = [] \<longrightarrow> h = []" "f \<noteq> - 1"
    and "ring = [] \<or> (\<exists>a \<in> set ring. au_Seq a \<le> f + 1)" "a \<in> set h" "f < au_Seq a"
  shows "a \<in> set ring"
proof -
  obtain pre where h: "h = pre @ ring" using assms(2) by (auto simp: suffix_def)
  have "a \<notin> set pre"
  proof
    assume pre: "a \<in> set pre"
    then obtain e where e: "e \<in> set ring" "au_Seq e \<le> f + 1" using assms(3,5) h by auto
    have "au_Seq a < au_Seq e" using assms(1) pre e(1) by (simp add: h sorted_wrt_append)
    then show False using e(2) assms(7) succ_le_word [OF assms(4), of "au_Seq a"] by (meson leD order.strict_trans2 le_less_trans)
  qed
  then show ?thesis using assms(6) h by simp
qed

text \<open>The queue after the splice.\<close>

definition resumed_queue :: "32 word \<Rightarrow> AccessUnit list \<Rightarrow> AccessUnit list \<Rightarrow> AccessUnit list \<Rightarrow> bool" where
  "resumed_queue f h seed q \<longleftrightarrow>
     filter (\<lambda>a. f < au_Seq a) q = filter (\<lambda>a. f < au_Seq a) h \<and> (\<forall>a \<in> set q. f < au_Seq a \<or> a \<in> set seed)"

lemma splice_resumes:
  assumes "sorted_wrt (<) (map au_Seq (hist @ away))" "suffix ring (hist @ away)" "ring = [] \<longrightarrow> hist @ away = []" "f \<noteq> - 1"
    and "ring = [] \<or> (\<exists>a \<in> set ring. au_Seq a \<le> f + 1)" "set seed \<subseteq> set hist" "length seed \<le> 1"
    and "length ring \<le> 256" "length away < 320" "\<forall>a \<in> set away. f < au_Seq a"
    and "rc_ok x" "\<not> rc_closed x" "320 \<le> c_cap (rc_ch x)" "queue x = seed @ away"
  defines "replay \<equiv> filter (\<lambda>a. f < au_Seq a) ring"
  shows "\<exists>y. (if replay \<noteq> [] then SpliceFront replay x else Some x) = Some y \<and> rc_ok y \<and> \<not> rc_closed y \<and>
    rc_needKeyframe y = rc_needKeyframe x \<and> resumed_queue f (hist @ away) seed (queue y)"
proof -
  let ?h = "hist @ away"
  have cov: "a \<in> set replay" if "a \<in> set ?h" "f < au_Seq a" for a
    using replay_covers [OF assms(1-5) that] that by (simp add: replay_def)
  have sub: "set replay \<union> set (queue x) \<subseteq> set ?h"
    using assms(2,6,14) set_mono_suffix by (fastforce simp: replay_def)
  have low: "f < au_Seq a \<or> a \<in> set seed" if "a \<in> set replay \<union> set (queue x)" for a
    using that assms(10,14) by (auto simp: replay_def)
  show ?thesis
  proof (cases "replay = []")
    case True
    then have none: "\<not> f < au_Seq a" if "a \<in> set ?h" for a using cov [OF that] by auto
    then have "filter (\<lambda>a. f < au_Seq a) (queue x) = []" "filter (\<lambda>a. f < au_Seq a) ?h = []"
      using sub unfolding filter_empty_conv by blast+
    then have "resumed_queue f ?h seed (queue x)" using low by (simp add: resumed_queue_def)
    then show ?thesis using True assms(11,12) by simp
  next
    case False
    let ?m = "merge_by_seq replay (queue x)"
    have m: "?m = filter (\<lambda>a. a \<in> set replay \<union> set (queue x)) ?h" using assms(1) sub by (rule merge_filter)
    have dist: "distinct ?m" using merge_by_seq_sorted(2) [of replay "queue x"] unfolding distinct_map by blast
    have "length ?m = card (set replay \<union> set (queue x))"
    proof -
      have "length ?m = card (set ?m)" using distinct_card [OF dist] by simp
      also have "set ?m = set replay \<union> set (queue x)" using sub unfolding m by auto
      finally show ?thesis .
    qed
    also have "\<dots> \<le> card (set seed \<union> (set ring \<union> set away))"
      by (rule card_mono) (auto simp: assms(14) replay_def)
    also have "\<dots> \<le> card (set seed) + card (set ring \<union> set away)" by (rule card_Un_le)
    also have "card (set ring \<union> set away) \<le> 319"
    proof (cases "length ring \<le> length away")
      case True
      then have "set ring \<union> set away = set away" using suffixes_linear [OF assms(2), of away] by (auto simp: suffix_def)
      then show ?thesis using card_length [of away] assms(9) by simp
    next
      case False
      then have "set ring \<union> set away = set ring" using suffixes_linear [OF _ assms(2), of away] by (auto simp: suffix_def)
      then show ?thesis using card_length [of ring] assms(8) by simp
    qed
    finally have len: "length ?m \<le> c_cap (rc_ch x)" using card_length [of seed] assms(7,13) by simp
    define y where "y = x\<lparr>rc_ch := (rc_ch x)\<lparr>c_buf := ?m\<rparr>\<rparr>"
    have sp: "SpliceFront replay x = Some y" using SpliceFront_eq [OF assms(11,12) False] len by (simp add: y_def)
    have "filter (\<lambda>a. f < au_Seq a) ?m = filter (\<lambda>a. f < au_Seq a) ?h"
      unfolding m filter_filter by (rule filter_cong) (use cov in auto)
    then have "resumed_queue f ?h seed (queue y)" using low by (auto simp: resumed_queue_def y_def m)
    moreover have "rc_ok y" using assms(11) len by (simp add: y_def rc_ok_def chan_ok_def)
    ultimately show ?thesis using False sp assms(12) by (simp add: y_def)
  qed
qed

section \<open>A parked receiver over time\<close>

text \<open>A subscribed receiver with room, no gate and a given queue; and the replay ring as the recent part of the
  history \<open>h\<close>.\<close>

definition parked_at :: "rid \<Rightarrow> AccessUnit list \<Rightarrow> 's broadcaster \<Rightarrow> bool" where
  "parked_at r q b \<longleftrightarrow> r \<in> set (receivers b) \<and> (\<exists>x. rheap b r = Some x \<and> rc_ok x \<and> \<not> rc_closed x \<and>
     320 \<le> c_cap (rc_ch x) \<and> queue x = q \<and> \<not> rc_needKeyframe x)"

definition ring_hist :: "AccessUnit list \<Rightarrow> 's broadcaster \<Rightarrow> bool" where
  "ring_hist h b \<longleftrightarrow> replayCap b = DefaultReplayCap \<and> suffix (replaySnapshotLocked b) h \<and> (replaySnapshotLocked b = [] \<longrightarrow> h = [])"

lemma Publish_replayCap:
  assumes "b_inv b" "Publish au s b = Some (s', b')"
  shows "replayCap b' = replayCap b"
proof -
  have "replayCap b1 = replayCap b" if "publish_locked a b = Some b1" for a b1
  proof -
    define b0 where "b0 = (if au_Keyframe a then b\<lparr>latestKeyframe := Some a\<rparr> else b)"
    have "ring_ok b0" "replayCap b0 = replayCap b" using assms(1) by (auto simp: b0_def b_inv_def)
    then show ?thesis using that by (auto simp: publish_locked_def b0_def [symmetric] ring_ok_def split: if_splits)
  qed
  then show ?thesis using assms(2) by (fastforce simp: Publish_def split: prod.splits option.splits)
qed

lemma Publish_ring_hist:
  assumes "b_inv b" "Publish au s b = Some (s', b')" "ring_hist h b"
  shows "ring_hist (h @ (case admitted au s b of None \<Rightarrow> [] | Some a \<Rightarrow> [a])) b'"
proof (cases "admitted au s b")
  case None
  then show ?thesis using Publish_cases [OF assms(1,2)] assms(3) by simp
next
  case (Some a)
  have snap: "replaySnapshotLocked b' = fifo_push (replayCap b) (replayMaxBytes b) a (replaySnapshotLocked b)"
    using Publish_cases [OF assms(1,2)] Some by simp
  have cap: "replayCap b = DefaultReplayCap" "replayCap b \<noteq> 0" using assms(3) by (simp_all add: ring_hist_def DefaultReplayCap_def)
  have "suffix (replaySnapshotLocked b') (replaySnapshotLocked b @ [a])" using snap cap(2) fifo_push_suffix by metis
  moreover have "suffix (replaySnapshotLocked b @ [a]) (h @ [a])" using assms(3) by (simp add: ring_hist_def)
  moreover have "replaySnapshotLocked b' \<noteq> []" using snap cap(2) by (simp add: fifo_push_def Let_def)
  ultimately show ?thesis using Some cap(1) Publish_replayCap [OF assms(1,2)] suffix_order.trans by (auto simp: ring_hist_def)
qed

lemma Publish_parked_at:
  assumes "b_inv b" "Publish au s b = Some (s', b')" "parked_at r q b"
    and "length (q @ (case admitted au s b of None \<Rightarrow> [] | Some a \<Rightarrow> [a])) \<le> 320"
  shows "parked_at r (q @ (case admitted au s b of None \<Rightarrow> [] | Some a \<Rightarrow> [a])) b'"
proof (cases "admitted au s b")
  case None
  then show ?thesis using Publish_cases [OF assms(1,2)] assms(3) by simp
next
  case (Some a)
  obtain x where x: "rheap b r = Some x" "rc_ok x" "\<not> rc_closed x" "320 \<le> c_cap (rc_ch x)" "queue x = q" "\<not> rc_needKeyframe x"
    "r \<in> set (receivers b)" using assms(3) by (auto simp: parked_at_def)
  obtain y where y: "deliver (selfContained b) a x = Some y" "rc_ok y" "rc_closed y = rc_closed x"
    "c_cap (rc_ch y) = c_cap (rc_ch x)" "(queue y, rc_needKeyframe y) = deliver_spec (selfContained b) a x"
    using deliver_refines [OF x(2)] by blast
  then have "queue y = q @ [a]" "\<not> rc_needKeyframe y"
    using x(3-6) assms(4) Some by (auto simp: deliver_spec_def Let_def split: if_splits)
  moreover have "receivers b' = receivers b" "rheap b' r = Some y"
    using Publish_cases [OF assms(1,2)] Some x(1,7) y(1) by simp_all
  ultimately show ?thesis using Some x y by (simp add: parked_at_def)
qed

text \<open>Operations that do not concern the receiver.\<close>

definition calm :: "rid \<Rightarrow> 's broadcaster \<Rightarrow> 's broadcaster \<Rightarrow> bool" where
  "calm r b b' \<longleftrightarrow> rheap b' r = rheap b r \<and> (r \<in> set (receivers b) \<longrightarrow> r \<in> set (receivers b')) \<and>
     replaySnapshotLocked b' = replaySnapshotLocked b \<and> replayCap b' = replayCap b"

lemma calm_refl [simp]: "calm r b b" and calm_trans: "calm r a b \<Longrightarrow> calm r b c \<Longrightarrow> calm r a c"
  by (auto simp: calm_def)

lemma calm_keeps: "calm r b b' \<Longrightarrow> parked_at r q b \<Longrightarrow> parked_at r q b'" "calm r b b' \<Longrightarrow> ring_hist h b \<Longrightarrow> ring_hist h b'"
  by (auto simp: calm_def parked_at_def ring_hist_def)

lemma calm_Unsubscribe: "r \<noteq> r' \<Longrightarrow> calm r b (Unsubscribe r' b)"
  by (auto simp: calm_def Unsubscribe_def replaySnapshotLocked_def Let_def)

lemma calm_on_receiver: "r \<noteq> r' \<Longrightarrow> on_receiver f r' b = Some b' \<Longrightarrow> calm r b b'"
  by (auto simp: calm_def on_receiver_def replaySnapshotLocked_def Let_def split: option.splits)

definition calm_at :: "rref \<Rightarrow> 's Server \<Rightarrow> 's Server \<Rightarrow> bool" where
  "calm_at rr s s' \<longleftrightarrow> length (sv_bcs s') = length (sv_bcs s) \<and>
     (fst rr < length (sv_bcs s) \<longrightarrow> calm (snd rr) (sv_bcs s ! fst rr) (sv_bcs s' ! fst rr))"

lemma calm_at_refl [simp]: "calm_at rr s s" and calm_at_trans: "calm_at rr a b \<Longrightarrow> calm_at rr b c \<Longrightarrow> calm_at rr a c"
  by (auto simp: calm_at_def intro: calm_trans)

lemma calm_at_bcs: "sv_bcs t = sv_bcs s \<Longrightarrow> calm_at rr t s' = calm_at rr s s'"
  by (simp add: calm_at_def)

lemma calm_at_Unsubscribe: "rr \<noteq> rr' \<Longrightarrow> calm_at rr s (sv_Unsubscribe j rr' s)"
  by (cases rr; cases rr'; cases "fst rr = j")
     (auto simp: calm_at_def sv_Unsubscribe_def upd_bc_def nth_list_update calm_Unsubscribe)

lemma calm_at_fold:
  assumes "\<And>x s. x \<in> set xs \<Longrightarrow> calm_at rr s (f x s)"
  shows "calm_at rr s (fold f xs s)"
  using assms
proof (induction xs arbitrary: s)
  case (Cons x xs)
  have "calm_at rr s (f x s)" using Cons.prems by simp
  then show ?case using Cons by (auto intro: calm_at_trans)
qed simp

lemma calm_unsubscribe_active: "rr \<notin># session_refs x \<Longrightarrow> calm_at rr s (unsubscribe_active x ts s)"
  unfolding unsubscribe_active_def by (intro calm_at_fold calm_at_Unsubscribe) (use Receivers_refs in blast)

lemma calm_set_store:
  fixes s :: "'s Server"
  assumes "st_evicted st = st_evicted (sv_store s) @ ev" "rr \<notin># parked_refs (mset ev)"
  shows "calm_at rr s (set_store st s)"
proof -
  have one: "calm_at rr t (fold (\<lambda>(name, rr). sv_Unsubscribe (fst rr) rr) (ps_receivers p) t)" if "p \<in> set ev" for p and t :: "'s Server"
  proof (rule calm_at_fold)
    fix q :: "string \<times> rref" and u :: "'s Server" assume "q \<in> set (ps_receivers p)"
    then have "rr \<noteq> snd q" using that assms(2) by (force simp: parked_refs_def)
    then show "calm_at rr u ((case q of (name, rr) \<Rightarrow> sv_Unsubscribe (fst rr) rr) u)"
      by (simp add: split_beta calm_at_Unsubscribe)
  qed
  have "calm_at rr (s\<lparr>sv_store := st\<rparr>) (set_store st s)"
    unfolding set_store_def by (rule calm_at_fold) (use one assms(1) in simp)
  then show ?thesis by (simp add: calm_at_def)
qed

section \<open>Parking\<close>

text \<open>Each registered track's receiver in the parked map is the one that subscribing to its broadcaster returned.\<close>

lemma subscribe_tracks_other:
  "i \<notin> te_bc ` set ts \<Longrightarrow> subscribe_tracks sub ts bs = (rs, bs') \<Longrightarrow> bs' ! i = bs ! i \<and> length bs' = length bs"
proof (induction ts arbitrary: bs rs)
  case (Cons t ts)
  then show ?case by (fastforce split: prod.splits)
qed simp

lemma subscribe_tracks_nth:
  assumes "distinct (map te_bc ts)" "distinct (map te_name ts)" "t \<in> set ts" "te_bc t < length bs"
    and "subscribe_tracks sub ts bs = (rs, bs')" "sub (bs ! te_bc t) = (r, b)"
  shows "map_of rs (te_name t) = Some (te_bc t, r) \<and> bs' ! te_bc t = b"
  using assms
proof (induction ts arbitrary: bs rs)
  case (Cons u ts)
  obtain q c where q: "sub (bs ! te_bc u) = (q, c)" by fastforce
  obtain rs1 where rs1: "subscribe_tracks sub ts (bs[te_bc u := c]) = (rs1, bs')" "rs = (te_name u, te_bc u, q) # rs1"
    using Cons.prems(5) q by (auto split: prod.splits)
  show ?case
  proof (cases "u = t")
    case True
    have "te_bc t \<notin> te_bc ` set ts" using Cons.prems(1) True by simp
    from subscribe_tracks_other [OF this] rs1(1) True have "bs' ! te_bc t = bs[te_bc t := c] ! te_bc t" by blast
    then show ?thesis using True q rs1(2) Cons.prems(4,6) by simp
  next
    case False
    then have t: "t \<in> set ts" "te_bc u \<noteq> te_bc t" "te_name u \<noteq> te_name t" using Cons.prems(1-3) by auto
    have "map_of rs1 (te_name t) = Some (te_bc t, r) \<and> bs' ! te_bc t = b"
      using Cons.prems t by (intro Cons.IH [OF _ _ t(1) _ rs1(1)]) auto
    then show ?thesis using rs1(2) t(3) by simp
  qed
qed simp

lemma SubscribeWithCapacity_parked:
  assumes "b_inv b" "selfContained b \<or> latestKeyframe b \<noteq> None" "SubscribeWithCapacity parkedChanCap b = (r, b')"
  shows "parked_at r (case latestKeyframe b of None \<Rightarrow> [] | Some k \<Rightarrow> [k]) b'"
proof -
  have "1 \<le> chanSize b" using assms(1) by (simp add: b_inv_def)
  then show ?thesis using assms(2,3)
    by (auto simp: SubscribeWithCapacity_def subscribeWithCap_def parkedChanCap_def DefaultReplayCap_def parked_at_def rc_ok_def
        chan_ok_def make_chan_def Let_def split: option.splits if_splits)
qed

lemma SubscribeWithCapacity_ring:
  assumes "SubscribeWithCapacity n b = (r, b')"
  shows "ring_hist h b' = ring_hist h b" "latestKeyframe b' = latestKeyframe b" "selfContained b' = selfContained b"
  using assms by (auto simp: SubscribeWithCapacity_def subscribeWithCap_def ring_hist_def replaySnapshotLocked_def Let_def)

text \<open>Subscribing to every registered track: the map has exactly the registered names, each with a new receiver of its
  broadcaster.\<close>

lemma subscribe_registry:
  assumes "srv_inv s" "subscribe_tracks (SubscribeWithCapacity c) (map snd (sv_tracks s)) (sv_bcs s) = (parked, bs)"
  shows "map fst parked = map fst (sv_tracks s)" "bcs_evolve {} (sv_bcs s) bs"
    and "map_of (sv_tracks s) m = Some u \<Longrightarrow>
      map_of parked m = Some (te_bc u, fst (SubscribeWithCapacity c (sv_bcs s ! te_bc u))) \<and>
      bs ! te_bc u = snd (SubscribeWithCapacity c (sv_bcs s ! te_bc u))"
proof -
  let ?ts = "map snd (sv_tracks s)"
  have tr: "tracks_ok (sv_bcs s) (sv_tracks s)" by (rule srv_inv_tracks [OF assms(1)])
  have names: "map te_name ?ts = map fst (sv_tracks s)" using tracks_okD(1) [OF tr] by auto
  have d: "distinct (map te_bc ?ts)" using srv_inv_distinct(2) [OF assms(1)] by (simp add: comp_def)
  have dn: "distinct (map te_name ?ts)" unfolding names by (rule srv_inv_distinct(1) [OF assms(1)])
  have all: "\<forall>t\<in>set ?ts. te_bc t < length (sv_bcs s)" using tracks_okD(3) [OF tr] by auto
  note fr = subscribe_tracks_fresh [OF bc_evolve_SubscribeWithCapacity all srv_inv_bcs [OF assms(1)] assms(2)]
  then show "map fst parked = map fst (sv_tracks s)" "bcs_evolve {} (sv_bcs s) bs" using names by simp_all
  assume "map_of (sv_tracks s) m = Some u"
  then have mu: "(m, u) \<in> set (sv_tracks s)" by (rule map_of_SomeD)
  then have u: "u \<in> set ?ts" by (auto simp: rev_image_eqI)
  show "map_of parked m = Some (te_bc u, fst (SubscribeWithCapacity c (sv_bcs s ! te_bc u))) \<and>
      bs ! te_bc u = snd (SubscribeWithCapacity c (sv_bcs s ! te_bc u))"
    using subscribe_tracks_nth [OF d dn u _ assms(2) prod.collapse [symmetric]] tracks_okD [OF tr mu] by simp
qed

text \<open>Ending a session disturbs no receiver but those that had an owner before.\<close>

lemma session_end_shape:
  assumes "srv_inv s" "map_of (sv_sessions s) ref = Some x" "sn_SessionID x \<noteq> []" "\<not> sv_draining s"
    and "subscribe_tracks (SubscribeWithCapacity parkedChanCap) (map snd (sv_tracks s)) (sv_bcs s) = (parked, bs)"
    and "s1 = session_end t1 t2 False ref s"
  shows "sv_store s1 = Park t1 t2 (sn_Tenant x) (sn_SessionID x) parked True (sv_store s)" "sv_tracks s1 = sv_tracks s"
    and "rr \<notin># srv_refs s \<Longrightarrow> calm_at rr (s\<lparr>sv_bcs := bs\<rparr>) s1"
proof -
  define ts where "ts = map snd (sv_tracks s)"
  define u1 where "u1 = unsubscribe_active x ts (s\<lparr>sv_bcs := bs\<rparr>)"
  have store: "sv_store u1 = sv_store s" "sv_tracks u1 = sv_tracks s"
    using only_bcs_sel [OF unsubscribe_active_bcs, of x ts "s\<lparr>sv_bcs := bs\<rparr>"] by (simp_all add: u1_def)
  define st where "st = Park t1 t2 (sn_Tenant x) (sn_SessionID x) parked True (sv_store u1)"
  have s1: "s1 = session_cleanup ref (set_store st u1)"
    using assms(2-5) by (simp add: assms(6) session_end_def session_park_def ts_def [symmetric] u1_def [symmetric] st_def [symmetric])
  have "distinct (map fst (byID (sv_store s)))" using srv_inv_keys [OF assms(1)] by (simp add: keys_ok_def)
  then obtain ev where e: "st_evicted (park_room t1 (sv_store s)) = st_evicted (sv_store s) @ ev"
    "mset ev + stored (park_room t1 (sv_store s)) \<subseteq># stored (sv_store s)" using park_room_drops by blast
  have ev: "st_evicted st = st_evicted (sv_store u1) @ ev" "mset ev \<subseteq># stored (sv_store s)"
    using e(1) subset_mset.order_trans [OF mset_subset_eq_add_left e(2)] by (simp_all add: st_def Park_def store Let_def)
  show "sv_store s1 = Park t1 t2 (sn_Tenant x) (sn_SessionID x) parked True (sv_store s)" "sv_tracks s1 = sv_tracks s"
    using set_store_frame [OF ev(1)] by (simp_all add: s1 session_cleanup_def st_def store)
  assume rr: "rr \<notin># srv_refs s"
  have "distinct (map fst (sv_sessions s))" using srv_inv_keys [OF assms(1)] by (simp add: keys_ok_def)
  from sessions_refs_delete [OF this assms(2)] have "rr \<notin># session_refs x" using rr by (simp add: srv_refs_def)
  then have u: "calm_at rr (s\<lparr>sv_bcs := bs\<rparr>) u1" unfolding u1_def by (rule calm_unsubscribe_active)
  have out: "rr \<notin># parked_refs (mset ev)"
    using rr mset_subset_eqD [OF parked_refs_mono [OF ev(2)], of rr] by (simp add: srv_refs_def) blast
  from calm_at_trans [OF u calm_set_store [OF ev(1) out]] have "calm_at rr (s\<lparr>sv_bcs := bs\<rparr>) (set_store st u1)" .
  then show "calm_at rr (s\<lparr>sv_bcs := bs\<rparr>) s1" by (simp add: s1 calm_at_def session_cleanup_def)
qed

text \<open>What \<open>session_end\<close> leaves for a registered track: a parked receiver in the store, seeded with the cached keyframe.\<close>

lemma session_end_parks:
  assumes "srv_inv s" "map_of (sv_sessions s) ref = Some x" "sn_SessionID x \<noteq> []" "\<not> sv_draining s"
    and "map_of (sv_tracks s) n = Some te" "b = sv_bcs s ! te_bc te" "ring_hist h b" "selfContained b \<or> latestKeyframe b \<noteq> None"
    and "s1 = session_end t1 t2 False ref s"
  shows "\<exists>parked r. sv_store s1 = Park t1 t2 (sn_Tenant x) (sn_SessionID x) parked True (sv_store s) \<and>
    map_of parked n = Some (te_bc te, r) \<and>
    (\<forall>m i q. map_of parked m = Some (i, q) \<longrightarrow> (\<exists>u. map_of (sv_tracks s) m = Some u \<and> te_bc u = i)) \<and>
    sv_tracks s1 = sv_tracks s \<and> te_bc te < length (sv_bcs s1) \<and> length (sv_bcs s1) = length (sv_bcs s) \<and> ring_hist h (sv_bcs s1 ! te_bc te) \<and>
    parked_at r (case latestKeyframe b of None \<Rightarrow> [] | Some k \<Rightarrow> [k]) (sv_bcs s1 ! te_bc te)"
proof -
  obtain parked bs where sub: "subscribe_tracks (SubscribeWithCapacity parkedChanCap) (map snd (sv_tracks s)) (sv_bcs s) = (parked, bs)"
    by fastforce
  note reg = subscribe_registry [OF assms(1) sub] and shape = session_end_shape [OF assms(1-4) sub assms(9)]
  obtain r b1 where rb: "SubscribeWithCapacity parkedChanCap b = (r, b1)" by fastforce
  have nth: "map_of parked n = Some (te_bc te, r)" "bs ! te_bc te = b1" using reg(3) [OF assms(5)] rb assms(6) by auto
  have te: "te_bc te < length (sv_bcs s)" using tracks_okD(3) [OF srv_inv_tracks [OF assms(1)] map_of_SomeD [OF assms(5)]] .
  have binv: "b_inv b" using srv_inv_bcs [OF assms(1)] te assms(6) by simp
  have b1: "parked_at r (case latestKeyframe b of None \<Rightarrow> [] | Some k \<Rightarrow> [k]) b1" "ring_hist h b1" "r = next_rid b"
    using SubscribeWithCapacity_parked [OF binv assms(8) rb] SubscribeWithCapacity_ring [OF rb] assms(7)
      bc_evolve_SubscribeWithCapacity [OF binv rb] by auto
  have "(te_bc te, r) \<notin># srv_refs s" using srv_inv_refs [OF assms(1)] b1(3) assms(6) by (auto simp: refs_ok_def)
  from shape(3) [OF this] reg(2) te have calm: "calm r b1 (sv_bcs s1 ! te_bc te)" "length (sv_bcs s1) = length (sv_bcs s)"
    by (simp_all add: calm_at_def bcs_evolve_def nth(2))
  have "\<exists>u. map_of (sv_tracks s) m = Some u \<and> te_bc u = i" if "map_of parked m = Some (i, q)" for m i q
  proof -
    have "m \<in> fst ` set (sv_tracks s)" using reg(1) map_of_SomeD [OF that] by (metis fst_conv image_eqI set_map)
    then obtain u where "map_of (sv_tracks s) m = Some u" by (metis map_of_eq_None_iff not_None_eq)
    then show ?thesis using reg(3) that by auto
  qed
  then show ?thesis using nth(1) shape(1,2) calm calm_keeps(1) [OF calm(1) b1(1)] calm_keeps(2) [OF calm(1) b1(2)] te
    by (intro exI [of _ parked] exI [of _ r]) auto
qed

section \<open>While the subscriber is away\<close>

text \<open>AUs published to any tracks; the result lists those that broadcaster \<open>i\<close> admitted.\<close>

fun published :: "nat \<Rightarrow> (nat \<times> AccessUnit) list \<Rightarrow> 's Server \<Rightarrow> (AccessUnit list \<times> 's Server) option" where
  "published i [] s = Some ([], s)"
| "published i ((j, au) # ps) s =
     (case Publisher_Publish j au s of
        None \<Rightarrow> None
      | Some s1 \<Rightarrow>
          (case published i ps s1 of
             None \<Rightarrow> None
           | Some (adm, s2) \<Rightarrow>
               Some ((if j = i then (case admitted au (sv_app s) (sv_bcs s ! i) of None \<Rightarrow> [] | Some a \<Rightarrow> [a]) else []) @ adm, s2)))"

lemma Publisher_Publish_frame:
  assumes "Publisher_Publish j au s = Some s1"
  shows "sv_tracks s1 = sv_tracks s" "sv_store s1 = sv_store s" "srv_refs s1 = srv_refs s" "length (sv_bcs s1) = length (sv_bcs s)"
    "sv_sessions s1 = sv_sessions s"
  using assms by (auto simp: Publisher_Publish_def srv_refs_def split: option.splits)

lemma published_keeps:
  assumes "srv_inv s" "\<forall>p \<in> set ps. fst p < length (sv_bcs s)" "i < length (sv_bcs s)" "published i ps s = Some (adm, s2)"
    and "parked_at r q (sv_bcs s ! i)" "ring_hist h (sv_bcs s ! i)" "length (q @ adm) \<le> 320"
  shows "srv_inv s2 \<and> sv_tracks s2 = sv_tracks s \<and> sv_store s2 = sv_store s \<and> length (sv_bcs s2) = length (sv_bcs s) \<and>
    parked_at r (q @ adm) (sv_bcs s2 ! i) \<and> ring_hist (h @ adm) (sv_bcs s2 ! i)"
  using assms
proof (induction ps arbitrary: s q h adm)
  case (Cons p ps)
  obtain j au where p: "p = (j, au)" by fastforce
  have j: "j < length (sv_bcs s)" using Cons.prems(2) p by simp
  obtain s1 where s1: "Publisher_Publish j au s = Some s1" "srv_inv s1" using srv_inv_Publish [OF Cons.prems(1) j, of au] by blast
  note fr = Publisher_Publish_frame [OF s1(1)]
  define one where "one = (if j = i then (case admitted au (sv_app s) (sv_bcs s ! i) of None \<Rightarrow> [] | Some a \<Rightarrow> [a]) else [])"
  obtain adm' where adm': "published i ps s1 = Some (adm', s2)" "adm = one @ adm'"
    using Cons.prems(4) p s1(1) by (auto simp: one_def split: option.splits)
  have "parked_at r (q @ one) (sv_bcs s1 ! i) \<and> ring_hist (h @ one) (sv_bcs s1 ! i)"
  proof (cases "j = i")
    case True
    obtain st b where b: "Publish au (sv_app s) (sv_bcs s ! i) = Some (st, b)" "sv_bcs s1 = (sv_bcs s)[i := b]"
      using s1(1) True by (auto simp: Publisher_Publish_def split: option.splits)
    have binv: "b_inv (sv_bcs s ! i)" using srv_inv_bcs [OF Cons.prems(1)] Cons.prems(3) by simp
    show ?thesis
      using Publish_parked_at [OF binv b(1) Cons.prems(5)] Publish_ring_hist [OF binv b(1) Cons.prems(6)] True b(2)
        Cons.prems(3,7) adm'(2) by (simp add: one_def)
  next
    case False
    then have "sv_bcs s1 ! i = sv_bcs s ! i" using s1(1) by (auto simp: Publisher_Publish_def split: option.splits)
    then show ?thesis using False Cons.prems(5,6) by (simp add: one_def)
  qed
  then show ?case using Cons.IH [OF s1(2) _ _ adm'(1), of "q @ one" "h @ one"] Cons.prems(2,3,7) fr adm'(2) by simp
qed auto

section \<open>Resuming\<close>

lemma resume_tracks_append:
  "resume_tracks recvs (ps @ qs) s = (case resume_tracks recvs ps s of None \<Rightarrow> None | Some s1 \<Rightarrow> resume_tracks recvs qs s1)"
  by (induction ps arbitrary: s) (auto split: option.split)

lemma resume_track_other:
  assumes "resume_track recvs p s = Some s1" "\<And>j q. map_of recvs (fst p) = Some (j, q) \<Longrightarrow> j \<noteq> i"
  shows "sv_bcs s1 ! i = sv_bcs s ! i \<and> sv_tracks s1 = sv_tracks s \<and> length (sv_bcs s1) = length (sv_bcs s)"
proof -
  obtain name fromSeq where p: "p = (name, fromSeq)" by fastforce
  show ?thesis using assms unfolding resume_track_def p
    by (auto simp: upd_bc_opt_def split_beta split: option.splits if_splits)
qed

lemma resume_tracks_other:
  assumes "resume_tracks recvs ps s = Some s1" "\<And>p j q. p \<in> set ps \<Longrightarrow> map_of recvs (fst p) = Some (j, q) \<Longrightarrow> j \<noteq> i"
  shows "sv_bcs s1 ! i = sv_bcs s ! i \<and> sv_tracks s1 = sv_tracks s \<and> length (sv_bcs s1) = length (sv_bcs s)"
  using assms
proof (induction ps arbitrary: s)
  case (Cons p ps)
  obtain s2 where s2: "resume_track recvs p s = Some s2" "resume_tracks recvs ps s2 = Some s1"
    using Cons.prems(1) by (auto split: option.splits)
  then show ?case using Cons.IH [OF s2(2)] resume_track_other [OF s2(1), of i] Cons.prems(2) by (metis list.set_intros)
qed simp

text \<open>What a resumed receiver holds. If the replay ring reaches back to the client's last AU, everything it missed;
  otherwise its queue is as parked, and a video receiver waits for a keyframe.\<close>

definition resumed_at :: "rid \<Rightarrow> Kind \<Rightarrow> 32 word \<Rightarrow> bool \<Rightarrow> AccessUnit list \<Rightarrow> AccessUnit list \<Rightarrow> AccessUnit list \<Rightarrow> 's broadcaster \<Rightarrow> bool" where
  "resumed_at r kind f available h seed away b \<longleftrightarrow> (\<exists>y. rheap b r = Some y \<and> \<not> rc_closed y \<and>
     (if available then \<not> rc_needKeyframe y \<and> resumed_queue f h seed (queue y)
      else queue y = seed @ away \<and> (rc_needKeyframe y \<longleftrightarrow> kind = KindVideo)))"

lemma upd_bc_opt_receiver:
  assumes "rheap (sv_bcs s ! i) r = Some x" "f x = Some y" "i < length (sv_bcs s)"
  shows "\<exists>s'. upd_bc_opt i (on_receiver f r) s = Some s' \<and> rheap (sv_bcs s' ! i) r = Some y"
  using assms by (simp add: upd_bc_opt_def on_receiver_def)

lemma resume_track_self:
  assumes "map_of recvs n = Some (i, r)" "trackEntry_of n s = Some te" "te_bc te = i" "te_kind te \<noteq> []" "i < length (sv_bcs s)"
    and "b_inv (sv_bcs s ! i)" "parked_at r (seed @ away) (sv_bcs s ! i)" "ring_hist (hist @ away) (sv_bcs s ! i)"
    and "sorted_wrt (<) (map au_Seq (hist @ away))" "set seed \<subseteq> set hist" "length seed \<le> 1" "length away < 320"
    and "f \<noteq> - 1" "\<forall>a \<in> set away. f < au_Seq a"
  shows "\<exists>s'. resume_track recvs (n, f) s = Some s' \<and>
    resumed_at r (te_kind te) f (snd (ReplaySince (f + 1) (sv_bcs s ! i))) (hist @ away) seed away (sv_bcs s' ! i)"
proof -
  define b where "b = sv_bcs s ! i"
  define ring where "ring = replaySnapshotLocked b"
  obtain x where x: "rheap b r = Some x" "rc_ok x" "\<not> rc_closed x" "320 \<le> c_cap (rc_ch x)" "queue x = seed @ away" "\<not> rc_needKeyframe x"
    using assms(7) by (auto simp: parked_at_def b_def)
  have ri: "ring_inv b" "replayCap b > 0" "suffix ring (hist @ away)" "ring = [] \<longrightarrow> hist @ away = []"
    using assms(6,8) by (auto simp: b_def ring_def b_inv_def ring_ok_def ring_hist_def DefaultReplayCap_def)
  have "length ring \<le> 256" using ri(1) assms(8) by (simp add: ring_def ring_inv_def b_def ring_hist_def DefaultReplayCap_def)
  note sp = splice_resumes [OF assms(9) ri(3,4) assms(13) _ assms(10,11) this assms(12,14) x(2-5)]
  have "sorted_wrt (<) (map au_Seq ring)" using assms(9) ri(3) unfolding suffix_def by (metis map_append sorted_wrt_append)
  note av = replay_available [OF ri(1,2) _ assms(13), folded ring_def, OF this]
  show ?thesis
  proof (cases "ring = [] \<or> (\<exists>a \<in> set ring. au_Seq a \<le> f + 1)")
    case True
    define replay where "replay = filter (\<lambda>a. f < au_Seq a) ring"
    have rp: "ReplaySince (f + 1) b = (replay, True)" using av True by (simp add: replay_def)
    obtain y where y: "(if replay \<noteq> [] then SpliceFront replay x else Some x) = Some y" "\<not> rc_closed y"
      "rc_needKeyframe y = rc_needKeyframe x" "resumed_queue f (hist @ away) seed (queue y)"
      using sp [OF True, folded replay_def] by blast
    have "\<exists>s'. resume_track recvs (n, f) s = Some s' \<and> rheap (sv_bcs s' ! i) r = Some y"
      using upd_bc_opt_receiver [of s i r x "SpliceFront replay" y] x(1) y(1) rp assms(1-5)
      by (auto simp: resume_track_def b_def [symmetric] split: if_splits)
    then show ?thesis using y x(6) rp by (auto simp: resumed_at_def b_def)
  next
    case False
    then have rp: "ReplaySince (f + 1) b = ([], False)" using av by auto
    define y where "y = (if te_kind te = KindVideo then Receiver_RequestKeyframe x else x)"
    have "\<exists>s'. resume_track recvs (n, f) s = Some s' \<and> rheap (sv_bcs s' ! i) r = Some y"
      using upd_bc_opt_receiver [of s i r x "\<lambda>x. Some (Receiver_RequestKeyframe x)" y] x(1) rp assms(1-5)
      by (auto simp: resume_track_def b_def [symmetric] y_def)
    then show ?thesis using x rp by (auto simp: resumed_at_def b_def y_def Receiver_RequestKeyframe_def)
  qed
qed

lemma resume_tracks_self:
  assumes "bcs_inv (sv_bcs s)" "\<forall>rr \<in> snd ` set recvs. fst rr < length (sv_bcs s)" "map_of ls n = Some f" "distinct (map fst ls)"
    and "\<And>m j q. map_of recvs m = Some (j, q) \<Longrightarrow> m \<noteq> n \<Longrightarrow> j \<noteq> i"
    and "\<And>s'. sv_bcs s' ! i = sv_bcs s ! i \<Longrightarrow> sv_tracks s' = sv_tracks s \<Longrightarrow> length (sv_bcs s') = length (sv_bcs s) \<Longrightarrow>
      \<exists>s''. resume_track recvs (n, f) s' = Some s'' \<and> P (sv_bcs s'' ! i)"
  shows "\<exists>s'. resume_tracks recvs ls s = Some s' \<and> P (sv_bcs s' ! i)"
proof -
  obtain l1 l2 where ls: "ls = l1 @ (n, f) # l2" using map_of_SomeD [OF assms(3)] by (metis split_list)
  have other: "j \<noteq> i" if "p \<in> set l1 \<union> set l2" "map_of recvs (fst p) = Some (j, q)" for p j q
  proof -
    have "fst p \<noteq> n" using that(1) assms(4) ls by force
    then show ?thesis using assms(5) that(2) by blast
  qed
  obtain s1 where s1: "resume_tracks recvs l1 s = Some s1" using resume_tracks_bcs [OF assms(1,2)] by blast
  have eq: "sv_bcs s1 ! i = sv_bcs s ! i \<and> sv_tracks s1 = sv_tracks s \<and> length (sv_bcs s1) = length (sv_bcs s)"
    by (rule resume_tracks_other [OF s1]) (use other in blast)
  then obtain s2 where s2: "resume_track recvs (n, f) s1 = Some s2" "P (sv_bcs s2 ! i)" using assms(6) by blast
  obtain s3 where all: "resume_tracks recvs ls s = Some s3" using resume_tracks_bcs [OF assms(1,2)] by blast
  then have s3: "resume_tracks recvs l2 s2 = Some s3" using s1 s2(1) by (simp add: ls resume_tracks_append)
  have "sv_bcs s3 ! i = sv_bcs s2 ! i" using resume_tracks_other [OF s3, of i] other by blast
  then show ?thesis using all s2(2) by auto
qed

lemma OnResume_parked:
  assumes "srv_inv s" "fst (Resume now ten sid (sv_store s)) = Some parked" "map_of parked n = Some rr"
  shows "\<exists>st. OnResume now ten sid ls s = (case resume_tracks parked ls (set_store st s) of
      None \<Rightarrow> None | Some s2 \<Rightarrow> Some (Some parked, s2)) \<and>
    calm_at rr s (set_store st s) \<and> sv_tracks (set_store st s) = sv_tracks s \<and> bcs_inv (sv_bcs (set_store st s)) \<and>
    (\<forall>rr \<in> snd ` set parked. fst rr < length (sv_bcs (set_store st s)))"
proof -
  obtain st where r: "Resume now ten sid (sv_store s) = (Some parked, st)" using assms(2) by (metis prod.collapse)
  have "distinct (map fst (byID (sv_store s)))" using srv_inv_keys [OF assms(1)] by (simp add: keys_ok_def)
  from Resume_drops [OF this r] obtain ev p where ev: "st_evicted st = st_evicted (sv_store s) @ ev" "ps_receivers p = parked"
    "mset ev + {#p#} + stored st \<subseteq># stored (sv_store s)"
    by (auto split: option.splits)
  have "parked_refs (mset ev) + mset (map snd parked) \<subseteq># parked_refs (mset ev + {#p#} + stored st)" by (simp add: ev(2))
  also have "\<dots> \<subseteq># parked_refs (stored (sv_store s))" by (rule parked_refs_mono [OF ev(3)])
  also have "\<dots> \<subseteq># srv_refs s" by (simp add: srv_refs_def)
  finally have owned: "mset (map snd parked) + parked_refs (mset ev) \<subseteq># srv_refs s" by (simp add: add.commute)
  have rrin: "rr \<in># mset (map snd parked)" using map_of_SomeD [OF assms(3)] by force
  have out: "rr \<notin># parked_refs (mset ev)" using srv_inv_refs [OF assms(1)] owned rrin by (rule disjoint_owner)
  note f = set_store_frame [OF ev(1)]
  have len: "length (sv_bcs (set_store st s)) = length (sv_bcs s)" using f(1) by (simp add: bcs_evolve_def)
  have "fst q < length (sv_bcs (set_store st s))" if "q \<in> snd ` set parked" for q
  proof -
    have "q \<in># srv_refs s" using that by (intro mset_subset_eqD [OF owned]) simp
    then show ?thesis using srv_inv_refs [OF assms(1)] len by (auto simp: refs_ok_def)
  qed
  then show ?thesis
    using r calm_set_store [OF ev(1) out] f(2) bcs_evolve_inv [OF f(1) srv_inv_bcs [OF assms(1)]]
    by (intro exI [of _ st]) (simp add: OnResume_def)
qed

lemma ReplaySince_calm: "calm r b b' \<Longrightarrow> ReplaySince k b' = ReplaySince k b"
proof -
  assume c: "calm r b b'"
  then have "length (replayBuf b') = length (replayBuf b)" by (metis calm_def length_replaySnapshotLocked)
  then show ?thesis using c by (simp add: ReplaySince_def calm_def)
qed

lemma registry_bc_inj:
  assumes "srv_inv s" "map_of (sv_tracks s) m = Some v" "map_of (sv_tracks s) n = Some w" "te_bc v = te_bc w"
  shows "m = n"
  using srv_inv_distinct(2) [OF assms(1)] map_of_SomeD [OF assms(2)] map_of_SomeD [OF assms(3)] assms(4)
    inj_onD [of "te_bc \<circ> snd" "set (sv_tracks s)" "(m, v)" "(n, w)"] by (simp add: distinct_map)

text \<open>A server with one session on the primary track, after one keyframe.\<close>

definition ex_hello :: Hello where
  "ex_hello = \<lparr>h_Role = [], h_Slug = ''k'', h_Version = ''1'', h_MinVersion = [], h_MaxVersion = [],
    h_SessionID = [], h_Features = [], h_LastSeenSeq = []\<rparr>"

definition ex_published :: "unit Server" where
  "ex_published = the (Publisher_Publish 0 (ex_au 1 True) (NewServer (\<lambda>_. Inr []) ServerConfig_zero ''k'' ''i'' 60 ()))"

definition ex_server :: "unit Server" where
  "ex_server = the (session_attach ''id'' 0 ex_hello 0 (snd (addSession (NewSession \<lparr>w_out = [], w_script = []\<rparr>) ex_published)))"

lemma ex_server_inv: "srv_inv ex_server"
proof -
  define s0 where "s0 = NewServer (\<lambda>_. Inr []) ServerConfig_zero ''k'' ''i'' 60 ()"
  have "0 < length (sv_bcs s0)" unfolding s0_def by code_simp
  then have "srv_inv ex_published"
    using srv_inv_Publish [OF srv_inv_New [of "\<lambda>_. Inr []" ServerConfig_zero "''k''" "''i''" 60 "()", folded s0_def], of 0 "ex_au 1 True"]
    by (auto simp: ex_published_def s0_def [symmetric])
  then have "srv_inv (snd (addSession (NewSession \<lparr>w_out = [], w_script = []\<rparr>) ex_published))" by (rule srv_inv_open)
  then show ?thesis using srv_inv_attach [of _ "''id''" 0 ex_hello 0] by (fastforce simp: ex_server_def)
qed

section \<open>Properties\<close>

text \<open>C5. Resuming is gap-free. A session of a server in a good state ends and is parked; any AUs are published
  to any tracks, at most 319 of them admitted to the track in question; the client reconnects within the resume
  window and reports that the last AU it saw of this track had sequence number \<open>f\<close>. If sequence numbers ascend,
  then resuming succeeds and the track's receiver is open. If the replay ring reaches back to \<open>f\<close>, the receiver's
  queue holds exactly the AUs with a greater sequence number that the track ever had, each once and in order, and
  besides them at most the keyframe that was cached when the session was parked. If the ring does not reach back,
  the queue holds what was published in between, and a video receiver waits for the next keyframe.\<close>

theorem resume_gap_free:
  fixes s s2 :: "'s Server"
  assumes "srv_inv s" "map_of (sv_sessions s) ref = Some x" "sn_SessionID x \<noteq> []" "\<not> sv_draining s"
    and "map_of (sv_tracks s) n = Some te" "b = sv_bcs s ! te_bc te" "ring_hist hist b" "selfContained b \<or> latestKeyframe b \<noteq> None"
    and "\<forall>k. latestKeyframe b = Some k \<longrightarrow> k \<in> set hist"
    and "\<forall>p \<in> set ps. fst p < length (sv_bcs s)"
    and "published (te_bc te) ps (session_end t1 t2 False ref s) = Some (away, s2)" "length away < 320"
    and "sorted_wrt (<) (map au_Seq (hist @ away))" "\<forall>a \<in> set away. f < au_Seq a" "f \<noteq> - 1"
    and "now \<le> t2 + resumeTTL (sv_store s)" "map_of lastSeen n = Some f" "distinct (map fst lastSeen)"
  shows "\<exists>recvs s3 r. OnResume now (sn_Tenant x) (sn_SessionID x) lastSeen s2 = Some (Some recvs, s3) \<and>
    map_of recvs n = Some (te_bc te, r) \<and>
    resumed_at r (te_kind te) f (snd (ReplaySince (f + 1) (sv_bcs s2 ! te_bc te))) (hist @ away)
      (case latestKeyframe b of None \<Rightarrow> [] | Some k \<Rightarrow> [k]) away (sv_bcs s3 ! te_bc te)"
proof -
  define i where "i = te_bc te"
  define seed where "seed = (case latestKeyframe b of None \<Rightarrow> [] | Some k \<Rightarrow> [k])"
  define s1 where "s1 = session_end t1 t2 False ref s"
  have inv1: "srv_inv s1" unfolding s1_def by (rule srv_inv_end [OF assms(1)])
  obtain parked r where park: "sv_store s1 = Park t1 t2 (sn_Tenant x) (sn_SessionID x) parked True (sv_store s)"
    "map_of parked n = Some (i, r)" "\<And>m j q. map_of parked m = Some (j, q) \<Longrightarrow> \<exists>u. map_of (sv_tracks s) m = Some u \<and> te_bc u = j"
    "sv_tracks s1 = sv_tracks s" "i < length (sv_bcs s1)" "length (sv_bcs s1) = length (sv_bcs s)" "ring_hist hist (sv_bcs s1 ! i)" "parked_at r seed (sv_bcs s1 ! i)"
    using session_end_parks [OF assms(1-8) s1_def] unfolding i_def seed_def by metis
  have seed: "set seed \<subseteq> set hist" "length seed \<le> 1" using assms(9) by (auto simp: seed_def split: option.split)
  have keeps: "srv_inv s2 \<and> sv_tracks s2 = sv_tracks s1 \<and> sv_store s2 = sv_store s1 \<and> length (sv_bcs s2) = length (sv_bcs s1) \<and>
      parked_at r (seed @ away) (sv_bcs s2 ! i) \<and> ring_hist (hist @ away) (sv_bcs s2 ! i)"
    by (rule published_keeps [OF inv1 _ park(5) assms(11) [folded s1_def i_def] park(8,7)])
       (use assms(10,12) seed(2) park(6) in auto)
  then have inv2: "srv_inv s2" by blast
  have "fst (Resume now (sn_Tenant x) (sn_SessionID x) (sv_store s2)) = Some parked"
    using keeps park(1) Resume_Park [OF assms(16)] by simp
  from OnResume_parked [OF inv2 this park(2), of lastSeen] obtain st where
    st: "OnResume now (sn_Tenant x) (sn_SessionID x) lastSeen s2 = (case resume_tracks parked lastSeen (set_store st s2) of
      None \<Rightarrow> None | Some s2 \<Rightarrow> Some (Some parked, s2))"
    "calm_at (i, r) s2 (set_store st s2)" "sv_tracks (set_store st s2) = sv_tracks s2" "bcs_inv (sv_bcs (set_store st s2))"
    "\<forall>rr \<in> snd ` set parked. fst rr < length (sv_bcs (set_store st s2))" by blast
  define u where "u = set_store st s2"
  have i2: "i < length (sv_bcs s2)" using keeps park(5) by simp
  have u: "calm r (sv_bcs s2 ! i) (sv_bcs u ! i)" "length (sv_bcs u) = length (sv_bcs s2)" "sv_tracks u = sv_tracks s" "bcs_inv (sv_bcs u)"
    using st(2-4) i2 keeps park(4) by (simp_all add: u_def calm_at_def)
  have rep: "ReplaySince (f + 1) (sv_bcs u ! i) = ReplaySince (f + 1) (sv_bcs s2 ! i)"
    using u(1) by (rule ReplaySince_calm)
  have te: "te_kind te \<noteq> []" using tracks_okD(2) [OF srv_inv_tracks [OF assms(1)] map_of_SomeD [OF assms(5)]] .
  have "\<exists>s3. resume_tracks parked lastSeen u = Some s3 \<and>
      resumed_at r (te_kind te) f (snd (ReplaySince (f + 1) (sv_bcs s2 ! i))) (hist @ away) seed away (sv_bcs s3 ! i)"
  proof (rule resume_tracks_self [OF u(4) st(5) [folded u_def] assms(17,18), of i])
    fix m j q assume m: "map_of parked m = Some (j, q)" "m \<noteq> n"
    then obtain v where v: "map_of (sv_tracks s) m = Some v" "te_bc v = j" using park(3) by blast
    show "j \<noteq> i" using registry_bc_inj [OF assms(1) v(1) assms(5)] v(2) m(2) by (auto simp: i_def)
  next
    fix s' :: "'s Server"
    assume s': "sv_bcs s' ! i = sv_bcs u ! i" "sv_tracks s' = sv_tracks u" "length (sv_bcs s') = length (sv_bcs u)"
    have "parked_at r (seed @ away) (sv_bcs u ! i)" "ring_hist (hist @ away) (sv_bcs u ! i)" "b_inv (sv_bcs u ! i)"
      using calm_keeps [OF u(1)] keeps u(2,4) i2 by simp_all
    then show "\<exists>s''. resume_track parked (n, f) s' = Some s'' \<and>
        resumed_at r (te_kind te) f (snd (ReplaySince (f + 1) (sv_bcs s2 ! i))) (hist @ away) seed away (sv_bcs s'' ! i)"
      using resume_track_self [OF park(2), of s' te seed away hist f] assms(5,12-15) seed te s' u(2,3) i2 rep
      by (simp add: trackEntry_of_def i_def)
  qed
  then show ?thesis using st(1) park(2) by (auto simp: u_def i_def seed_def)
qed

theorem resume_gap_free_witness:
  "\<exists>s2 recvs s3 r. published 0 [(0, ex_au 2 False)] (session_end 0 0 False 0 ex_server) = Some ([ex_au 2 False], s2) \<and>
    OnResume 5 [] ''id'' [(''primary'', 1)] s2 = Some (Some recvs, s3) \<and> map_of recvs ''primary'' = Some (0, r) \<and>
    resumed_at r KindVideo 1 True [ex_au 1 True, ex_au 2 False] [ex_au 1 True] [ex_au 2 False] (sv_bcs s3 ! 0)"
proof -
  define te where "te = \<lparr>te_name = ''primary'', te_kind = KindVideo, te_priority = DefaultPriority KindVideo, te_trackID = 0, te_bc = 0\<rparr>"
  define x where "x = the (map_of (sv_sessions ex_server) 0)"
  have x: "map_of (sv_sessions ex_server) 0 \<noteq> None" "sn_SessionID x = ''id''" "sn_Tenant x = []" unfolding x_def by code_simp+
  have s: "\<not> sv_draining ex_server" "map_of (sv_tracks ex_server) ''primary'' = Some te" "resumeTTL (sv_store ex_server) = 60"
    "latestKeyframe (sv_bcs ex_server ! 0) = Some (ex_au 1 True)" "length (sv_bcs ex_server) = 1"
    "replayCap (sv_bcs ex_server ! 0) = DefaultReplayCap" "replaySnapshotLocked (sv_bcs ex_server ! 0) = [ex_au 1 True]"
    unfolding te_def by code_simp+
  have "(case published 0 [(0, ex_au 2 False)] (session_end 0 0 False 0 ex_server) of None \<Rightarrow> False | Some (away, s) \<Rightarrow>
    away = [ex_au 2 False] \<and> snd (ReplaySince 2 (sv_bcs s ! 0)))" by code_simp
  then obtain s2 where s2: "published 0 [(0, ex_au 2 False)] (session_end 0 0 False 0 ex_server) = Some ([ex_au 2 False], s2)"
    "snd (ReplaySince 2 (sv_bcs s2 ! 0))" by (auto split: option.splits)
  have te: "te_bc te = 0" "te_kind te = KindVideo" by (simp_all add: te_def)
  have seqs: "sorted_wrt (<) (map au_Seq ([ex_au 1 True] @ [ex_au 2 False]))" "\<forall>a \<in> set [ex_au 2 False]. 1 < au_Seq a" by code_simp+
  show ?thesis
    using resume_gap_free [of ex_server 0 x "''primary''" te "sv_bcs ex_server ! 0" "[ex_au 1 True]" "[(0, ex_au 2 False)]" 0 0
        "[ex_au 2 False]" s2 1 5 "[(''primary'', 1)]"] ex_server_inv s x s2 te seqs
    by (auto simp: ring_hist_def x_def)
qed

end
