(* ===== verification/Recorder.thy ===== *)
theory Recorder
  imports Track Wire_Frame "HOL-Library.Sublist"
begin

text \<open>
  Package \<^verbatim>\<open>record\<close>, the writing half: the on-disk frame format (\<^verbatim>\<open>record/format.go\<close>) and the
  asynchronous file recorder (\<^verbatim>\<open>record/file.go\<close>) with the \<^verbatim>\<open>bufio.Writer\<close> it writes through. The
  recorder is a system of three parties: publishers that call \<open>Write\<close>, the writer goroutine \<open>run\<close> and a
  caller of \<open>Close\<close>; an operation is what one of them does between two points where others may run.
\<close>

section \<open>File format\<close>

definition FileMagic :: string where "FileMagic = ''QRTCREC'' @ [char_of (0 :: nat)]"
definition FormatVersion :: "32 word" where "FormatVersion = 1"
definition flagKeyframe :: byte where "flagKeyframe = 1"
definition flagDiscontinuity :: byte where "flagDiscontinuity = 2"
definition eofMarker :: bytes where "eofMarker = [0xFF, 0xFF, 0xFF, 0xFF]"
definition maxFrameLen :: nat where "maxFrameLen = 64 * 2 ^ 20"

text \<open>\<open>fr_CapturedAtMicros\<close> is an \<^verbatim>\<open>int64\<close>, kept as its 64 bits and compared with \<^term>\<open>sint\<close>.\<close>

record frame =
  fr_TrackName :: string
  fr_Kind :: string
  fr_PTSMicros :: "64 word"
  fr_Seq :: "32 word"
  fr_Keyframe :: bool
  fr_Discontinuity :: bool
  fr_CapturedAtMicros :: "64 word"
  fr_Payload :: bytes

definition appendU16 :: "bytes \<Rightarrow> 16 word \<Rightarrow> bytes" where "appendU16 b v = b @ put_be 2 v"
definition appendU32 :: "bytes \<Rightarrow> 32 word \<Rightarrow> bytes" where "appendU32 b v = b @ put_be 4 v"
definition appendU64 :: "bytes \<Rightarrow> 64 word \<Rightarrow> bytes" where "appendU64 b v = b @ put_be 8 v"

text \<open>The twelve bytes that \<open>writeHeader\<close> passes to its writer.\<close>

definition header_bytes :: bytes where
  "header_bytes = bytes_of_string FileMagic @ put_be 4 FormatVersion"

text \<open>\<^verbatim>\<open>readHeader\<close> returns the rest of the source.\<close>

definition readHeader :: "bytes \<Rightarrow> go_error + bytes" where
  "readHeader r =
     bindE (read_full 12 r) (\<lambda>(hdr, r1).
       if string_of_bytes (take 8 hdr) \<noteq> FileMagic then Inl ErrCorruptHeader
       else let v = (get_be (take 4 (drop 8 hdr)) :: 32 word) in
         if v \<noteq> FormatVersion then Inl ErrCorruptHeader else Inr r1)"

definition encodeFrame :: "frame \<Rightarrow> go_error + bytes" where
  "encodeFrame f =
     (if length (fr_TrackName f) > 0xFFFF then Inl ErrTrackNameTooLong
      else if length (fr_Kind f) > 0xFF then Inl ErrKindTooLong
      else
        let body = appendU16 [] (of_nat (length (fr_TrackName f)));
            body = body @ bytes_of_string (fr_TrackName f);
            body = body @ [of_nat (length (fr_Kind f))];
            body = body @ bytes_of_string (fr_Kind f);
            body = appendU64 body (fr_PTSMicros f);
            body = appendU32 body (fr_Seq f);
            flags = 0;
            flags = (if fr_Keyframe f then flags OR flagKeyframe else flags);
            flags = (if fr_Discontinuity f then flags OR flagDiscontinuity else flags);
            body = body @ [flags];
            body = appendU64 body (fr_CapturedAtMicros f);
            body = appendU32 body (of_nat (length (fr_Payload f)));
            body = body @ fr_Payload f in
        Inr (put_be 4 (of_nat (length body) :: 32 word) @ body))"

text \<open>\<open>decodeFrame\<close> after the body was read.\<close>

definition decodeBody :: "bytes \<Rightarrow> go_error + frame" where
  "decodeBody body =
     (let off = 0 in
      if length body < off + 2 then Inl ErrCorruptHeader
      else let trackLen = unat (get_be (take 2 (drop off body)) :: 16 word); off = off + 2 in
      if length body < off + trackLen then Inl ErrCorruptHeader
      else let trackName = string_of_bytes (take trackLen (drop off body)); off = off + trackLen in
      if length body < off + 1 then Inl ErrCorruptHeader
      else let kindLen = unat (body ! off); off = off + 1 in
      if length body < off + kindLen then Inl ErrCorruptHeader
      else let kind = string_of_bytes (take kindLen (drop off body)); off = off + kindLen in
      if length body < off + 8 + 4 + 1 + 8 + 4 then Inl ErrCorruptHeader
      else let pts = get_be (take 8 (drop off body)); off = off + 8;
               seq = get_be (take 4 (drop off body)); off = off + 4;
               flags = body ! off; off = off + 1;
               capturedAt = get_be (take 8 (drop off body)); off = off + 8;
               payloadLen = unat (get_be (take 4 (drop off body)) :: 32 word); off = off + 4 in
      if length body < off + payloadLen then Inl ErrCorruptHeader
      else Inr \<lparr>fr_TrackName = trackName, fr_Kind = kind, fr_PTSMicros = pts, fr_Seq = seq,
                fr_Keyframe = (flags AND flagKeyframe \<noteq> 0), fr_Discontinuity = (flags AND flagDiscontinuity \<noteq> 0),
                fr_CapturedAtMicros = capturedAt, fr_Payload = take payloadLen (drop off body)\<rparr>)"

text \<open>\<open>decodeFrame\<close> returns its result and where it leaves the reader, also after an error.\<close>

definition decodeFrame :: "bytes \<Rightarrow> (go_error + frame) \<times> bytes" where
  "decodeFrame r =
     (case read_full 4 r of
        Inl e \<Rightarrow> (Inl e, [])
      | Inr (lenBuf, r1) \<Rightarrow>
          if lenBuf = [0xFF, 0xFF, 0xFF, 0xFF] then (Inl EOF, r1)
          else let totalLen = unat (get_be lenBuf :: 32 word) in
            if totalLen > maxFrameLen then (Inl ErrCorruptHeader, r1)
            else case read_full totalLen r1 of
                Inl e \<Rightarrow> (Inl e, [])
              | Inr (body, r2) \<Rightarrow> (decodeBody body, r2))"

section \<open>The buffered writer\<close>

text \<open>\<^verbatim>\<open>bufio.Writer\<close> over a file: the buffered bytes and the sticky error.\<close>

record bufw =
  bw_w :: writer
  bw_buf :: bytes
  bw_err :: "go_error option"

definition defaultBufSize :: nat where "defaultBufSize = 4096"

definition bufio_NewWriter :: "writer \<Rightarrow> bufw" where
  "bufio_NewWriter w = \<lparr>bw_w = w, bw_buf = [], bw_err = None\<rparr>"

text \<open>A failed write keeps the bytes that did not reach the file.\<close>

definition bufio_Flush :: "bufw \<Rightarrow> go_error option \<times> bufw" where
  "bufio_Flush b =
     (if bw_err b \<noteq> None then (bw_err b, b)
      else if bw_buf b = [] then (None, b)
      else case io_write (bw_w b) (bw_buf b) of
          (None, w) \<Rightarrow> (None, b\<lparr>bw_w := w, bw_buf := []\<rparr>)
        | (Some e, w) \<Rightarrow>
            (Some e, b\<lparr>bw_w := w, bw_buf := drop (length (w_out w) - length (w_out (bw_w b))) (bw_buf b), bw_err := Some e\<rparr>))"

function bufio_Write :: "bufw \<Rightarrow> bytes \<Rightarrow> go_error option \<times> bufw" where
  "bufio_Write b p =
     (let avail = defaultBufSize - length (bw_buf b) in
      if length p > avail \<and> bw_err b = None then
        if bw_buf b = [] then
          case io_write (bw_w b) p of (e, w) \<Rightarrow> (e, b\<lparr>bw_w := w, bw_err := e\<rparr>)
        else
          bufio_Write (snd (bufio_Flush (b\<lparr>bw_buf := bw_buf b @ take avail p\<rparr>))) (drop avail p)
      else case bw_err b of
          Some e \<Rightarrow> (Some e, b)
        | None \<Rightarrow> (None, b\<lparr>bw_buf := bw_buf b @ p\<rparr>))"
  by pat_completeness auto
termination
  by (relation "measure (\<lambda>(b, _). if bw_err b \<noteq> None then 0 else if bw_buf b = [] then 1 else 2)")
     (auto simp: bufio_Flush_def split: option.splits prod.splits)

declare bufio_Write.simps [simp del]

section \<open>The file recorder\<close>

definition DefaultChannelDepth :: int where "DefaultChannelDepth = 1024"

record recordedAU =
  ra_track :: string
  ra_kind :: string
  ra_au :: AccessUnit
  ra_bytes :: bytes

text \<open>\<open>rec_wg\<close> counts the writer goroutine until it returns; \<open>rec_closing\<close> holds while a call of \<open>Close\<close> is
  between closing the channel and returning. The file is the writer below \<open>rec_buf\<close>.\<close>

record fileRecorder =
  rec_ch :: "recordedAU chan"
  rec_buf :: bufw
  rec_wg :: nat
  rec_dropped :: "64 word"
  rec_closed :: bool
  rec_closeErr :: "go_error option"
  rec_closing :: bool

definition writeHeader :: "bufw \<Rightarrow> go_error option \<times> bufw" where
  "writeHeader b = bufio_Write b header_bytes"

definition writeEOF :: "bufw \<Rightarrow> go_error option \<times> bufw" where
  "writeEOF b = bufio_Write b eofMarker"

text \<open>The outcome of \<^verbatim>\<open>os.OpenFile\<close> is an argument: an error, or the truncated file.\<close>

definition NewFileRecorderDepth :: "go_error + writer \<Rightarrow> int \<Rightarrow> go_error + fileRecorder" where
  "NewFileRecorderDepth file depth =
     (let depth = (if depth \<le> 0 then DefaultChannelDepth else depth) in
      bindE file (\<lambda>f.
        let buf = bufio_NewWriter f in
        case writeHeader buf of
          (Some e, _) \<Rightarrow> Inl e
        | (None, buf) \<Rightarrow>
            Inr \<lparr>rec_ch = make_chan (nat depth), rec_buf = buf, rec_wg = 1, rec_dropped = 0,
                 rec_closed = False, rec_closeErr = None, rec_closing = False\<rparr>))"

definition NewFileRecorder :: "go_error + writer \<Rightarrow> go_error + fileRecorder" where
  "NewFileRecorder file = NewFileRecorderDepth file DefaultChannelDepth"

text \<open>\<open>None\<close> is the panic of a send on a closed channel.\<close>

definition Recorder_Write :: "string \<Rightarrow> string \<Rightarrow> AccessUnit \<Rightarrow> fileRecorder \<Rightarrow> fileRecorder option" where
  "Recorder_Write trackName kind au r =
     (let rec = \<lparr>ra_track = trackName, ra_kind = kind, ra_au = au, ra_bytes = au_Bytes au\<rparr> in
      if rec_closed r then Some (r\<lparr>rec_dropped := rec_dropped r + 1\<rparr>)
      else case chan_send rec (rec_ch r) of
          Sent c \<Rightarrow> Some (r\<lparr>rec_ch := c\<rparr>)
        | Full \<Rightarrow> Some (r\<lparr>rec_dropped := rec_dropped r + 1\<rparr>)
        | SendPanic \<Rightarrow> None)"

definition recorded_frame :: "recordedAU \<Rightarrow> 64 word \<Rightarrow> frame" where
  "recorded_frame rec now =
     \<lparr>fr_TrackName = ra_track rec, fr_Kind = ra_kind rec, fr_PTSMicros = au_PTSMicro (ra_au rec),
      fr_Seq = au_Seq (ra_au rec), fr_Keyframe = au_Keyframe (ra_au rec),
      fr_Discontinuity = au_Discontinuity (ra_au rec), fr_CapturedAtMicros = now, fr_Payload = ra_bytes rec\<rparr>"

text \<open>One round of the loop of \<open>run\<close>, with the time it reads. On an empty open channel it waits.\<close>

definition run_record :: "64 word \<Rightarrow> fileRecorder \<Rightarrow> fileRecorder" where
  "run_record now r =
     (if rec_wg r = 0 then r
      else case chan_recv (rec_ch r) of
          None \<Rightarrow> if c_closed (rec_ch r) then r\<lparr>rec_wg := rec_wg r - 1\<rparr> else r
        | Some (rec, c) \<Rightarrow>
            (case encodeFrame (recorded_frame rec now) of
               Inl e \<Rightarrow> r\<lparr>rec_ch := c\<rparr>
             | Inr buf \<Rightarrow> r\<lparr>rec_ch := c, rec_buf := snd (bufio_Write (rec_buf r) buf)\<rparr>))"

text \<open>\<open>Close\<close> up to \<^verbatim>\<open>wg.Wait\<close>, and after it: it waits while the writer goroutine runs. The outcome of
  closing the file is an argument.\<close>

definition Recorder_Close :: "fileRecorder \<Rightarrow> fileRecorder" where
  "Recorder_Close r =
     (if rec_closed r then r
      else r\<lparr>rec_closed := True, rec_ch := (rec_ch r)\<lparr>c_closed := True\<rparr>, rec_closing := True\<rparr>)"

definition Recorder_Close_finish :: "go_error option \<Rightarrow> fileRecorder \<Rightarrow> fileRecorder" where
  "Recorder_Close_finish fclose r =
     (if \<not> rec_closing r \<or> rec_wg r \<noteq> 0 then r
      else
        let (e, b) = writeEOF (rec_buf r);
            closeErr = (case e of Some _ \<Rightarrow> e | None \<Rightarrow> rec_closeErr r);
            (e, b) = bufio_Flush b;
            closeErr = (if e \<noteq> None \<and> closeErr = None then e else closeErr);
            closeErr = (if fclose \<noteq> None \<and> closeErr = None then fclose else closeErr) in
        r\<lparr>rec_buf := b, rec_closeErr := closeErr, rec_closing := False\<rparr>)"

text \<open>The steps of the system.\<close>

datatype rec_op =
    RecWrite string string AccessUnit
  | RecRun "64 word"
  | RecClose
  | RecFinish "go_error option"

fun rec_exec :: "rec_op \<Rightarrow> fileRecorder \<Rightarrow> fileRecorder option" where
  "rec_exec (RecWrite trackName kind au) r = Recorder_Write trackName kind au r"
| "rec_exec (RecRun now) r = Some (run_record now r)"
| "rec_exec RecClose r = Some (Recorder_Close r)"
| "rec_exec (RecFinish e) r = Some (Recorder_Close_finish e r)"

section \<open>The format reads back what it wrote\<close>

definition frame_body :: "frame \<Rightarrow> bytes" where
  "frame_body f =
     put_be 2 (of_nat (length (fr_TrackName f)) :: 16 word) @ bytes_of_string (fr_TrackName f) @
     [of_nat (length (fr_Kind f))] @ bytes_of_string (fr_Kind f) @ put_be 8 (fr_PTSMicros f) @ put_be 4 (fr_Seq f) @
     [(if fr_Keyframe f then 1 else 0) OR (if fr_Discontinuity f then 2 else 0)] @ put_be 8 (fr_CapturedAtMicros f) @
     put_be 4 (of_nat (length (fr_Payload f)) :: 32 word) @ fr_Payload f"

definition frame_bytes :: "frame \<Rightarrow> bytes" where
  "frame_bytes f = put_be 4 (of_nat (length (frame_body f)) :: 32 word) @ frame_body f"

definition encodable :: "frame \<Rightarrow> bool" where
  "encodable f \<longleftrightarrow> length (fr_TrackName f) \<le> 0xFFFF \<and> length (fr_Kind f) \<le> 0xFF"

definition frame_ok :: "frame \<Rightarrow> bool" where
  "frame_ok f \<longleftrightarrow> encodable f \<and> length (frame_body f) \<le> maxFrameLen"

lemma length_frame_body:
  "length (frame_body f) = 28 + length (fr_TrackName f) + length (fr_Kind f) + length (fr_Payload f)"
  by (simp add: frame_body_def)

lemma encodeFrame_eq:
  "encodeFrame f = (if length (fr_TrackName f) > 0xFFFF then Inl ErrTrackNameTooLong
     else if length (fr_Kind f) > 0xFF then Inl ErrKindTooLong else Inr (frame_bytes f))"
  by (simp add: encodeFrame_def frame_bytes_def frame_body_def appendU16_def appendU32_def appendU64_def Let_def
      flagKeyframe_def flagDiscontinuity_def add.assoc)

lemma encodeFrame_Inr: "encodeFrame f = Inr b \<longleftrightarrow> encodable f \<and> b = frame_bytes f"
  by (auto simp: encodeFrame_eq encodable_def)

lemma decodeBody_body:
  assumes "frame_ok f"
  shows "decodeBody (frame_body f) = Inr f"
proof -
  have l: "length (fr_TrackName f) < 2 ^ 16" "length (fr_Kind f) < 2 ^ 8" "length (fr_Payload f) < 2 ^ 32"
    using assms by (auto simp: frame_ok_def encodable_def length_frame_body maxFrameLen_def)
  have n: "unat (of_nat (length (fr_TrackName f)) :: 16 word) = length (fr_TrackName f)"
    "unat (of_nat (length (fr_Kind f)) :: 8 word) = length (fr_Kind f)"
    "unat (of_nat (length (fr_Payload f)) :: 32 word) = length (fr_Payload f)"
    using l by (simp_all add: unsigned_of_nat take_bit_nat_eq_self)
  show ?thesis
    unfolding decodeBody_def Let_def length_frame_body
    by (simp add: frame_body_def nth_append drop_Cons' get_put_be_word n flagKeyframe_def flagDiscontinuity_def)
qed

lemma length_frame_bytes: "length (frame_bytes f) = 4 + length (frame_body f)"
  by (simp add: frame_bytes_def)

lemma frame_length_field:
  assumes "n \<le> maxFrameLen"
  shows "unat (get_be (put_be 4 (of_nat n :: 32 word)) :: 32 word) = n" "put_be 4 (of_nat n :: 32 word) \<noteq> [0xFF, 0xFF, 0xFF, 0xFF]"
proof -
  have n: "n < 2 ^ 32" using assms by (simp add: maxFrameLen_def)
  show u: "unat (get_be (put_be 4 (of_nat n :: 32 word)) :: 32 word) = n"
    using n by (simp add: get_put_be_word unsigned_of_nat take_bit_nat_eq_self)
  have "unat (get_be [0xFF, 0xFF, 0xFF, 0xFF] :: 32 word) = 4294967295" by (simp add: get_be_def)
  then show "put_be 4 (of_nat n :: 32 word) \<noteq> [0xFF, 0xFF, 0xFF, 0xFF]" using u assms by (auto simp: maxFrameLen_def)
qed

lemma decodeFrame_frame:
  assumes "frame_ok f"
  shows "decodeFrame (frame_bytes f @ rest) = (Inr f, rest)"
proof -
  have l: "length (frame_body f) \<le> maxFrameLen" using assms by (simp add: frame_ok_def)
  show ?thesis using frame_length_field [OF l] l decodeBody_body [OF assms]
    by (simp add: decodeFrame_def frame_bytes_def Let_def)
qed

text \<open>The errors that end a recording rather than condemn it.\<close>

abbreviation eof_error :: "go_error \<Rightarrow> bool" where
  "eof_error e \<equiv> e = EOF \<or> e = ErrUnexpectedEOF"

lemma decodeFrame_short: "length src < 4 \<Longrightarrow> \<exists>e. decodeFrame src = (Inl e, []) \<and> eof_error e"
  by (auto simp: decodeFrame_def read_full_short)

lemma decodeFrame_torn:
  assumes "frame_ok f" "k < length (frame_bytes f)"
  shows "\<exists>e. decodeFrame (take k (frame_bytes f)) = (Inl e, []) \<and> eof_error e"
proof (cases "k < 4")
  case False
  have l: "length (frame_body f) \<le> maxFrameLen" using assms by (simp add: frame_ok_def)
  have r: "take k (frame_bytes f) = put_be 4 (of_nat (length (frame_body f)) :: 32 word) @ take (k - 4) (frame_body f)"
    using False by (simp add: frame_bytes_def)
  have "length (take (k - 4) (frame_body f)) < length (frame_body f)" using False assms(2) by (simp add: length_frame_bytes)
  then show ?thesis unfolding r using frame_length_field [OF l] l by (simp add: decodeFrame_def Let_def read_full_short)
qed (simp add: decodeFrame_short)

lemma decodeFrame_eof: "\<exists>e r. decodeFrame (take k eofMarker) = (Inl e, r) \<and> eof_error e"
proof (cases "k < 4")
  case True
  then have "length (take k eofMarker) < 4" by (simp add: eofMarker_def)
  then show ?thesis using decodeFrame_short by metis
next
  case False
  then have "take k eofMarker = [0xFF, 0xFF, 0xFF, 0xFF] @ []" by (simp add: eofMarker_def)
  then have "decodeFrame (take k eofMarker) = (Inl EOF, [])" unfolding decodeFrame_def by (simp add: read_full_def)
  then show ?thesis by blast
qed

lemma decodeFrame_Inr:
  assumes "decodeFrame src = (Inr f, rest)"
  shows "\<exists>body. src = put_be 4 (of_nat (length body) :: 32 word) @ body @ rest \<and> length body \<le> maxFrameLen \<and> decodeBody body = Inr f"
proof -
  obtain lb r1 where lb: "read_full 4 src = Inr (lb, r1)" using assms by (cases "read_full 4 src") (auto simp: decodeFrame_def)
  define n where "n = unat (get_be lb :: 32 word)"
  obtain body where body: "n \<le> maxFrameLen" "read_full n r1 = Inr (body, rest)" "decodeBody body = Inr f"
    using assms lb by (auto simp: decodeFrame_def n_def Let_def split: if_splits sum.splits)
  have src: "src = lb @ r1" "length lb = 4" "r1 = body @ rest" "length body = n" using lb body by (auto simp: read_full_Inr_iff)
  then have "put_be 4 (of_nat (length body) :: 32 word) = lb" using put_get_be [of lb, where 'a = 32] by (simp add: n_def)
  then show ?thesis using src body by (intro exI [of _ body]) simp
qed

lemma decodeBody_bounds:
  "decodeBody body = Inr f \<Longrightarrow> 28 + length (fr_TrackName f) + length (fr_Kind f) + length (fr_Payload f) \<le> length body"
  by (auto simp: decodeBody_def Let_def split: if_splits)

lemma decodeFrame_consumes:
  "decodeFrame src = (Inr f, rest) \<Longrightarrow>
     length rest + 32 + length (fr_TrackName f) + length (fr_Kind f) + length (fr_Payload f) \<le> length src"
  using decodeFrame_Inr decodeBody_bounds by fastforce

lemma readHeader_header: "readHeader (header_bytes @ r) = Inr r"
proof -
  have "length header_bytes = 12" by (simp add: header_bytes_def FileMagic_def)
  then have "read_full 12 (header_bytes @ r) = Inr (header_bytes, r)" by simp
  moreover have "take 8 header_bytes = bytes_of_string FileMagic" "take 4 (drop 8 header_bytes) = put_be 4 FormatVersion"
    by (simp_all add: header_bytes_def FileMagic_def)
  ultimately show ?thesis by (simp add: readHeader_def get_put_be_word)
qed

text \<open>The format is a self-delimiting codec; the marker ends it as an end of file would.\<close>

interpretation rec_codec: frame_codec frame_bytes
  "\<lambda>src. case decodeFrame src of (Inl e, _) \<Rightarrow> Inl e | (Inr f, r) \<Rightarrow> Inr (f, r)" frame_ok
proof (unfold_locales, goal_cases)
  case (1 f rest)
  then show ?case by (simp add: decodeFrame_frame)
next
  case (2 src f rest)
  then show ?case using decodeFrame_consumes [of src f rest] by (fastforce split: prod.splits sum.splits)
next
  case 3
  then show ?case by (simp add: decodeFrame_def read_full_def)
qed

section \<open>What reaches the file\<close>

text \<open>\<open>bufw_at full b\<close>: the bytes given to the writer so far are \<open>full\<close>. After an error the file holds a beginning of them.\<close>

definition bufw_at :: "bytes \<Rightarrow> bufw \<Rightarrow> bool" where
  "bufw_at full b \<longleftrightarrow> (if bw_err b = None then w_out (bw_w b) @ bw_buf b = full else prefix (w_out (bw_w b)) full)"

lemma io_write_at:
  assumes "io_write w p = (e, w')"
  shows "prefix (w_out w') (w_out w @ p) \<and> (e = None \<longrightarrow> w_out w' = w_out w @ p)"
proof -
  obtain k where "w_out w' = w_out w @ take k p" "e = None \<longrightarrow> take k p = p" using io_write_prefix [OF assms] by blast
  then show ?thesis by (simp add: take_is_prefix)
qed

lemma bufio_Flush_at:
  assumes "bufw_at full b" "bufio_Flush b = (e, b')"
  shows "bufw_at full b' \<and> e = bw_err b' \<and> (e = None \<longrightarrow> bw_buf b' = []) \<and> (bw_err b \<noteq> None \<longrightarrow> b' = b)"
proof (cases "bw_err b \<noteq> None \<or> bw_buf b = []")
  case False
  obtain e1 w where w: "io_write (bw_w b) (bw_buf b) = (e1, w)" by fastforce
  then show ?thesis using False assms io_write_at [OF w] by (cases e1) (auto simp: bufio_Flush_def bufw_at_def)
qed (use assms in \<open>auto simp: bufio_Flush_def split: if_splits\<close>)

lemma bufio_Write_at:
  "bufw_at full b \<Longrightarrow> bufio_Write b p = (e, b') \<Longrightarrow>
     bufw_at (full @ p) b' \<and> e = bw_err b' \<and> (bw_err b \<noteq> None \<longrightarrow> b' = b)"
proof (induction b p arbitrary: full rule: bufio_Write.induct)
  case (1 b p)
  define avail where "avail = defaultBufSize - length (bw_buf b)"
  consider (err) "bw_err b \<noteq> None" | (fits) "bw_err b = None" "length p \<le> avail"
    | (direct) "bw_err b = None" "length p > avail" "bw_buf b = []" | (fill) "bw_err b = None" "length p > avail" "bw_buf b \<noteq> []"
    by force
  then show ?case
  proof cases
    case direct
    obtain e1 w where w: "io_write (bw_w b) p = (e1, w)" by fastforce
    then have "bufio_Write b p = (e1, b\<lparr>bw_w := w, bw_err := e1\<rparr>)"
      using direct by (simp add: bufio_Write.simps [of b p] avail_def)
    then show ?thesis using direct "1.prems" io_write_at [OF w] by (auto simp: bufw_at_def)
  next
    case fill
    define b1 where "b1 = b\<lparr>bw_buf := bw_buf b @ take avail p\<rparr>"
    obtain e2 b2 where b2: "bufio_Flush b1 = (e2, b2)" by fastforce
    have "bufw_at (full @ take avail p) b1" using "1.prems"(1) fill(1) by (auto simp: bufw_at_def b1_def)
    from bufio_Flush_at [OF this b2] have at: "bufw_at (full @ take avail p) b2" by blast
    have wr: "bufio_Write b2 (drop avail p) = (e, b')"
      using "1.prems"(2) fill b2 by (simp add: bufio_Write.simps [of b p] avail_def [symmetric] b1_def)
    show ?thesis using "1.IH" [OF avail_def _ fill(3), folded b1_def, unfolded b2 snd_conv, OF _ at wr] fill by simp
  qed (use "1.prems" in \<open>auto simp: bufio_Write.simps [of b p] avail_def bufw_at_def Let_def intro: prefix_prefix\<close>)
qed

lemma bufio_Write_fits:
  "bw_err b = None \<Longrightarrow> length (bw_buf b) + length p \<le> defaultBufSize \<Longrightarrow> bufio_Write b p = (None, b\<lparr>bw_buf := bw_buf b @ p\<rparr>)"
proof -
  assume a: "bw_err b = None" "length (bw_buf b) + length p \<le> defaultBufSize"
  then have "\<not> defaultBufSize - length (bw_buf b) < length p" by linarith
  then show ?thesis using a(1) by (subst bufio_Write.simps) simp
qed

lemma bufio_NewWriter_at: "w_out w = [] \<Longrightarrow> bufw_at [] (bufio_NewWriter w)"
  by (simp add: bufw_at_def bufio_NewWriter_def)

lemma bufw_at_prefix: "bufw_at full b \<Longrightarrow> prefix (w_out (bw_w b)) full"
  by (auto simp: bufw_at_def split: if_splits)

section \<open>What is recorded\<close>

text \<open>The AUs a step accepts, the AUs it takes from the queue with their capture time, and the AUs it refuses.\<close>

fun accepts :: "rec_op \<Rightarrow> fileRecorder \<Rightarrow> recordedAU list" where
  "accepts (RecWrite trackName kind au) r =
     (if \<not> rec_closed r \<and> length (c_buf (rec_ch r)) < c_cap (rec_ch r)
      then [\<lparr>ra_track = trackName, ra_kind = kind, ra_au = au, ra_bytes = au_Bytes au\<rparr>] else [])"
| "accepts _ r = []"

fun takes :: "rec_op \<Rightarrow> fileRecorder \<Rightarrow> (recordedAU \<times> 64 word) list" where
  "takes (RecRun now) r = (if rec_wg r = 0 then [] else map (\<lambda>x. (x, now)) (take 1 (c_buf (rec_ch r))))"
| "takes _ r = []"

fun refuses :: "rec_op \<Rightarrow> fileRecorder \<Rightarrow> nat" where
  "refuses (RecWrite trackName kind au) r = 1 - length (accepts (RecWrite trackName kind au) r)"
| "refuses _ r = 0"

fun rec_trace :: "rec_op list \<Rightarrow> fileRecorder \<Rightarrow> (recordedAU list \<times> (recordedAU \<times> 64 word) list \<times> nat \<times> fileRecorder) option" where
  "rec_trace [] r = Some ([], [], 0, r)"
| "rec_trace (op # ops) r =
     (case rec_exec op r of
        None \<Rightarrow> None
      | Some r1 \<Rightarrow>
          (case rec_trace ops r1 of
             None \<Rightarrow> None
           | Some (acc, taken, n, r2) \<Rightarrow> Some (accepts op r @ acc, takes op r @ taken, refuses op r + n, r2)))"

definition recorded :: "(recordedAU \<times> 64 word) list \<Rightarrow> frame list" where
  "recorded taken = filter encodable (map (\<lambda>(rec, now). recorded_frame rec now) taken)"

definition recording :: "(recordedAU \<times> 64 word) list \<Rightarrow> bytes" where
  "recording taken = header_bytes @ concat (map frame_bytes (recorded taken))"

abbreviation rec_file :: "fileRecorder \<Rightarrow> bytes" where
  "rec_file r \<equiv> w_out (bw_w (rec_buf r))"

text \<open>\<open>rec_at acc taken n r\<close>: \<open>r\<close> has accepted \<open>acc\<close>, taken \<open>taken\<close> and refused \<open>n\<close> AUs.\<close>

definition rec_at :: "recordedAU list \<Rightarrow> (recordedAU \<times> 64 word) list \<Rightarrow> nat \<Rightarrow> fileRecorder \<Rightarrow> bool" where
  "rec_at acc taken n r \<longleftrightarrow>
     acc = map fst taken @ c_buf (rec_ch r) \<and> rec_dropped r = of_nat n \<and> (c_closed (rec_ch r) \<longleftrightarrow> rec_closed r) \<and>
     (rec_closing r \<longrightarrow> rec_closed r) \<and> (rec_wg r = 0 \<longrightarrow> rec_closed r \<and> c_buf (rec_ch r) = []) \<and>
     (if rec_closed r \<and> \<not> rec_closing r
      then rec_wg r = 0 \<and> prefix (rec_file r) (recording taken @ eofMarker) \<and>
        (rec_closeErr r = None \<longrightarrow> rec_file r = recording taken @ eofMarker)
      else rec_closeErr r = None \<and> bufw_at (recording taken) (rec_buf r))"

lemma recording_snoc:
  "recording (taken @ [(x, now)]) = recording taken @ (if encodable (recorded_frame x now) then frame_bytes (recorded_frame x now) else [])"
  by (simp add: recording_def recorded_def)

lemma rec_at_New:
  assumes "NewFileRecorderDepth (Inr w) depth = Inr r" "w_out w = []"
  shows "rec_at [] [] 0 r \<and> c_cap (rec_ch r) = nat (if depth \<le> 0 then DefaultChannelDepth else depth)"
proof -
  obtain e b where b: "writeHeader (bufio_NewWriter w) = (e, b)" by fastforce
  have "bufw_at header_bytes b"
    using bufio_Write_at [OF bufio_NewWriter_at [OF assms(2)] b [unfolded writeHeader_def]] by simp
  then show ?thesis using assms(1) b
    by (auto simp: NewFileRecorderDepth_def Let_def rec_at_def recording_def recorded_def split: option.splits)
qed

lemma rec_at_Write:
  assumes "rec_at acc taken n r"
  shows "\<exists>r'. Recorder_Write t k au r = Some r' \<and> rec_at (acc @ accepts (RecWrite t k au) r) taken (n + refuses (RecWrite t k au) r) r'"
  using assms by (auto simp: Recorder_Write_def rec_at_def chan_send_def Let_def)

lemma rec_at_run:
  assumes "rec_at acc taken n r"
  shows "rec_at acc (taken @ takes (RecRun now) r) n (run_record now r)"
proof (cases "rec_wg r = 0 \<or> c_buf (rec_ch r) = []")
  case True
  then show ?thesis using assms by (auto simp: run_record_def rec_at_def chan_recv_def)
next
  case False
  then obtain x xs where buf: "c_buf (rec_ch r) = x # xs" by (cases "c_buf (rec_ch r)") auto
  have run: "\<not> (rec_closed r \<and> \<not> rec_closing r)" "bufw_at (recording taken) (rec_buf r)"
    using assms False by (auto simp: rec_at_def split: if_splits)
  define f where "f = recorded_frame x now"
  obtain e b where b: "bufio_Write (rec_buf r) (frame_bytes f) = (e, b)" by fastforce
  have "bufw_at (recording taken @ frame_bytes f) b" using bufio_Write_at [OF run(2) b] by blast
  then show ?thesis using assms False buf run b
    by (cases "encodable f")
       (auto simp: run_record_def chan_recv_def rec_at_def recording_snoc f_def encodeFrame_eq encodable_def split: if_splits)
qed

lemma rec_at_Close: "rec_at acc taken n r \<Longrightarrow> rec_at acc taken n (Recorder_Close r)"
  by (auto simp: Recorder_Close_def rec_at_def)

lemma rec_at_finish:
  assumes "rec_at acc taken n r"
  shows "rec_at acc taken n (Recorder_Close_finish fc r)"
proof (cases "rec_closing r \<and> rec_wg r = 0")
  case True
  obtain e1 b1 where b1: "writeEOF (rec_buf r) = (e1, b1)" by fastforce
  obtain e2 b2 where b2: "bufio_Flush b1 = (e2, b2)" by fastforce
  have at: "bufw_at (recording taken) (rec_buf r)" "rec_closeErr r = None" using assms True by (simp_all add: rec_at_def)
  note w = bufio_Write_at [OF at(1) b1 [unfolded writeEOF_def]]
  note fl = bufio_Flush_at [OF conjunct1 [OF w] b2]
  have "e2 = None \<Longrightarrow> w_out (bw_w b2) = recording taken @ eofMarker" using fl by (auto simp: bufw_at_def)
  then show ?thesis using assms True b1 b2 fl w bufw_at_prefix [OF conjunct1 [OF fl]] at(2)
    by (auto simp: Recorder_Close_finish_def rec_at_def split: option.splits)
next
  case False
  then have "Recorder_Close_finish fc r = r" by (auto simp: Recorder_Close_finish_def)
  then show ?thesis using assms by simp
qed

lemma rec_at_exec:
  assumes "rec_at acc taken n r"
  shows "\<exists>r'. rec_exec op r = Some r' \<and> rec_at (acc @ accepts op r) (taken @ takes op r) (n + refuses op r) r'"
proof (cases op)
  case (RecWrite t k au)
  then show ?thesis using rec_at_Write [OF assms] by (simp del: accepts.simps refuses.simps)
qed (use rec_at_run [OF assms] rec_at_Close [OF assms] rec_at_finish [OF assms] in \<open>simp_all del: takes.simps(1)\<close>)

lemma rec_trace_at:
  assumes "rec_at acc0 taken0 n0 r0"
  shows "\<exists>acc taken n r. rec_trace ops r0 = Some (acc, taken, n, r) \<and> rec_at (acc0 @ acc) (taken0 @ taken) (n0 + n) r"
  using assms
proof (induction ops arbitrary: acc0 taken0 n0 r0)
  case (Cons op ops)
  obtain r1 where r1: "rec_exec op r0 = Some r1"
    "rec_at (acc0 @ accepts op r0) (taken0 @ takes op r0) (n0 + refuses op r0) r1"
    using rec_at_exec [OF Cons.prems] by blast
  from Cons.IH [OF r1(2)] show ?case using r1(1) by (fastforce simp: add.assoc)
qed auto

end
