(* ===== verification/Recorder_Timeline.thy ===== *)
theory Recorder_Timeline
  imports Recorder "HOL-Library.Product_Lexorder" "HOL-Library.List_Lexorder"
begin

text \<open>
  Package \<^verbatim>\<open>record\<close>, the reading half: the timeline index over a recording (\<^verbatim>\<open>record/timeline.go\<close>) and
  the replayer (\<^verbatim>\<open>record/replayer.go\<close>). Files are a map from paths to contents.
\<close>

type_synonym files = "string \<Rightarrow> bytes option"

definition os_Open :: "files \<Rightarrow> string \<Rightarrow> go_error + bytes" where
  "os_Open fs path = (case fs path of None \<Rightarrow> Inl (ErrOther ''open'') | Some content \<Rightarrow> Inr content)"

section \<open>Timeline\<close>

record Entry =
  en_TrackName :: string
  en_Kind :: string
  en_CapturedAtMicros :: "64 word"
  en_PTSMicros :: "64 word"
  en_Seq :: "32 word"
  en_Keyframe :: bool
  en_Discontinuity :: bool
  en_PayloadLen :: nat
  en_Offset :: nat

record Timeline =
  tl_path :: string
  tl_entries :: "Entry list"

text \<open>A lane of the recording: \<^verbatim>\<open>Track{Name, Kind}\<close>.\<close>

type_synonym lane = "string \<times> string"

definition lane_of :: "Entry \<Rightarrow> lane" where
  "lane_of e = (en_TrackName e, en_Kind e)"

definition entry_of :: "frame \<Rightarrow> nat \<Rightarrow> Entry" where
  "entry_of f off =
     \<lparr>en_TrackName = fr_TrackName f, en_Kind = fr_Kind f, en_CapturedAtMicros = fr_CapturedAtMicros f,
      en_PTSMicros = fr_PTSMicros f, en_Seq = fr_Seq f, en_Keyframe = fr_Keyframe f,
      en_Discontinuity = fr_Discontinuity f, en_PayloadLen = length (fr_Payload f), en_Offset = off\<rparr>"

text \<open>The indexing loop. The counting reader's \<open>n\<close> grows by what \<open>decodeFrame\<close> consumed.\<close>

partial_function (option) scan_frames :: "nat \<Rightarrow> bytes \<Rightarrow> Entry list \<Rightarrow> (go_error + Entry list) option" where
  "scan_frames n src entries =
     (case decodeFrame src of
        (Inl e, _) \<Rightarrow> Some (if e = EOF \<or> e = ErrUnexpectedEOF then Inr entries else Inl e)
      | (Inr f, rest) \<Rightarrow> scan_frames (n + (length src - length rest)) rest (entries @ [entry_of f n]))"

definition BuildTimeline :: "files \<Rightarrow> string \<Rightarrow> (go_error + Timeline) option" where
  "BuildTimeline fs path =
     (case os_Open fs path of
        Inl e \<Rightarrow> Some (Inl e)
      | Inr f \<Rightarrow>
          (case readHeader f of
             Inl e \<Rightarrow> Some (Inl e)
           | Inr rest \<Rightarrow>
               (case scan_frames (length f - length rest) rest [] of
                  None \<Rightarrow> None
                | Some (Inl e) \<Rightarrow> Some (Inl e)
                | Some (Inr entries) \<Rightarrow> Some (Inr \<lparr>tl_path = path, tl_entries = entries\<rparr>))))"

fun tracks_of :: "lane list \<Rightarrow> Entry list \<Rightarrow> lane list" where
  "tracks_of out [] = out"
| "tracks_of out (e # es) = tracks_of (if lane_of e \<in> set out then out else out @ [lane_of e]) es"

definition Tracks :: "Timeline \<Rightarrow> lane list" where
  "Tracks tml = tracks_of [] (tl_entries tml)"

definition Timeline_Len :: "Timeline \<Rightarrow> nat" where
  "Timeline_Len tml = length (tl_entries tml)"

text \<open>\<^verbatim>\<open>sort.SliceStable\<close> for a less function: an element goes before the first one it is not after.\<close>

fun stable_insert :: "('a \<Rightarrow> 'a \<Rightarrow> bool) \<Rightarrow> 'a \<Rightarrow> 'a list \<Rightarrow> 'a list" where
  "stable_insert lt x [] = [x]"
| "stable_insert lt x (y # ys) = (if lt y x then y # stable_insert lt x ys else x # y # ys)"

definition SliceStable :: "('a \<Rightarrow> 'a \<Rightarrow> bool) \<Rightarrow> 'a list \<Rightarrow> 'a list" where
  "SliceStable lt xs = foldr (stable_insert lt) xs []"

definition frames_less :: "Entry \<Rightarrow> Entry \<Rightarrow> bool" where
  "frames_less a b =
     (if en_CapturedAtMicros a \<noteq> en_CapturedAtMicros b then sint (en_CapturedAtMicros a) < sint (en_CapturedAtMicros b)
      else if en_TrackName a \<noteq> en_TrackName b then en_TrackName a < en_TrackName b
      else en_Seq a < en_Seq b)"

definition Frames :: "Timeline \<Rightarrow> Entry list" where
  "Frames tml = SliceStable frames_less (tl_entries tml)"

definition seek_step :: "64 word \<Rightarrow> Entry \<Rightarrow> (lane \<rightharpoonup> Entry) \<Rightarrow> (lane \<rightharpoonup> Entry)" where
  "seek_step micros e out =
     (if sint (en_CapturedAtMicros e) > sint micros then out
      else
        let t = lane_of e in
        if (case out t of
              None \<Rightarrow> True
            | Some prev \<Rightarrow> sint (en_CapturedAtMicros e) > sint (en_CapturedAtMicros prev) \<or>
                en_CapturedAtMicros e = en_CapturedAtMicros prev \<and> en_Seq e > en_Seq prev)
        then out(t \<mapsto> e) else out)"

definition SeekSnapshot :: "Timeline \<Rightarrow> 64 word \<Rightarrow> (lane \<rightharpoonup> Entry)" where
  "SeekSnapshot tml micros = fold (seek_step micros) (tl_entries tml) Map.empty"

definition frame_au :: "frame \<Rightarrow> AccessUnit" where
  "frame_au f = AccessUnit_zero\<lparr>au_Bytes := fr_Payload f, au_Keyframe := fr_Keyframe f, au_PTSMicro := fr_PTSMicros f,
     au_Seq := fr_Seq f, au_Discontinuity := fr_Discontinuity f\<rparr>"

definition ReadPayload :: "files \<Rightarrow> Timeline \<Rightarrow> Entry \<Rightarrow> go_error + AccessUnit" where
  "ReadPayload fs tml e =
     bindE (os_Open fs (tl_path tml)) (\<lambda>f.
       bindE (fst (decodeFrame (drop (en_Offset e) f))) (\<lambda>fr. Inr (frame_au fr)))"

section \<open>Replayer\<close>

text \<open>\<open>rp_br\<close> is what the buffered reader has still to deliver.\<close>

record Replayer =
  rp_br :: bytes

record Frame =
  rf_TrackName :: string
  rf_Kind :: string
  rf_CapturedAtMicros :: "64 word"
  rf_AU :: AccessUnit

definition Replayer_Open :: "files \<Rightarrow> string \<Rightarrow> go_error + Replayer" where
  "Replayer_Open fs path = bindE (os_Open fs path) (\<lambda>f. bindE (readHeader f) (\<lambda>rest. Inr \<lparr>rp_br = rest\<rparr>))"

definition replay_frame :: "frame \<Rightarrow> Frame" where
  "replay_frame f =
     \<lparr>rf_TrackName = fr_TrackName f, rf_Kind = fr_Kind f, rf_CapturedAtMicros = fr_CapturedAtMicros f, rf_AU = frame_au f\<rparr>"

definition Next :: "Replayer \<Rightarrow> (go_error + Frame) \<times> Replayer" where
  "Next r =
     (case decodeFrame (rp_br r) of
        (Inl e, rest) \<Rightarrow> (Inl (if e = ErrUnexpectedEOF then EOF else e), r\<lparr>rp_br := rest\<rparr>)
      | (Inr f, rest) \<Rightarrow> (Inr (replay_frame f), r\<lparr>rp_br := rest\<rparr>))"

text \<open>What a round of \<open>PublishInto\<close> meets: the context's error at the head of the loop, the clock when it
  computes the wait, and the context's error if it is done before the wait is over.\<close>

record pub_env =
  pe_ctxErr :: "go_error option"
  pe_now :: int
  pe_waitErr :: "go_error option"

text \<open>\<open>pace\<close> is \<^verbatim>\<open>None\<close> for a speed of at most 0; otherwise it is the \<^verbatim>\<open>float64\<close> division of a duration by the speed,
  converted back to a duration. \<open>route\<close> is the caller's callback on its own state.\<close>

definition pace_wait :: "(64 word \<Rightarrow> 64 word) \<Rightarrow> int \<Rightarrow> int \<Rightarrow> 64 word \<Rightarrow> 64 word \<Rightarrow> int" where
  "pace_wait pace startWall now firstCaptured captured =
     (let elapsedRecorded = (captured - firstCaptured) * 1000; targetWall = startWall + sint (pace elapsedRecorded) in
      targetWall - now)"

partial_function (option) publish_loop ::
    "(64 word \<Rightarrow> 64 word) option \<Rightarrow> (nat \<Rightarrow> pub_env) \<Rightarrow> int \<Rightarrow> (Frame \<Rightarrow> 's \<Rightarrow> go_error option \<times> 's) \<Rightarrow>
     nat \<Rightarrow> 64 word \<Rightarrow> Replayer \<Rightarrow> 's \<Rightarrow> (go_error option \<times> 's \<times> Replayer) option" where
  "publish_loop speed env startWall route i firstCaptured r st =
     (if pe_ctxErr (env i) \<noteq> None then Some (pe_ctxErr (env i), st, r)
      else case Next r of
        (Inl e, r1) \<Rightarrow> Some (if e = EOF then None else Some e, st, r1)
      | (Inr f, r1) \<Rightarrow>
          let first = (if speed \<noteq> None \<and> firstCaptured = 0 then rf_CapturedAtMicros f else firstCaptured) in
          if (case speed of None \<Rightarrow> False
              | Some pace \<Rightarrow> pace_wait pace startWall (pe_now (env i)) first (rf_CapturedAtMicros f) > 0) \<and>
             pe_waitErr (env i) \<noteq> None
          then Some (pe_waitErr (env i), st, r1)
          else case route f st of
            (Some e, st1) \<Rightarrow> Some (Some e, st1, r1)
          | (None, st1) \<Rightarrow> publish_loop speed env startWall route (Suc i) first r1 st1)"

definition PublishInto ::
    "(64 word \<Rightarrow> 64 word) option \<Rightarrow> (nat \<Rightarrow> pub_env) \<Rightarrow> int \<Rightarrow> (Frame \<Rightarrow> 's \<Rightarrow> go_error option \<times> 's) \<Rightarrow>
     Replayer \<Rightarrow> 's \<Rightarrow> (go_error option \<times> 's \<times> Replayer) option" where
  "PublishInto speed env startWall route r st = publish_loop speed env startWall route 0 0 r st"

section \<open>What the scan finds\<close>

text \<open>The frames of a source, as the codec of the format reads them.\<close>

abbreviation rec_dec :: "bytes \<Rightarrow> go_error + frame \<times> bytes" where
  "rec_dec \<equiv> \<lambda>src. case decodeFrame src of (Inl e, _) \<Rightarrow> Inl e | (Inr f, r) \<Rightarrow> Inr (f, r)"

definition frames_in :: "bytes \<Rightarrow> frame list \<times> go_error" where
  "frames_in src = (let (fs, e) = read_loop rec_dec (Suc (length src)) src in (fs, the e))"

text \<open>\<open>indexed n src e f\<close>: the entry \<open>e\<close> describes the frame \<open>f\<close>, which is found at its offset; \<open>n\<close> is the offset of \<open>src\<close>.\<close>

definition indexed :: "nat \<Rightarrow> bytes \<Rightarrow> Entry \<Rightarrow> frame \<Rightarrow> bool" where
  "indexed n src e f \<longleftrightarrow> e = entry_of f (en_Offset e) \<and> n \<le> en_Offset e \<and> fst (decodeFrame (drop (en_Offset e - n) src)) = Inr f"

lemma indexed_shift: "indexed (n + k) (drop k src) e f \<Longrightarrow> indexed n src e f"
  by (auto simp: indexed_def)

lemma scan_frames_read_loop:
  "read_loop rec_dec k src = (fs, Some e) \<Longrightarrow>
     \<exists>es. scan_frames n src acc = Some (if eof_error e then Inr (acc @ es) else Inl e) \<and> list_all2 (indexed n src) es fs \<and>
       sorted_wrt (<) (map en_Offset es) \<and> (\<Sum>x\<leftarrow>es. 32 + en_PayloadLen x) \<le> length src"
proof (induction k arbitrary: n src acc fs)
  case (Suc k)
  obtain d rest where d: "decodeFrame src = (d, rest)" by fastforce
  show ?case
  proof (cases d)
    case (Inl e1)
    then have "scan_frames n src acc = Some (if eof_error e1 then Inr acc else Inl e1)" "fs = []" "e1 = e"
      using d Suc.prems by (simp_all add: scan_frames.simps)
    then show ?thesis by (intro exI [of _ "[]"]) auto
  next
    case (Inr f)
    obtain gs where gs: "read_loop rec_dec k rest = (gs, Some e)" "fs = f # gs"
      using d Inr Suc.prems by (auto split: prod.splits)
    define m where "m = length src - length rest"
    have rest: "rest = drop m src" "m > 0" "32 + length (fr_Payload f) + length rest \<le> length src"
      using decodeFrame_consumes [of src f rest] decodeFrame_Inr [of src f rest] d Inr by (auto simp: m_def)
    obtain es where es: "scan_frames (n + m) rest (acc @ [entry_of f n]) = Some (if eof_error e then Inr ((acc @ [entry_of f n]) @ es) else Inl e)"
      "list_all2 (indexed (n + m) rest) es gs" "sorted_wrt (<) (map en_Offset es)" "(\<Sum>x\<leftarrow>es. 32 + en_PayloadLen x) \<le> length rest"
      using Suc.IH [OF gs(1)] by blast
    have later: "list_all2 (indexed n src) es gs" "\<forall>x \<in> set es. n < en_Offset x"
      using es(2) rest(2) unfolding rest(1)
      by (auto simp: list_all2_conv_all_nth indexed_shift in_set_conv_nth) (auto simp: indexed_def)
    have "indexed n src (entry_of f n) f" using d Inr by (simp add: indexed_def entry_of_def)
    then show ?thesis using es later rest(3) d Inr gs(2)
      by (intro exI [of _ "entry_of f n # es"]) (auto simp: scan_frames.simps [of n src] m_def entry_of_def)
  qed
qed simp

lemma frames_in_loop:
  assumes "frames_in src = (fs, e)"
  shows "read_loop rec_dec (Suc (length src)) src = (fs, Some e)"
proof -
  obtain gs e1 where "read_loop rec_dec (Suc (length src)) src = (gs, Some e1)"
    using rec_codec.read_loop_enough [of src "Suc (length src)"] by blast
  then show ?thesis using assms by (simp add: frames_in_def del: read_loop.simps)
qed

lemma BuildTimeline_frames:
  assumes "fs path = Some f" "readHeader f = Inr rest" "frames_in rest = (gs, e)"
  shows "BuildTimeline fs path = Some (Inl e) \<and> \<not> eof_error e \<or>
    (\<exists>es. BuildTimeline fs path = Some (Inr \<lparr>tl_path = path, tl_entries = es\<rparr>) \<and> eof_error e \<and>
      list_all2 (indexed 0 f) es gs \<and> sorted_wrt (<) (map en_Offset es) \<and> 12 + (\<Sum>x\<leftarrow>es. 32 + en_PayloadLen x) \<le> length f)"
proof -
  have r: "rest = drop 12 f" "12 \<le> length f"
    using assms(2) by (auto simp: readHeader_def bindE_Inr_iff read_full_Inr_iff Let_def split: if_splits)
  obtain es where es: "scan_frames 12 rest [] = Some (if eof_error e then Inr es else Inl e)" "list_all2 (indexed 12 rest) es gs"
      "sorted_wrt (<) (map en_Offset es)" "(\<Sum>x\<leftarrow>es. 32 + en_PayloadLen x) \<le> length rest"
    using scan_frames_read_loop [OF frames_in_loop [OF assms(3)], of 12 "[]"] by auto
  have "list_all2 (indexed 0 f) es gs"
    using es(2) unfolding r(1) by (rule list_all2_mono) (rule indexed_shift, simp)
  then show ?thesis using es r assms(1,2) by (auto simp: BuildTimeline_def os_Open_def)
qed

section \<open>Reading a recording back\<close>

lemma frames_in_append:
  assumes "list_all frame_ok fs"
  shows "frames_in (concat (map frame_bytes fs) @ t) = (let (gs, e) = frames_in t in (fs @ gs, e))"
proof -
  obtain gs e where t: "frames_in t = (gs, e)" by fastforce
  define n where "n = Suc (length (concat (map frame_bytes fs) @ t))"
  have "length fs \<le> length (concat (map frame_bytes fs))"
    by (induction fs) (auto simp: length_frame_bytes)
  then have n: "length fs < n" "Suc (length t) \<le> n - length fs" by (auto simp: n_def)
  show ?thesis
    using rec_codec.read_loop_frames [OF assms n(1), of t] read_loop_mono [OF frames_in_loop [OF t] n(2)] t
    by (simp add: frames_in_def n_def Let_def del: read_loop.simps)
qed

lemma frames_in_stop: "decodeFrame src = (Inl e, r) \<Longrightarrow> frames_in src = ([], e)"
  by (simp add: frames_in_def)

lemma frames_cut:
  assumes "m < length gs" "k = length (concat (map frame_bytes (take m gs))) + length t" "length t < length (frame_bytes (gs ! m))"
    and "length (concat (map frame_bytes (take j gs))) \<le> k"
  shows "j \<le> m"
proof (rule ccontr)
  assume "\<not> j \<le> m"
  then have "take j gs = take (Suc m) gs @ take (j - Suc m) (drop (Suc m) gs)" using take_add [of "Suc m" "j - Suc m" gs] by simp
  then show False using assms by (simp add: take_Suc_conv_app_nth)
qed

lemma frames_in_cut:
  assumes ok: "list_all frame_ok gs" and k: "k \<le> length (concat (map frame_bytes gs))"
  shows "\<exists>m e. frames_in (take k (concat (map frame_bytes gs))) = (take m gs, e) \<and> eof_error e \<and> m \<le> length gs \<and>
    (\<forall>j \<le> length gs. length (concat (map frame_bytes (take j gs))) \<le> k \<longrightarrow> j \<le> m)"
proof -
  define all where "all = concat (map frame_bytes gs)"
  from take_concat_split [OF k] obtain m t where m: "m \<le> length gs" "take k all = concat (map frame_bytes (take m gs)) @ t"
    "if m = length gs then t = [] else (\<exists>j < length (map frame_bytes gs ! m). t = take j (map frame_bytes gs ! m))"
    unfolding all_def take_map length_map by blast
  then have m3: "if m = length gs then t = [] else (\<exists>j < length (frame_bytes (gs ! m)). t = take j (frame_bytes (gs ! m)))"
    by (simp split: if_splits)
  have "\<exists>e r. decodeFrame t = (Inl e, r) \<and> eof_error e"
  proof (cases "m = length gs")
    case False
    then have "frame_ok (gs ! m)" using ok m(1) by (simp add: list_all_length)
    then show ?thesis using m3 False decodeFrame_torn by metis
  qed (use m3 decodeFrame_short [of "[]"] in auto)
  then obtain e r where e: "decodeFrame t = (Inl e, r)" "eof_error e" by blast
  have "list_all frame_ok (take m gs)" using ok by (auto simp: list_all_iff dest: in_set_takeD)
  from frames_in_append [OF this, of t] have fr: "frames_in (take k all) = (take m gs, e)"
    by (simp add: m(2) frames_in_stop [OF e(1)])
  have "length (take k all) = k" using k by (simp add: all_def)
  then have l: "k = length (concat (map frame_bytes (take m gs))) + length t" using m(2) by simp
  have "j \<le> m" if "j \<le> length gs" "length (concat (map frame_bytes (take j gs))) \<le> k" for j
  proof (cases "m = length gs")
    case False
    then have "length t < length (frame_bytes (gs ! m))" using m3 by auto
    then show ?thesis using frames_cut [OF _ l _ that(2)] False m(1) by simp
  qed (use that in simp)
  then show ?thesis using fr e(2) m(1) by (auto simp: all_def)
qed

lemma recording_prefix:
  assumes ok: "list_all frame_ok gs" and pre: "prefix fl (header_bytes @ concat (map frame_bytes gs) @ eofMarker)" "12 \<le> length fl"
  shows "\<exists>m rest e. readHeader fl = Inr rest \<and> frames_in rest = (take m gs, e) \<and> eof_error e \<and> m \<le> length gs \<and>
    (\<forall>j \<le> length gs. 12 + length (concat (map frame_bytes (take j gs))) \<le> length fl \<longrightarrow> j \<le> m)"
proof -
  define all where "all = concat (map frame_bytes gs)"
  obtain zs where "header_bytes @ all @ eofMarker = fl @ zs" using pre(1) by (auto simp: prefix_def all_def)
  then have "fl = take (length fl) (header_bytes @ all @ eofMarker)" by (metis append_eq_conv_conj)
  moreover have "length header_bytes = 12" by (simp add: header_bytes_def FileMagic_def)
  ultimately obtain k where k: "length fl = 12 + k" "fl = header_bytes @ take k (all @ eofMarker)"
    using pre(2) le_Suc_ex [OF pre(2)] by auto
  have rd: "readHeader fl = Inr (take k (all @ eofMarker))" using k(2) readHeader_header by simp
  show ?thesis
  proof (cases "k \<le> length all")
    case True
    then show ?thesis using frames_in_cut [OF ok True [unfolded all_def]] rd k(1) by (auto simp: all_def)
  next
    case False
    obtain e r where e: "decodeFrame (take (k - length all) eofMarker) = (Inl e, r)" "eof_error e" using decodeFrame_eof by blast
    have "frames_in (take k (all @ eofMarker)) = (gs, e)"
      using frames_in_append [OF ok] frames_in_stop [OF e(1)] False by (simp add: all_def)
    then show ?thesis using rd e(2) by (intro exI [of _ "length gs"]) auto
  qed
qed

text \<open>An entry and the frame it stands for, as a reader of the timeline sees them.\<close>

type_synonym view = "string \<times> string \<times> 64 word \<times> (go_error + AccessUnit)"

definition entry_view :: "files \<Rightarrow> Timeline \<Rightarrow> Entry \<Rightarrow> view" where
  "entry_view fs tml e = (en_TrackName e, en_Kind e, en_CapturedAtMicros e, ReadPayload fs tml e)"

definition frame_view :: "frame \<Rightarrow> view" where
  "frame_view f = (fr_TrackName f, fr_Kind f, fr_CapturedAtMicros f, Inr (frame_au f))"

definition replay_view :: "Frame \<Rightarrow> view" where
  "replay_view f = (rf_TrackName f, rf_Kind f, rf_CapturedAtMicros f, Inr (rf_AU f))"

lemma replay_view_frame: "replay_view (replay_frame f) = frame_view f"
  by (simp add: replay_view_def replay_frame_def frame_view_def)

lemma indexed_view:
  assumes "indexed 0 content e f" "fs (tl_path tml) = Some content"
  shows "entry_view fs tml e = frame_view f"
proof -
  have "e = entry_of f (en_Offset e)" "fst (decodeFrame (drop (en_Offset e) content)) = Inr f" using assms(1) by (simp_all add: indexed_def)
  then show ?thesis using assms(2)
    by (metis (no_types, lifting) Entry.select_convs(1-3) ReadPayload_def bindE_simps(2) entry_of_def entry_view_def frame_view_def
        option.case(2) os_Open_def)
qed

lemma indexed_views:
  assumes "list_all2 (indexed 0 content) es gs" "fs (tl_path tml) = Some content"
  shows "map (entry_view fs tml) es = map frame_view gs"
  using assms(1) indexed_view [of content _ _ fs tml] assms(2) by (auto simp: list_eq_iff_nth_eq list_all2_conv_all_nth)

text \<open>A route that also logs the frames it is given.\<close>

definition logged :: "(Frame \<Rightarrow> 's \<Rightarrow> go_error option \<times> 's) \<Rightarrow> Frame \<Rightarrow> 's \<times> Frame list \<Rightarrow> go_error option \<times> 's \<times> Frame list" where
  "logged route f q = (let (e, st) = route f (fst q) in (e, st, snd q @ [f]))"

definition uncancelled :: "(nat \<Rightarrow> pub_env) \<Rightarrow> bool" where
  "uncancelled env \<longleftrightarrow> (\<forall>i. pe_ctxErr (env i) = None \<and> pe_waitErr (env i) = None)"

lemma publish_loop_frame:
  assumes "pe_ctxErr (env i) = None" "decodeFrame src = (Inr f, rest)" "route (replay_frame f) st0 = (e, st)"
  shows "(\<exists>err. publish_loop speed env w (logged route) i fc \<lparr>rp_br = src\<rparr> (st0, old) =
        Some (Some err, (st0, old), \<lparr>rp_br = rest\<rparr>) \<and> pe_waitErr (env i) \<noteq> None) \<or>
    (\<exists>first. publish_loop speed env w (logged route) i fc \<lparr>rp_br = src\<rparr> (st0, old) =
        (case e of Some err \<Rightarrow> Some (Some err, (st, old @ [replay_frame f]), \<lparr>rp_br = rest\<rparr>)
         | None \<Rightarrow> publish_loop speed env w (logged route) (Suc i) first \<lparr>rp_br = rest\<rparr> (st, old @ [replay_frame f])))"
proof -
  define first where "first = (if speed \<noteq> None \<and> fc = 0 then rf_CapturedAtMicros (replay_frame f) else fc)"
  define waits where "waits \<longleftrightarrow> (case speed of None \<Rightarrow> False
    | Some pace \<Rightarrow> pace_wait pace w (pe_now (env i)) first (rf_CapturedAtMicros (replay_frame f)) > 0)"
  have nx: "Next \<lparr>rp_br = src\<rparr> = (Inr (replay_frame f), \<lparr>rp_br = rest\<rparr>)" using assms(2) by (simp add: Next_def)
  have lg: "logged route (replay_frame f) (st0, old) = (e, st, old @ [replay_frame f])" using assms(3) by (simp add: logged_def)
  have "publish_loop speed env w (logged route) i fc \<lparr>rp_br = src\<rparr> (st0, old) =
     (if waits \<and> pe_waitErr (env i) \<noteq> None then Some (pe_waitErr (env i), (st0, old), \<lparr>rp_br = rest\<rparr>)
      else case e of Some err \<Rightarrow> Some (Some err, (st, old @ [replay_frame f]), \<lparr>rp_br = rest\<rparr>)
        | None \<Rightarrow> publish_loop speed env w (logged route) (Suc i) first \<lparr>rp_br = rest\<rparr> (st, old @ [replay_frame f]))"
    by (subst publish_loop.simps) (simp only: assms(1) nx lg Let_def first_def waits_def prod.case sum.case if_False simp_thms)
  then show ?thesis by (cases "waits \<and> pe_waitErr (env i) \<noteq> None") auto
qed

lemma publish_loop_read_loop:
  "read_loop rec_dec k src = (gs, Some e) \<Longrightarrow>
     \<exists>res st new r'. publish_loop speed env w (logged route) i fc \<lparr>rp_br = src\<rparr> (st0, old) = Some (res, (st, old @ new), r') \<and>
       prefix new (map replay_frame gs) \<and> (res = None \<longrightarrow> new = map replay_frame gs \<and> eof_error e) \<and>
       (uncancelled env \<and> (\<forall>f st. fst (route f st) = None) \<longrightarrow>
          new = map replay_frame gs \<and> res = (if eof_error e then None else Some e))"
proof (induction k arbitrary: src gs i fc st0 old)
  case (Suc k)
  obtain d rest where d: "decodeFrame src = (d, rest)" by fastforce
  show ?case
  proof (cases "pe_ctxErr (env i) \<noteq> None \<or> (\<exists>e. d = Inl e)")
    case True
    then consider e1 where "pe_ctxErr (env i) = Some e1" | e1 where "pe_ctxErr (env i) = None" "d = Inl e1" by auto
    then show ?thesis
    proof cases
      case 1
      then have "publish_loop speed env w (logged route) i fc \<lparr>rp_br = src\<rparr> (st0, old) = Some (Some e1, (st0, old), \<lparr>rp_br = src\<rparr>)"
        by (subst publish_loop.simps) simp
      moreover have "\<not> uncancelled env" using 1 by (auto simp: uncancelled_def)
      ultimately show ?thesis by simp
    next
      case 2
      then have "publish_loop speed env w (logged route) i fc \<lparr>rp_br = src\<rparr> (st0, old) =
          Some (if eof_error e1 then None else Some e1, (st0, old), \<lparr>rp_br = rest\<rparr>)"
        using d by (subst publish_loop.simps) (auto simp: Next_def)
      moreover have "gs = []" "e1 = e" using 2 d Suc.prems by auto
      ultimately show ?thesis by simp
    qed
  next
    case False
    then obtain f where f: "pe_ctxErr (env i) = None" "d = Inr f" by (cases d) auto
    obtain hs where hs: "read_loop rec_dec k rest = (hs, Some e)" "gs = f # hs"
      using d f Suc.prems by (auto split: prod.splits)
    obtain e1 st1 where rt: "route (replay_frame f) st0 = (e1, st1)" by fastforce
    from publish_loop_frame [of env i src f rest route st0 e1 st1 speed w fc old, OF f(1) d [unfolded f(2)] rt]
    show ?thesis
    proof (elim disjE exE conjE)
      fix err assume "publish_loop speed env w (logged route) i fc \<lparr>rp_br = src\<rparr> (st0, old) = Some (Some err, (st0, old), \<lparr>rp_br = rest\<rparr>)"
        "pe_waitErr (env i) \<noteq> None"
      then show ?thesis by (intro exI [of _ "Some err"] exI [of _ st0] exI [of _ "[]"]) (auto simp: uncancelled_def)
    next
      fix first assume step: "publish_loop speed env w (logged route) i fc \<lparr>rp_br = src\<rparr> (st0, old) =
        (case e1 of Some err \<Rightarrow> Some (Some err, (st1, old @ [replay_frame f]), \<lparr>rp_br = rest\<rparr>)
         | None \<Rightarrow> publish_loop speed env w (logged route) (Suc i) first \<lparr>rp_br = rest\<rparr> (st1, old @ [replay_frame f]))"
      show ?thesis
      proof (cases e1)
        case None
        from Suc.IH [OF hs(1), of "Suc i" first st1 "old @ [replay_frame f]"] obtain res st new r' where new:
          "publish_loop speed env w (logged route) (Suc i) first \<lparr>rp_br = rest\<rparr> (st1, old @ [replay_frame f]) = Some (res, (st, (old @ [replay_frame f]) @ new), r')"
          "prefix new (map replay_frame hs)" "res = None \<longrightarrow> new = map replay_frame hs \<and> eof_error e"
          "uncancelled env \<and> (\<forall>f st. fst (route f st) = None) \<longrightarrow> new = map replay_frame hs \<and> res = (if eof_error e then None else Some e)"
          by blast
        then have "publish_loop speed env w (logged route) i fc \<lparr>rp_br = src\<rparr> (st0, old) = Some (res, (st, old @ replay_frame f # new), r')"
          using step None by simp
        then show ?thesis using new(2-4) unfolding hs(2) list.map by (metis Cons_prefix_Cons)
      next
        case (Some err)
        then have "fst (route (replay_frame f) st0) \<noteq> None" using rt by simp
        then show ?thesis using step Some hs(2) by (intro exI [of _ "Some err"] exI [of _ st1] exI [of _ "[replay_frame f]"]) auto
      qed
    qed
  qed
qed simp

section \<open>Queries\<close>

lemma sint_inj: "sint (a :: 64 word) = sint b \<longleftrightarrow> a = b"
  by (metis signed_word_eqI)

definition frames_key :: "Entry \<Rightarrow> int \<times> string \<times> 32 word" where
  "frames_key e = (sint (en_CapturedAtMicros e), en_TrackName e, en_Seq e)"

lemma frames_less_key: "frames_less a b \<longleftrightarrow> frames_key a < frames_key b"
  using sint_inj [of "en_CapturedAtMicros a" "en_CapturedAtMicros b"]
  by (auto simp: frames_less_def frames_key_def less_prod_def' order.strict_iff_order)

lemma stable_insert_key: "stable_insert frames_less x xs = insort_key frames_key x xs"
  by (induction xs) (auto simp: frames_less_key)

lemma Frames_sort: "Frames tml = sort_key frames_key (tl_entries tml)"
  unfolding Frames_def SliceStable_def sort_key_def
  by (rule foldr_cong) (simp_all add: stable_insert_key)

definition seek_key :: "Entry \<Rightarrow> int \<times> 32 word" where
  "seek_key e = (sint (en_CapturedAtMicros e), en_Seq e)"

text \<open>The first entry of a list with the greatest key.\<close>

definition first_max :: "Entry list \<Rightarrow> Entry \<Rightarrow> bool" where
  "first_max xs e \<longleftrightarrow> (\<exists>as bs. xs = as @ e # bs \<and> (\<forall>a \<in> set as. seek_key a < seek_key e) \<and> (\<forall>b \<in> set bs. seek_key b \<le> seek_key e))"

fun later :: "Entry \<Rightarrow> Entry option \<Rightarrow> Entry option" where
  "later e None = Some e"
| "later e (Some p) = (if seek_key p < seek_key e then Some e else Some p)"

lemma seek_step_later:
  "seek_step m e out ln = (if lane_of e = ln \<and> sint (en_CapturedAtMicros e) \<le> sint m then later e (out ln) else out ln)"
  using sint_inj [of "en_CapturedAtMicros e" "en_CapturedAtMicros (the (out ln))"]
  by (cases "out ln") (auto simp: seek_step_def seek_key_def Let_def less_prod_def' order.strict_iff_order)

lemma seek_fold:
  "fold (seek_step m) es out ln = fold later (filter (\<lambda>e. lane_of e = ln \<and> sint (en_CapturedAtMicros e) \<le> sint m) es) (out ln)"
  by (induction es arbitrary: out) (simp_all add: seek_step_later)

lemma fold_later:
  "case fold later xs None of None \<Rightarrow> xs = [] | Some e \<Rightarrow> first_max xs e"
proof (induction xs rule: rev_induct)
  case (snoc x xs)
  show ?case
  proof (cases "fold later xs None")
    case None
    then have "xs = []" using snoc by simp
    then show ?thesis by (simp add: first_max_def) (metis append_Nil empty_iff empty_set)
  next
    case (Some p)
    then obtain as bs where p: "xs = as @ p # bs" "\<forall>a \<in> set as. seek_key a < seek_key p" "\<forall>b \<in> set bs. seek_key b \<le> seek_key p"
      using snoc by (auto simp: first_max_def)
    show ?thesis
    proof (cases "seek_key p < seek_key x")
      case True
      then have "\<forall>a \<in> set xs. seek_key a < seek_key x" using p by (auto intro: less_trans le_less_trans)
      then show ?thesis using Some True by (auto simp: first_max_def intro: exI [of _ xs])
    next
      case False
      then have "first_max (xs @ [x]) p" unfolding first_max_def using p by (intro exI [of _ as] exI [of _ "bs @ [x]"]) auto
      then show ?thesis using Some False by simp
    qed
  qed
qed simp

lemma first_max_unique: "first_max xs e \<Longrightarrow> first_max xs e' \<Longrightarrow> e = e'"
proof -
  assume "first_max xs e" "first_max xs e'"
  then obtain as bs cs ds where x: "xs = as @ e # bs" "\<forall>a \<in> set as. seek_key a < seek_key e" "\<forall>b \<in> set bs. seek_key b \<le> seek_key e"
    and y: "xs = cs @ e' # ds" "\<forall>a \<in> set cs. seek_key a < seek_key e'" "\<forall>b \<in> set ds. seek_key b \<le> seek_key e'"
    unfolding first_max_def by blast
  from x(1) y(1) have "as @ e # bs = cs @ e' # ds" by simp
  then consider "as = cs" "e = e'" | "e \<in> set cs" "e' \<in> set bs" | "e' \<in> set as" "e \<in> set ds"
    by (auto simp: append_eq_append_conv2 append_eq_Cons_conv Cons_eq_append_conv)
  then show ?thesis using x(2,3) y(2,3) by cases (blast, meson leD, meson leD)
qed

lemma rec_at_timeline:
  assumes "rec_at acc taken n r" "fs path = Some (rec_file r)" "12 \<le> length (rec_file r)"
    and "\<forall>f \<in> set (recorded taken). length (frame_body f) \<le> maxFrameLen"
  shows "\<exists>m tml. BuildTimeline fs path = Some (Inr tml) \<and> map (entry_view fs tml) (tl_entries tml) = map frame_view (take m (recorded taken)) \<and>
    (\<forall>j \<le> length (recorded taken). 12 + length (concat (map frame_bytes (take j (recorded taken)))) \<le> length (rec_file r) \<longrightarrow> j \<le> m) \<and>
    (rec_closed r \<and> \<not> rec_closing r \<and> rec_closeErr r = None \<longrightarrow> take m (recorded taken) = recorded taken \<and> acc = map fst taken)"
proof -
  define gs where "gs = recorded taken"
  have pre: "prefix (rec_file r) (header_bytes @ concat (map frame_bytes gs) @ eofMarker)"
    using assms(1) bufw_at_prefix [of "recording taken" "rec_buf r"]
    by (auto simp: rec_at_def recording_def gs_def split: if_splits intro: prefix_order.trans)
  have "list_all frame_ok gs" using assms(4) by (auto simp: list_all_iff frame_ok_def gs_def recorded_def)
  from recording_prefix [OF this pre assms(3)] obtain m rest e where m: "readHeader (rec_file r) = Inr rest"
    "frames_in rest = (take m gs, e)" "eof_error e"
    "\<forall>j \<le> length gs. 12 + length (concat (map frame_bytes (take j gs))) \<le> length (rec_file r) \<longrightarrow> j \<le> m" by blast
  from BuildTimeline_frames [of fs path, OF assms(2) m(1,2)] m(3) obtain es where
    es: "BuildTimeline fs path = Some (Inr \<lparr>tl_path = path, tl_entries = es\<rparr>)" "list_all2 (indexed 0 (rec_file r)) es (take m gs)" by blast
  have "take m gs = gs \<and> acc = map fst taken" if "rec_closed r \<and> \<not> rec_closing r \<and> rec_closeErr r = None"
  proof -
    have "rec_file r = header_bytes @ concat (map frame_bytes gs) @ eofMarker" "acc = map fst taken"
      using that assms(1) by (auto simp: rec_at_def recording_def gs_def)
    moreover have "length header_bytes = 12" by (simp add: header_bytes_def FileMagic_def)
    ultimately show ?thesis using m(4) [rule_format, of "length gs"] by simp
  qed
  then show ?thesis using es m(4) indexed_views [of "rec_file r" es "take m gs" fs "\<lparr>tl_path = path, tl_entries = es\<rparr>"] assms(2)
    unfolding gs_def by (intro exI [of _ m] exI [of _ "\<lparr>tl_path = path, tl_entries = es\<rparr>"]) simp
qed

lemma tracks_of_set: "distinct out \<Longrightarrow> distinct (tracks_of out es) \<and> set (tracks_of out es) = set out \<union> lane_of ` set es"
  by (induction es arbitrary: out) auto

lemma SeekSnapshot_first_max:
  "SeekSnapshot tml m ln = Some e \<longleftrightarrow>
     first_max (filter (\<lambda>e. lane_of e = ln \<and> sint (en_CapturedAtMicros e) \<le> sint m) (tl_entries tml)) e"
proof -
  define xs where "xs = filter (\<lambda>e. lane_of e = ln \<and> sint (en_CapturedAtMicros e) \<le> sint m) (tl_entries tml)"
  have "SeekSnapshot tml m ln = fold later xs None" by (simp add: SeekSnapshot_def seek_fold xs_def)
  moreover have "\<not> first_max [] e" by (simp add: first_max_def)
  ultimately show ?thesis unfolding xs_def [symmetric] using fold_later [of xs] first_max_unique [of xs] by (auto split: option.splits)
qed

lemma entry_of_sel [simp]:
  "en_PayloadLen (entry_of g n) = length (fr_Payload g)" "en_Seq (entry_of g n) = fr_Seq g" "en_PTSMicros (entry_of g n) = fr_PTSMicros g"
  "en_Keyframe (entry_of g n) = fr_Keyframe g" "en_Discontinuity (entry_of g n) = fr_Discontinuity g" "en_Offset (entry_of g n) = n"
  by (simp_all add: entry_of_def)

definition faithful :: "files \<Rightarrow> Timeline \<Rightarrow> Entry \<Rightarrow> bool" where
  "faithful fs tml e \<longleftrightarrow> (\<exists>au. ReadPayload fs tml e = Inr au \<and> length (au_Bytes au) = en_PayloadLen e \<and> au_Seq au = en_Seq e \<and>
     au_PTSMicro au = en_PTSMicros e \<and> au_Keyframe au = en_Keyframe e \<and> au_Discontinuity au = en_Discontinuity e)"

lemma indexed_faithful:
  assumes "indexed 0 f e g" "fs (tl_path tml) = Some f"
  shows "faithful fs tml e"
proof -
  obtain n where e: "e = entry_of g n" using assms(1) by (auto simp: indexed_def)
  have "ReadPayload fs tml e = Inr (frame_au g)"
    using indexed_view [of f e g fs tml, OF assms] by (simp add: entry_view_def frame_view_def)
  then show ?thesis unfolding faithful_def e by (simp add: frame_au_def)
qed

text \<open>A small recording: two AUs on one track, closed cleanly.\<close>

definition ex_ops :: "rec_op list" where
  "ex_ops = [RecWrite ''v'' ''video'' (AccessUnit_zero\<lparr>au_Seq := 1, au_Keyframe := True, au_Bytes := [7]\<rparr>),
     RecWrite ''v'' ''video'' (AccessUnit_zero\<lparr>au_Seq := 2\<rparr>), RecRun 100, RecRun 101, RecClose, RecRun 102, RecFinish None]"

definition ex_recorder :: fileRecorder where
  "ex_recorder = projr (NewFileRecorderDepth (Inr \<lparr>w_out = [], w_script = []\<rparr>) 2)"

definition ex_file :: bytes where
  "ex_file = (case rec_trace ex_ops ex_recorder of None \<Rightarrow> [] | Some (_, _, _, r) \<Rightarrow> rec_file r)"

definition ex_views :: "view list" where
  "ex_views = [(''v'', ''video'', 100, Inr (AccessUnit_zero\<lparr>au_Seq := 1, au_Keyframe := True, au_Bytes := [7]\<rparr>)),
     (''v'', ''video'', 101, Inr (AccessUnit_zero\<lparr>au_Seq := 2\<rparr>))]"

lemma ex_recorder_eq:
  "NewFileRecorderDepth (Inr \<lparr>w_out = [], w_script = []\<rparr>) 2 = Inr ex_recorder"
  "ex_recorder = \<lparr>rec_ch = make_chan 2, rec_buf = \<lparr>bw_w = \<lparr>w_out = [], w_script = []\<rparr>, bw_buf = header_bytes, bw_err = None\<rparr>,
     rec_wg = 1, rec_dropped = 0, rec_closed = False, rec_closeErr = None, rec_closing = False\<rparr>"
  by (simp_all add: ex_recorder_def NewFileRecorderDepth_def writeHeader_def bufio_NewWriter_def bufio_Write_fits defaultBufSize_def
      header_bytes_def FileMagic_def Let_def)

lemmas ex_eval = ex_recorder_eq(2) ex_ops_def Recorder_Write_def run_record_def Recorder_Close_def Recorder_Close_finish_def writeEOF_def
  bufio_Write_fits bufio_Flush_def io_write_def chan_send_def chan_recv_def recorded_def recorded_frame_def encodable_def encodeFrame_eq
  length_frame_bytes length_frame_body defaultBufSize_def header_bytes_def FileMagic_def eofMarker_def make_chan_def

lemma ex_trace:
  "case rec_trace ex_ops ex_recorder of None \<Rightarrow> False | Some (acc, taken, n, r) \<Rightarrow>
      12 \<le> length (rec_file r) \<and> (\<forall>f \<in> set (recorded taken). length (frame_body f) \<le> maxFrameLen) \<and>
      rec_closed r \<and> \<not> rec_closing r \<and> rec_closeErr r = None \<and> map frame_view (recorded taken) = ex_views"
  by (auto simp: ex_eval maxFrameLen_def frame_view_def frame_au_def AccessUnit_zero_def ex_views_def)

lemma ex_timeline:
  "\<exists>tml. BuildTimeline [''rec'' \<mapsto> ex_file] ''rec'' = Some (Inr tml) \<and> map (entry_view [''rec'' \<mapsto> ex_file] tml) (tl_entries tml) = ex_views"
proof -
  obtain acc taken n r where tr: "rec_trace ex_ops ex_recorder = Some (acc, taken, n, r)" "rec_at acc taken n r"
    using rec_trace_at [OF conjunct1 [OF rec_at_New [OF ex_recorder_eq(1)]], of ex_ops] by auto
  then have "ex_file = rec_file r" by (simp add: ex_file_def)
  then show ?thesis using ex_trace rec_at_timeline [OF tr(2), of "[''rec'' \<mapsto> ex_file]" "''rec''"] unfolding tr(1) by auto
qed

section \<open>Properties\<close>

text \<open>C13. Whatever interleaving of publishers, the writer goroutine and \<open>Close\<close> a recorder goes through, and whatever
  writes to the disk fail: nothing panics, the AUs taken and still queued are exactly those accepted, in order, and the drop counter
  counts the refused ones modulo \<open>2^64\<close>. At any moment the file on disk can be indexed once its header is there: the
  timeline shows an initial part of the frames recorded, with every frame that is completely on disk, and reads back each
  payload. When \<open>Close\<close> has returned no error, it shows every accepted AU whose track name and kind fit their
  length fields. Frames longer than 64 MiB are excluded.\<close>

theorem recording_readback:
  assumes "NewFileRecorderDepth (Inr w) depth = Inr r0" "w_out w = []"
  shows "\<exists>acc taken n r. rec_trace ops r0 = Some (acc, taken, n, r) \<and> acc = map fst taken @ c_buf (rec_ch r) \<and> rec_dropped r = of_nat n \<and>
    (\<forall>fs path. fs path = Some (rec_file r) \<and> 12 \<le> length (rec_file r) \<and> (\<forall>f \<in> set (recorded taken). length (frame_body f) \<le> maxFrameLen) \<longrightarrow>
      (\<exists>m tml. BuildTimeline fs path = Some (Inr tml) \<and> map (entry_view fs tml) (tl_entries tml) = map frame_view (take m (recorded taken)) \<and>
        (\<forall>j \<le> length (recorded taken). 12 + length (concat (map frame_bytes (take j (recorded taken)))) \<le> length (rec_file r) \<longrightarrow> j \<le> m) \<and>
        (rec_closed r \<and> \<not> rec_closing r \<and> rec_closeErr r = None \<longrightarrow> take m (recorded taken) = recorded taken \<and> acc = map fst taken)))"
proof -
  obtain acc taken n r where tr: "rec_trace ops r0 = Some (acc, taken, n, r)" "rec_at acc taken n r"
    using rec_trace_at [OF conjunct1 [OF rec_at_New [OF assms]]] by fastforce
  show ?thesis
    by (rule exI [of _ acc], rule exI [of _ taken], rule exI [of _ n], rule exI [of _ r])
       (use tr rec_at_timeline [OF tr(2)] in \<open>simp add: rec_at_def\<close>)
qed

theorem recording_readback_witness:
  "\<exists>acc taken n r tml. rec_trace ex_ops ex_recorder = Some (acc, taken, n, r) \<and> acc = map fst taken \<and> rec_dropped r = 0 \<and>
    BuildTimeline [''rec'' \<mapsto> rec_file r] ''rec'' = Some (Inr tml) \<and>
    map (entry_view [''rec'' \<mapsto> rec_file r] tml) (tl_entries tml) = ex_views"
proof -
  have w: "w_out \<lparr>w_out = [], w_script = []\<rparr> = []" by simp
  obtain acc taken n r where tr: "rec_trace ex_ops ex_recorder = Some (acc, taken, n, r)" "rec_dropped r = of_nat n"
    and rb: "\<forall>fs path. fs path = Some (rec_file r) \<and> 12 \<le> length (rec_file r) \<and> (\<forall>f \<in> set (recorded taken). length (frame_body f) \<le> maxFrameLen) \<longrightarrow>
      (\<exists>m tml. BuildTimeline fs path = Some (Inr tml) \<and> map (entry_view fs tml) (tl_entries tml) = map frame_view (take m (recorded taken)) \<and>
        (\<forall>j \<le> length (recorded taken). 12 + length (concat (map frame_bytes (take j (recorded taken)))) \<le> length (rec_file r) \<longrightarrow> j \<le> m) \<and>
        (rec_closed r \<and> \<not> rec_closing r \<and> rec_closeErr r = None \<longrightarrow> take m (recorded taken) = recorded taken \<and> acc = map fst taken))"
    using recording_readback [OF ex_recorder_eq(1) w, of ex_ops] by (elim exE conjE)
  have ev: "12 \<le> length (rec_file r)" "\<forall>f \<in> set (recorded taken). length (frame_body f) \<le> maxFrameLen"
    "rec_closed r \<and> \<not> rec_closing r \<and> rec_closeErr r = None" "map frame_view (recorded taken) = ex_views"
    using ex_trace unfolding tr(1) option.case prod.case by blast+
  have "case rec_trace ex_ops ex_recorder of None \<Rightarrow> False | Some (acc, taken, n, r) \<Rightarrow> n = 0" by (simp add: ex_eval)
  then have n: "n = 0" unfolding tr(1) by simp
  have path: "[''rec'' \<mapsto> rec_file r] ''rec'' = Some (rec_file r)" by simp
  from rb [THEN spec [of _ "[''rec'' \<mapsto> rec_file r]"], THEN spec [of _ "''rec''"], THEN mp, OF conjI [OF path conjI [OF ev(1,2)]]] obtain m tml where
    "BuildTimeline [''rec'' \<mapsto> rec_file r] ''rec'' = Some (Inr tml)"
    "map (entry_view [''rec'' \<mapsto> rec_file r] tml) (tl_entries tml) = map frame_view (take m (recorded taken))"
    "take m (recorded taken) = recorded taken" "acc = map fst taken"
    using ev(3) by blast
  then show ?thesis using tr n ev(4) by (intro exI [of _ acc] exI [of _ taken] exI [of _ n] exI [of _ r] exI [of _ tml]) simp
qed

text \<open>C23. Indexing terminates on every file, however corrupt. When it succeeds, the index is sound: its offsets
  ascend, its frames take at least 32 bytes each beside their payload and fit in the file, and every entry can be
  read back as an AU with the entry's metadata and payload length.\<close>

theorem BuildTimeline_terminates:
  "\<exists>res. BuildTimeline fs path = Some res \<and>
    (\<forall>tml. res = Inr tml \<longrightarrow>
      (\<exists>f. fs path = Some f \<and> 12 + (\<Sum>e\<leftarrow>tl_entries tml. 32 + en_PayloadLen e) \<le> length f) \<and>
      sorted_wrt (<) (map en_Offset (tl_entries tml)) \<and> (\<forall>e \<in> set (tl_entries tml). faithful fs tml e))"
proof (cases "\<exists>f rest. fs path = Some f \<and> readHeader f = Inr rest")
  case True
  then obtain f rest gs e where f: "fs path = Some f" "readHeader f = Inr rest" "frames_in rest = (gs, e)" by fastforce
  consider "BuildTimeline fs path = Some (Inl e)"
    | es where "BuildTimeline fs path = Some (Inr \<lparr>tl_path = path, tl_entries = es\<rparr>)" "list_all2 (indexed 0 f) es gs"
      "sorted_wrt (<) (map en_Offset es)" "12 + (\<Sum>x\<leftarrow>es. 32 + en_PayloadLen x) \<le> length f"
    using BuildTimeline_frames [of fs path, OF f] by blast
  then show ?thesis
  proof cases
    case (2 es)
    have "faithful fs \<lparr>tl_path = path, tl_entries = es\<rparr> x" if x: "x \<in> set es" for x
    proof -
      obtain i where i: "i < length es" "x = es ! i" using x by (auto simp: in_set_conv_nth)
      have "indexed 0 f x (gs ! i)" using list_all2_nthD [OF 2(2) i(1)] i(2) by simp
      then show ?thesis using indexed_faithful [of f x "gs ! i" fs "\<lparr>tl_path = path, tl_entries = es\<rparr>"] f(1) by simp
    qed
    then show ?thesis using 2 f(1) by simp
  qed simp
next
  case False
  then have "\<exists>e. BuildTimeline fs path = Some (Inl e)" by (auto simp: BuildTimeline_def os_Open_def split: option.splits sum.splits)
  then show ?thesis by auto
qed

theorem BuildTimeline_terminates_witness:
  "\<exists>tml e f. BuildTimeline [''rec'' \<mapsto> ex_file] ''rec'' = Some (Inr tml) \<and> length (tl_entries tml) = 2 \<and> e = tl_entries tml ! 1 \<and>
    faithful [''rec'' \<mapsto> ex_file] tml e \<and> f = ex_file \<and> 12 + (\<Sum>e\<leftarrow>tl_entries tml. 32 + en_PayloadLen e) \<le> length f"
proof -
  obtain tml where tml: "BuildTimeline [''rec'' \<mapsto> ex_file] ''rec'' = Some (Inr tml)"
    "map (entry_view [''rec'' \<mapsto> ex_file] tml) (tl_entries tml) = ex_views" using ex_timeline by blast
  have "length (tl_entries tml) = length ex_views" using tml(2) by (metis length_map)
  then have "length (tl_entries tml) = 2" by (simp add: ex_views_def)
  then show ?thesis using BuildTimeline_terminates [of "[''rec'' \<mapsto> ex_file]" "''rec''"] tml(1) by simp
qed

text \<open>C30. The replayer agrees with the timeline. For every recording that can be indexed, every pace, every
  cancellation and every callback, \<open>PublishInto\<close> returns and has called back with an initial part of the timeline's frames in
  file order, each once with its payload; with all of them when it returns no error, which is so unless the context
  or the callback fails.\<close>

theorem PublishInto_timeline:
  assumes "Replayer_Open fs path = Inr r" "BuildTimeline fs path = Some (Inr tml)"
  shows "\<exists>res st new r'. PublishInto speed env startWall (logged route) r (st0, []) = Some (res, (st, new), r') \<and>
    prefix (map replay_view new) (map (entry_view fs tml) (tl_entries tml)) \<and>
    (res = None \<longrightarrow> map replay_view new = map (entry_view fs tml) (tl_entries tml)) \<and>
    (uncancelled env \<and> (\<forall>f st. fst (route f st) = None) \<longrightarrow> res = None)"
proof -
  obtain f rest where f: "fs path = Some f" "readHeader f = Inr rest" "r = \<lparr>rp_br = rest\<rparr>"
    using assms(1) by (auto simp: Replayer_Open_def bindE_Inr_iff os_Open_def split: option.splits)
  obtain gs e where gs: "frames_in rest = (gs, e)" by fastforce
  have tml: "tl_path tml = path" "eof_error e" "list_all2 (indexed 0 f) (tl_entries tml) gs"
    using BuildTimeline_frames [of fs path, OF f(1,2) gs] assms(2) by auto
  have "map (entry_view fs tml) (tl_entries tml) = map frame_view gs" using indexed_views [of f _ gs fs tml] tml f(1) by simp
  moreover have "map replay_view (map replay_frame gs) = map frame_view gs" by (simp add: replay_view_frame)
  moreover obtain res st new r' where "publish_loop speed env startWall (logged route) 0 0 r (st0, []) = Some (res, (st, new), r')"
    "prefix new (map replay_frame gs)" "res = None \<longrightarrow> new = map replay_frame gs \<and> eof_error e"
    "uncancelled env \<and> (\<forall>f st. fst (route f st) = None) \<longrightarrow> new = map replay_frame gs \<and> res = (if eof_error e then None else Some e)"
    using publish_loop_read_loop [OF frames_in_loop [OF gs], of speed env startWall route 0 0 st0 "[]"] unfolding f(3) append_Nil by blast
  ultimately show ?thesis unfolding PublishInto_def using tml(2) by (metis map_mono_prefix)
qed

theorem PublishInto_timeline_witness:
  "\<exists>r new r'. Replayer_Open [''rec'' \<mapsto> ex_file] ''rec'' = Inr r \<and>
    PublishInto None (\<lambda>_. \<lparr>pe_ctxErr = None, pe_now = 0, pe_waitErr = None\<rparr>) 0 (logged (\<lambda>f st. (None, st))) r ((), []) = Some (None, ((), new), r') \<and>
    map replay_view new = ex_views"
proof -
  obtain tml where tml: "BuildTimeline [''rec'' \<mapsto> ex_file] ''rec'' = Some (Inr tml)"
    "map (entry_view [''rec'' \<mapsto> ex_file] tml) (tl_entries tml) = ex_views" using ex_timeline by blast
  obtain r where r: "Replayer_Open [''rec'' \<mapsto> ex_file] ''rec'' = Inr r"
    using tml(1) by (auto simp: BuildTimeline_def Replayer_Open_def os_Open_def split: sum.splits)
  show ?thesis
    using PublishInto_timeline [OF r tml(1), of None "\<lambda>_. \<lparr>pe_ctxErr = None, pe_now = 0, pe_waitErr = None\<rparr>" 0 "\<lambda>f st. (None, st)" "()"] r tml(2)
    by (auto simp: uncancelled_def)
qed

text \<open>What the timeline answers. \<open>Frames\<close> is the stable sort by capture time, then track name, then sequence
  number. \<open>SeekSnapshot\<close> gives for each lane the first entry with the greatest capture time and sequence number
  among those captured no later than asked. \<open>Tracks\<close> lists every lane once.\<close>

theorem timeline_queries:
  "Frames tml = sort_key frames_key (tl_entries tml) \<and>
   (SeekSnapshot tml m ln = Some e \<longleftrightarrow>
      first_max (filter (\<lambda>e. lane_of e = ln \<and> sint (en_CapturedAtMicros e) \<le> sint m) (tl_entries tml)) e) \<and>
   distinct (Tracks tml) \<and> set (Tracks tml) = lane_of ` set (tl_entries tml)"
  using tracks_of_set [of "[]" "tl_entries tml"] by (simp add: Frames_sort SeekSnapshot_first_max Tracks_def)

end
