(* ===== verification/Client_Stats.thy ===== *)
theory Client_Stats
  imports Wire_Hello Complex_Main
begin

text \<open>
  The subscriber's receive statistics (\<^verbatim>\<open>client/kindstats.go\<close>): per kind the last sequence number, the number of
  missed ones and a window of latencies, drained once per second into \<^verbatim>\<open>KindStats\<close> messages. The \<^verbatim>\<open>float64\<close>
  latencies are exact rationals, so rounding is not modelled; a Go map is an association list.
\<close>

definition kindStatsInterval :: int where "kindStatsInterval = 1000000000"
definition kindStatsMaxSamples :: nat where "kindStatsMaxSamples = 4096"

record kindAccumulator =
  ka_latMs :: "rat list"
  ka_lastSeq :: "32 word"
  ka_haveSeq :: bool
  ka_dropped :: "64 word"

type_synonym kindStatsCollector = "(string \<times> kindAccumulator) list"

definition newKindStatsCollector :: kindStatsCollector where
  "newKindStatsCollector = []"

definition kindAccumulator_zero :: kindAccumulator where
  "kindAccumulator_zero = \<lparr>ka_latMs = [], ka_lastSeq = 0, ka_haveSeq = False, ka_dropped = 0\<rparr>"

definition accumulate :: "32 word \<Rightarrow> 64 word \<Rightarrow> 64 word \<Rightarrow> kindAccumulator \<Rightarrow> kindAccumulator" where
  "accumulate seq pubWallMicro recvWallMicro a =
     (let a1 = (if ka_haveSeq a \<and> seq > ka_lastSeq a + 1
                then a\<lparr>ka_dropped := ka_dropped a + ucast (seq - ka_lastSeq a - 1)\<rparr> else a);
          a2 = (if \<not> ka_haveSeq a1 \<or> seq > ka_lastSeq a1 then a1\<lparr>ka_lastSeq := seq, ka_haveSeq := True\<rparr> else a1) in
      if pubWallMicro \<noteq> 0 \<and> recvWallMicro \<ge> pubWallMicro \<and> length (ka_latMs a2) < kindStatsMaxSamples
      then a2\<lparr>ka_latMs := ka_latMs a2 @ [of_nat (unat (recvWallMicro - pubWallMicro)) / 1000]\<rparr> else a2)"

definition observe :: "string \<Rightarrow> 32 word \<Rightarrow> 64 word \<Rightarrow> 64 word \<Rightarrow> kindStatsCollector \<Rightarrow> kindStatsCollector" where
  "observe kind seq pubWallMicro recvWallMicro k =
     (let a = (case map_of k kind of None \<Rightarrow> kindAccumulator_zero | Some a \<Rightarrow> a) in
      (kind, accumulate seq pubWallMicro recvWallMicro a) # filter (\<lambda>p. fst p \<noteq> kind) k)"

text \<open>\<open>None\<close> is the index panic on an empty slice.\<close>

definition percentile :: "rat list \<Rightarrow> rat \<Rightarrow> rat option" where
  "percentile xs p =
     (if length xs = 1 then Some (xs ! 0)
      else
        let idx = \<lfloor>p * of_int (int (length xs) - 1) + 1 / 2\<rfloor>;
            idx = (if idx < 0 then 0 else idx);
            idx = (if idx \<ge> int (length xs) then int (length xs) - 1 else idx) in
        if 0 \<le> idx \<and> idx < int (length xs) then Some (xs ! nat idx) else None)"

definition round_ms :: "rat option \<Rightarrow> 32 word" where
  "round_ms x = (case x of None \<Rightarrow> 0 | Some v \<Rightarrow> of_int \<lfloor>v + 1 / 2\<rfloor>)"

definition snapshot_kind :: "string \<times> kindAccumulator \<Rightarrow> KindStats \<times> string \<times> kindAccumulator" where
  "snapshot_kind p =
     (let (kind, a) = p; lat = sort (ka_latMs a);
          ks = \<lparr>ks_Kind = kind, ks_LastSeq = ka_lastSeq a, ks_RecvP50Ms = 0, ks_RecvP99Ms = 0, ks_Dropped = ka_dropped a\<rparr> in
      if lat \<noteq> []
      then (ks\<lparr>ks_RecvP50Ms := round_ms (percentile lat (1 / 2)), ks_RecvP99Ms := round_ms (percentile lat (99 / 100))\<rparr>,
            kind, a\<lparr>ka_latMs := []\<rparr>)
      else (ks, kind, a))"

definition snapshot :: "kindStatsCollector \<Rightarrow> KindStats list \<times> kindStatsCollector" where
  "snapshot k = (map (fst \<circ> snapshot_kind) k, map (snd \<circ> snapshot_kind) k)"

section \<open>Sequence numbers\<close>

text \<open>Observations of every kind, in order: kind, sequence number, publish and receive time.\<close>

type_synonym observation = "string \<times> 32 word \<times> 64 word \<times> 64 word"

fun observe_all :: "observation list \<Rightarrow> kindStatsCollector \<Rightarrow> kindStatsCollector" where
  "observe_all [] k = k"
| "observe_all ((kind, seq, pub, recv) # os) k = observe_all os (observe kind seq pub recv k)"

definition seqs_of :: "string \<Rightarrow> observation list \<Rightarrow> 32 word list" where
  "seqs_of kind os = map (fst \<circ> snd) (filter (\<lambda>x. fst x = kind) os)"

text \<open>How often a new greatest sequence number was seen.\<close>

fun records :: "32 word \<Rightarrow> 32 word list \<Rightarrow> nat" where
  "records m [] = 0"
| "records m (x # xs) = (if m < x then Suc (records x xs) else records m xs)"

lemma observe_map_of:
  "map_of (observe kind seq pub recv k) n =
     (if n = kind then Some (accumulate seq pub recv (case map_of k kind of None \<Rightarrow> kindAccumulator_zero | Some a \<Rightarrow> a))
      else map_of k n)"
proof -
  have "map_of (filter (\<lambda>p. fst p \<noteq> kind) k) n = map_of k n" if "n \<noteq> kind"
    using that by (induction k) auto
  then show ?thesis by (simp add: observe_def Let_def)
qed

lemma gap_unat:
  fixes m x :: "32 word"
  assumes "m < x"
  shows "unat (ucast (x - m - 1) :: 64 word) + 1 = unat x - unat m"
proof -
  have "unat (x - m) = unat x - unat m" using assms by (simp add: unat_sub)
  moreover have "unat (x - m) > 0" using assms by (simp add: calculation word_less_nat_alt)
  ultimately have "unat (x - m - 1) = unat x - unat m - 1" by (metis One_nat_def Suc_leI unat_minus_one unat_eq_zero less_numeral_extra(3))
  moreover have "unat (ucast (x - m - 1) :: 64 word) = unat (x - m - 1)"
    using unsigned_less [of "x - m - 1", where 'a = nat] by (simp add: unsigned_ucast_eq take_bit_nat_eq_self)
  moreover have "unat m < unat x" using assms by (simp add: word_less_nat_alt)
  ultimately show ?thesis by simp
qed

text \<open>\<open>counted x n a\<close>: the first sequence number was \<open>x\<close>, and \<open>n\<close> times a greater one than all before was seen.\<close>

definition counted :: "32 word \<Rightarrow> nat \<Rightarrow> kindAccumulator \<Rightarrow> bool" where
  "counted x n a \<longleftrightarrow> ka_haveSeq a \<and> x \<le> ka_lastSeq a \<and> unat (ka_dropped a) + n = unat (ka_lastSeq a) - unat x"

lemma accumulate_sel:
  "ka_haveSeq (accumulate seq pub recv a)"
  "ka_lastSeq (accumulate seq pub recv a) = (if ka_haveSeq a then max (ka_lastSeq a) seq else seq)"
  "ka_dropped (accumulate seq pub recv a) =
     (if ka_haveSeq a \<and> seq > ka_lastSeq a + 1 then ka_dropped a + ucast (seq - ka_lastSeq a - 1) else ka_dropped a)"
  "ka_latMs (accumulate seq pub recv a) =
     (if pub \<noteq> 0 \<and> pub \<le> recv \<and> length (ka_latMs a) < kindStatsMaxSamples
      then ka_latMs a @ [of_nat (unat (recv - pub)) / 1000] else ka_latMs a)"
  by (auto simp: accumulate_def Let_def max_def)

lemma counted_accumulate:
  assumes "counted x n a" "ka_lastSeq a \<noteq> - 1"
  shows "counted x (if ka_lastSeq a < seq then Suc n else n) (accumulate seq pub recv a)"
proof -
  define m where "m = ka_lastSeq a"
  have a: "ka_haveSeq a" "x \<le> m" "unat (ka_dropped a) + n = unat m - unat x" using assms(1) by (simp_all add: counted_def m_def)
  have m1: "unat (m + 1) = unat m + 1" using assms(2) m_def unatSuc [of m] by (metis Suc_eq_plus1 add.commute add_uminus_conv_diff diff_0 eq_iff_diff_eq_0 add_eq_0_iff)
  show ?thesis
  proof (cases "m < seq")
    case False
    then have "\<not> seq > m + 1" using m1 by (auto simp: word_less_nat_alt)
    then show ?thesis using a False by (simp add: counted_def accumulate_sel m_def [symmetric] max_def)
  next
    case True
    define g where "g = (ucast (seq - m - 1) :: 64 word)"
    have g: "unat g + 1 = unat seq - unat m" unfolding g_def by (rule gap_unat [OF True])
    have lt: "unat m < unat seq" "unat seq < 2 ^ 32" using True unsigned_less [of seq, where 'a = nat] by (simp_all add: word_less_nat_alt)
    have "unat (ka_dropped a) + unat g < 2 ^ 64" using a(3) g lt by simp
    then have sum: "unat (ka_dropped a + g) = unat (ka_dropped a) + unat g" by (simp add: unat_add_lem [symmetric])
    have "seq > m + 1 \<or> g = 0"
    proof (cases "g = 0")
      case False
      then have "unat g \<noteq> 0" by (simp add: unat_eq_zero)
      then show ?thesis using g lt m1 unfolding word_less_nat_alt by linarith
    qed simp
    then have "unat (ka_dropped (accumulate seq pub recv a)) = unat (ka_dropped a) + unat g"
      using a(1) sum m1 True by (auto simp: accumulate_sel m_def [symmetric] g_def [symmetric])
    then show ?thesis using a g lt True by (simp add: counted_def accumulate_sel m_def [symmetric] max_def word_le_nat_alt)
  qed
qed

lemma counted_seqs:
  assumes "- 1 \<notin> set (seqs_of kind os)"
  shows "case map_of k kind of
      Some a \<Rightarrow> counted x n a \<and> ka_lastSeq a \<noteq> - 1 \<longrightarrow>
        (\<exists>b. map_of (observe_all os k) kind = Some b \<and> ka_lastSeq b = fold max (seqs_of kind os) (ka_lastSeq a) \<and>
          counted x (n + records (ka_lastSeq a) (seqs_of kind os)) b)
    | None \<Rightarrow> True"
  using assms
proof (induction os arbitrary: k n)
  case (Cons ob os)
  obtain kd seq pub recv where ob: "ob = (kd, seq, pub, recv)" by (metis prod_cases4)
  show ?case
  proof (cases "map_of k kind")
    case (Some a)
    show ?thesis
    proof (cases "kd = kind")
      case False
      then show ?thesis using Cons.IH [where k = "observe kd seq pub recv k" and n = n] Cons.prems Some ob by (simp add: observe_map_of seqs_of_def)
    next
      case True
      define a' where "a' = accumulate seq pub recv a"
      have k': "map_of (observe kd seq pub recv k) kind = Some a'" using Some True by (simp add: observe_map_of a'_def)
      have "seq \<noteq> - 1" using Cons.prems ob True by (auto simp: seqs_of_def)
      then show ?thesis
        using Cons.IH [where k = "observe kd seq pub recv k" and n = "if ka_lastSeq a < seq then Suc n else n"] Cons.prems Some k' ob True
          counted_accumulate [of x n a seq pub recv]
        by (auto simp: seqs_of_def a'_def accumulate_sel counted_def max_def split: if_splits)
    qed
  qed simp
qed (simp add: seqs_of_def split: option.split)

lemma observe_distinct: "distinct (map fst k) \<Longrightarrow> distinct (map fst (observe kind seq pub recv k))"
  by (auto simp: observe_def Let_def distinct_map intro: inj_on_subset)

lemma observe_all_distinct: "distinct (map fst k) \<Longrightarrow> distinct (map fst (observe_all os k))"
  by (induction os k rule: observe_all.induct) (simp_all add: observe_distinct)

text \<open>The first observation of a kind, then the others.\<close>

lemma observe_all_counted:
  assumes "- 1 \<notin> set (seqs_of kind os)" "seqs_of kind os = x # xs" "map_of k kind = None"
  shows "\<exists>b. map_of (observe_all os k) kind = Some b \<and> ka_lastSeq b = fold max xs x \<and> counted x (records x xs) b"
  using assms
proof (induction os arbitrary: k)
  case (Cons ob os)
  obtain kd seq pub recv where ob: "ob = (kd, seq, pub, recv)" by (metis prod_cases4)
  show ?case
  proof (cases "kd = kind")
    case False
    then show ?thesis using Cons ob by (simp add: observe_map_of seqs_of_def)
  next
    case True
    define a where "a = accumulate seq pub recv kindAccumulator_zero"
    have k': "map_of (observe kd seq pub recv k) kind = Some a" using Cons.prems(3) True by (simp add: observe_map_of a_def)
    have sx: "seq = x" "seqs_of kind os = xs" using Cons.prems(2) ob True by (simp_all add: seqs_of_def)
    have "counted x 0 a \<and> ka_lastSeq a = x" using sx by (simp add: counted_def a_def accumulate_sel kindAccumulator_zero_def)
    moreover have "x \<noteq> - 1" "- 1 \<notin> set (seqs_of kind os)" using Cons.prems(1) ob True sx(1) by (auto simp: seqs_of_def)
    ultimately show ?thesis using counted_seqs [of kind os, where k = "observe kd seq pub recv k" and x = x and n = 0] k' ob sx(2) by simp
  qed
qed (simp add: seqs_of_def)

lemma records_ascending: "sorted_wrt (<) (m # xs) \<Longrightarrow> records m xs = length xs"
  by (induction xs arbitrary: m) auto

lemma missing_card:
  fixes x :: "32 word"
  assumes "sorted_wrt (<) (x # xs)" "hi = fold max xs x"
  shows "card ({unat x..unat hi} - unat ` set (x # xs)) = unat hi - unat x - length xs"
proof -
  have "hi = Max (set (x # xs))" unfolding assms(2) by (rule Max.set_eq_fold [symmetric])
  then have le: "y \<le> hi" if "y \<in> set (x # xs)" for y using that by simp
  have "x \<le> y" if "y \<in> set (x # xs)" for y using that assms(1) by auto
  then have "unat ` set (x # xs) \<subseteq> {unat x..unat hi}" using le by (auto simp: word_le_nat_alt)
  moreover have "card (unat ` set (x # xs)) = length (x # xs)"
  proof -
    have "inj_on (unat :: 32 word \<Rightarrow> nat) (set (x # xs))" by (rule inj_onI) (rule unsigned_word_eqI)
    moreover have "distinct (x # xs)" using assms(1) strict_sorted_iff by blast
    ultimately show ?thesis by (metis card_image distinct_card)
  qed
  ultimately show ?thesis by (simp add: card_Diff_subset)
qed

section \<open>Percentiles\<close>

lemma percentile_index:
  assumes "xs \<noteq> []" "0 \<le> p" "p \<le> 1"
  shows "nat \<lfloor>p * of_int (int (length xs) - 1) + 1 / 2\<rfloor> < length xs \<and>
    percentile xs p = Some (xs ! nat \<lfloor>p * of_int (int (length xs) - 1) + 1 / 2\<rfloor>)"
proof -
  define n where "n = (of_int (int (length xs) - 1) :: rat)"
  have n: "0 \<le> n" using assms(1) by (cases xs) (simp_all add: n_def)
  then have "0 \<le> p * n" "p * n \<le> n" using assms(2,3) by (simp_all add: mult_left_le_one_le)
  then have lo: "0 \<le> \<lfloor>p * n + 1 / 2\<rfloor>" and "p * n + 1 / 2 < of_int (int (length xs))" by (simp_all add: n_def)
  then have hi: "\<lfloor>p * n + 1 / 2\<rfloor> < int (length xs)" by (simp add: floor_less_iff)
  define j where "j = \<lfloor>p * n + 1 / 2\<rfloor>"
  have "percentile xs p = (if length xs = 1 then Some (xs ! 0)
      else let idx = (if j < 0 then 0 else j); idx = (if idx \<ge> int (length xs) then int (length xs) - 1 else idx) in
        if 0 \<le> idx \<and> idx < int (length xs) then Some (xs ! nat idx) else None)"
    unfolding percentile_def j_def n_def Let_def by (rule refl)
  moreover have "0 \<le> j" "j < int (length xs)" using lo hi by (simp_all only: j_def)
  ultimately have "nat j < length xs \<and> percentile xs p = Some (xs ! nat j)" by (cases "j = 0") (auto simp: Let_def)
  then show ?thesis by (simp only: j_def n_def)
qed

lemma percentile_mono:
  assumes "xs \<noteq> []" "sorted xs" "0 \<le> p" "p \<le> q" "q \<le> 1"
  shows "\<exists>u v. percentile xs p = Some u \<and> percentile xs q = Some v \<and> u \<in> set xs \<and> v \<in> set xs \<and> u \<le> v"
proof -
  define n where "n = (of_int (int (length xs) - 1) :: rat)"
  have "0 \<le> n" using assms(1) by (cases xs) (simp_all add: n_def)
  then have "\<lfloor>p * n + 1 / 2\<rfloor> \<le> \<lfloor>q * n + 1 / 2\<rfloor>" using assms(4) by (intro floor_mono) (simp add: mult_right_mono)
  then have "nat \<lfloor>p * n + 1 / 2\<rfloor> \<le> nat \<lfloor>q * n + 1 / 2\<rfloor>" by simp
  then show ?thesis using percentile_index [of xs p] percentile_index [of xs q] assms
    unfolding n_def [symmetric] by (auto intro: sorted_nth_mono)
qed

section \<open>Properties\<close>

definition ks_from :: "kindStatsCollector \<Rightarrow> string \<Rightarrow> KindStats list" where
  "ks_from k kind = filter (\<lambda>ks. ks_Kind ks = kind) (fst (snapshot k))"

lemma snapshot_kind_sel:
  "ks_Kind (fst (snapshot_kind (kind, a))) = kind" "ks_LastSeq (fst (snapshot_kind (kind, a))) = ka_lastSeq a"
  "ks_Dropped (fst (snapshot_kind (kind, a))) = ka_dropped a"
  by (simp_all add: snapshot_kind_def Let_def)

lemma ks_from_single:
  assumes "distinct (map fst k)" "map_of k kind = Some a"
  shows "ks_from k kind = [fst (snapshot_kind (kind, a))]"
proof -
  have "(\<lambda>p. ks_Kind (fst (snapshot_kind p)) = kind) = (\<lambda>p. fst p = kind)" by (rule ext) (metis prod.collapse snapshot_kind_sel(1))
  then have "ks_from k kind = map (fst \<circ> snapshot_kind) (filter (\<lambda>p. fst p = kind) k)"
    by (simp add: ks_from_def snapshot_def filter_map comp_def)
  moreover have "filter (\<lambda>p. fst p = kind) k = [(kind, a)]" using assms
  proof (induction k)
    case (Cons p k)
    have "filter (\<lambda>p. fst p = kind) k = []" if "fst p = kind" using that Cons.prems(1) by (metis (mono_tags, lifting) distinct.simps(2) filter_empty_conv image_eqI list.simps(9) set_map)
    then show ?case using Cons by (cases p) auto
  qed simp
  ultimately show ?thesis by simp
qed

text \<open>C35. What a subscriber reports of a kind, whatever AUs of this and of other kinds arrived in between and in
  whatever order: exactly one message, with the greatest sequence number seen; and the missed count is the range from the first to the greatest
  sequence number less the times a new greatest one arrived. When they arrive in ascending order it is the number of
  sequence numbers in the range that did not arrive. The greatest 32-bit sequence number is excluded.\<close>

theorem kind_stats_drops:
  assumes "seqs_of kind os = x # xs" "- 1 \<notin> set (x # xs)"
  shows "\<exists>ks. ks_from (observe_all os newKindStatsCollector) kind = [ks] \<and> ks_LastSeq ks = Max (set (x # xs)) \<and>
    unat (ks_Dropped ks) + records x xs = unat (ks_LastSeq ks) - unat x \<and>
    (sorted_wrt (<) (x # xs) \<longrightarrow>
      unat (ks_Dropped ks) = card ({unat x..unat (ks_LastSeq ks)} - unat ` set (x # xs)))"
proof -
  obtain b where b: "map_of (observe_all os []) kind = Some b" "ka_lastSeq b = fold max xs x" "counted x (records x xs) b"
    using observe_all_counted [of kind os x xs "[]"] assms by auto
  define ks where "ks = fst (snapshot_kind (kind, b))"
  have "ks_from (observe_all os newKindStatsCollector) kind = [ks]"
    using ks_from_single [OF observe_all_distinct b(1)] by (simp add: ks_def newKindStatsCollector_def)
  moreover have last: "ks_LastSeq ks = fold max xs x" "ks_Dropped ks = ka_dropped b" using b(2) by (simp_all add: ks_def snapshot_kind_sel)
  moreover have n: "unat (ka_dropped b) + records x xs = unat (fold max xs x) - unat x" using b(2,3) by (simp add: counted_def)
  moreover have "unat (ka_dropped b) = card ({unat x..unat (fold max xs x)} - unat ` set (x # xs))" if "sorted_wrt (<) (x # xs)"
    using missing_card [OF that refl] records_ascending [OF that] n by simp
  ultimately show ?thesis using Max.set_eq_fold [of x xs] by auto
qed

theorem kind_stats_drops_witness:
  "\<exists>ks. ks_from (observe_all [(''v'', 3, 0, 0), (''a'', 9, 0, 0), (''v'', 6, 0, 0)] newKindStatsCollector) ''v'' = [ks] \<and>
    ks_LastSeq ks = 6 \<and> unat (ks_Dropped ks) = 2"
proof -
  have "card ({3..6} - {3, 6 :: nat}) = 2" by (simp add: card_Diff_subset)
  then show ?thesis
    using kind_stats_drops [of "''v''" "[(''v'', 3, 0, 0), (''a'', 9, 0, 0), (''v'', 6, 0, 0)]" 3 "[6]"] by (auto simp: seqs_of_def)
qed

text \<open>After the greatest sequence number every further AU of the kind adds its own number to the missed count.\<close>

lemma stats_after_wrap:
  assumes "ka_haveSeq a" "ka_lastSeq a = - 1" "0 < seq"
  shows "ka_lastSeq (accumulate seq pub recv a) = - 1 \<and> ka_dropped (accumulate seq pub recv a) = ka_dropped a + ucast seq"
  using assms by (auto simp: accumulate_sel max_def word_order.extremum_unique)

end
