(* ===== verification/Client.thy ===== *)
theory Client
  imports Client_Stats Datachannel Feed_Pump Pubsub_Broadcaster
begin

text \<open>
  The subscriber (\<^verbatim>\<open>client/client.go\<close>): dialling, the handshake, the control reader, the goroutines that drain feed
  and call streams into per-track queues, blocking receives, and tracks published back to the server. Queues and done channels are
  shared by pointer, so they live in lists and the maps hold indices. An operation is what one goroutine
  does between two points where others may run; it may block, panic or take a step. JSON is an argument.
\<close>

section \<open>Dialling\<close>

record Options =
  co_CertHashB64URL :: string
  co_InsecureSkipVerify :: bool
  co_Slug :: string
  co_HelloTimeout :: int
  co_SessionID :: string
  co_LastSeenSeq :: "(string \<times> 32 word) list"
  co_Features :: "string list option"
  co_DataInboundBuffer :: int

definition DefaultClientFeatures :: "string list" where
  "DefaultClientFeatures = [''resume'', ''backpressure'', ''publishback'', ''stream-header'', ''kind-stats'']"

text \<open>\<^verbatim>\<open>strings.Split\<close> and \<^verbatim>\<open>strings.Cut\<close> for a separator of one character.\<close>

fun split_char :: "char \<Rightarrow> string \<Rightarrow> string list" where
  "split_char d [] = [[]]"
| "split_char d (c # cs) = (if c = d then [] # split_char d cs else (case split_char d cs of [] \<Rightarrow> [[c]] | w # ws \<Rightarrow> (c # w) # ws))"

definition cut_char :: "char \<Rightarrow> string \<Rightarrow> (string \<times> string) option" where
  "cut_char d s = (if d \<in> set s then Some (takeWhile (\<lambda>c. c \<noteq> d) s, tl (dropWhile (\<lambda>c. c \<noteq> d) s)) else None)"

definition fragment_pair :: "string \<Rightarrow> string \<times> string \<Rightarrow> string \<times> string" where
  "fragment_pair kv sh =
     (let (slug, hash) = sh in
      case cut_char (CHR ''='') kv of
        None \<Rightarrow> (slug, hash)
      | Some (k, v) \<Rightarrow>
          if k = ''slug'' then (if slug = [] then v else slug, hash)
          else if k = ''hash'' then (slug, if hash = [] then v else hash)
          else (slug, hash))"

text \<open>The outcome of \<^verbatim>\<open>url.Parse\<close> is an argument: an error, or the address without its fragment, and the fragment.\<close>

definition parseURL :: "go_error + string \<times> string \<Rightarrow> string \<Rightarrow> string \<Rightarrow> go_error + string \<times> string \<times> string" where
  "parseURL parsed optsSlug optsHash =
     bindE parsed (\<lambda>(u, fragment).
       let (slug, hash) = (if fragment \<noteq> [] then fold fragment_pair (split_char (CHR ''&'') fragment) (optsSlug, optsHash)
                           else (optsSlug, optsHash)) in
       if slug = [] then Inl (ErrOther ''missing slug'') else Inr (u, slug, hash))"

definition subtleEqual :: "bytes \<Rightarrow> bytes \<Rightarrow> bool" where
  "subtleEqual a b \<longleftrightarrow>
     (if length a \<noteq> length b then False else fold (\<lambda>(x, y) diff. diff OR (x XOR y)) (zip a b) 0 = (0 :: byte))"

text \<open>The check of a pinned certificate; \<open>sha\<close> is SHA-256. \<open>None\<close> accepts.\<close>

fun checkPin :: "(bytes \<Rightarrow> bytes) \<Rightarrow> bytes \<Rightarrow> bytes list \<Rightarrow> go_error option" where
  "checkPin sha want [] = Some (ErrOther ''cert hash mismatch'')"
| "checkPin sha want (c # certs) = (if subtleEqual (sha c) want then None else checkPin sha want certs)"

text \<open>What \<open>Dial\<close> demands of the server's certificates: \<open>Inl\<close> is an error before dialling, \<open>Inr None\<close> leaves
  verification to the system's trust store. \<open>b64\<close> decodes base64url.\<close>

definition dial_verify ::
    "(string \<Rightarrow> bytes option) \<Rightarrow> (bytes \<Rightarrow> bytes) \<Rightarrow> Options \<Rightarrow> string \<Rightarrow> go_error + (bytes list \<Rightarrow> go_error option) option" where
  "dial_verify b64 sha opts hash =
     (if co_InsecureSkipVerify opts then Inr (Some (\<lambda>_. None))
      else if hash \<noteq> [] then
        (case b64 hash of
           None \<Rightarrow> Inl (ErrOther ''bad cert hash'')
         | Some want \<Rightarrow> if length want \<noteq> 32 then Inl (ErrOther ''bad cert hash'') else Inr (Some (checkPin sha want)))
      else Inr None)"

definition dial_timeout :: "Options \<Rightarrow> int" where
  "dial_timeout opts = (if co_HelloTimeout opts \<le> 0 then 5 * 1000000000 else co_HelloTimeout opts)"

section \<open>State\<close>

text \<open>A queue with the track it was made for.\<close>

record recvQueue =
  rq_name :: string
  rq_ch :: "AccessUnit chan"

text \<open>A call of \<open>RecvOn\<close>: it looks up the queue, then the done channel, waits, and returns.\<close>

datatype recv_result = RecvAU AccessUnit | RecvErr "go_error option"

datatype call_phase = CallChan nat | CallWait nat nat | CallReturned nat recv_result

record recv_call =
  cc_name :: string
  cc_phase :: call_phase

text \<open>A goroutine that drains a stream. \<open>cs_content\<close> is what the peer sent on it, \<open>cs_src\<close> what its reader has still to
  deliver, and \<open>cs_fin\<close> that the goroutine closed its send half.\<close>

datatype stream_phase =
    SOpen
  | SName string
  | SKind string nat
  | SLoop nat string
  | SSend nat string AccessUnit
  | SEnd

record client_stream =
  cs_bidi :: bool
  cs_content :: bytes
  cs_src :: bytes
  cs_phase :: stream_phase
  cs_fin :: bool

record client_pump =
  cp_cfg :: Config
  cp_bc :: nat
  cp_recv :: rid
  cp_cancelled :: bool

record Client =
  cl_ctl :: writer
  cl_ctlIn :: bytes
  cl_ctlDone :: bool
  cl_closed :: bool
  cl_sdp :: "SDP option"
  cl_dc :: Channel
  cl_queues :: "recvQueue list"
  cl_tracks :: "(string \<times> nat) list"
  cl_dones :: "bool list"
  cl_trackDone :: "(string \<times> nat) list"
  cl_remoteTracks :: "(string \<times> Announce) list"
  cl_feedErr :: "go_error option chan"
  cl_bcs :: "unit broadcaster list"
  cl_pubTracks :: "(string \<times> nat) list"
  cl_pumps :: "client_pump list"
  cl_requestedSessionID :: string
  cl_assignedSessionID :: string
  cl_requestedLastSeen :: "(string \<times> 32 word) list"
  cl_lastSeenSeq :: "(string \<times> 32 word) list"
  cl_declaredFeatures :: "string list option"
  cl_negotiatedFeatures :: "string list"
  cl_kindStats :: "kindStatsCollector option"
  cl_emitting :: bool
  cl_calls :: "recv_call list"
  cl_streams :: "client_stream list"

definition new_queue :: "string \<Rightarrow> recvQueue" where
  "new_queue name = \<lparr>rq_name = name, rq_ch = make_chan 16\<rparr>"

text \<open>The client that \<open>Dial\<close> builds on an open control stream: what it will write to and what the server will send.\<close>

definition NewClient :: "Options \<Rightarrow> writer \<Rightarrow> bytes \<Rightarrow> Client" where
  "NewClient opts ctl ctlIn =
     \<lparr>cl_ctl = ctl, cl_ctlIn = ctlIn, cl_ctlDone = False, cl_closed = False, cl_sdp = None,
      cl_dc = NewChannel (if co_DataInboundBuffer opts \<le> 0 then 64 else co_DataInboundBuffer opts),
      cl_queues = [new_queue ''primary''], cl_tracks = [(''primary'', 0)], cl_dones = [], cl_trackDone = [],
      cl_remoteTracks = [], cl_feedErr = make_chan 1, cl_bcs = [], cl_pubTracks = [], cl_pumps = [],
      cl_requestedSessionID = co_SessionID opts, cl_assignedSessionID = [], cl_requestedLastSeen = co_LastSeenSeq opts,
      cl_lastSeenSeq = [], cl_declaredFeatures = co_Features opts, cl_negotiatedFeatures = [], cl_kindStats = None, cl_emitting = False,
      cl_calls = [], cl_streams = []\<rparr>"

section \<open>Control stream\<close>

record client_json =
  cj_hello :: "Hello \<Rightarrow> go_error + bytes"
  cj_sdp :: "bytes \<Rightarrow> go_error + SDP"
  cj_announce_out :: "Announce \<Rightarrow> go_error + bytes"
  cj_unannounce_out :: "Unannounce \<Rightarrow> go_error + bytes"
  cj_backpressure_out :: "Backpressure \<Rightarrow> go_error + bytes"
  cj_kindstats_out :: "KindStats \<Rightarrow> go_error + bytes"
  cj_announce_in :: "bytes \<Rightarrow> go_error + Announce"
  cj_unannounce_in :: "bytes \<Rightarrow> go_error + Unannounce"

definition writeCtl :: "byte \<Rightarrow> bytes \<Rightarrow> Client \<Rightarrow> go_error option \<times> Client" where
  "writeCtl typ payload c = (let (e, w) = WriteControlFrame (cl_ctl c) typ payload in (e, c\<lparr>cl_ctl := w\<rparr>))"

definition client_hello :: "string \<Rightarrow> Client \<Rightarrow> Hello" where
  "client_hello slug c =
     (let features = (case cl_declaredFeatures c of None \<Rightarrow> DefaultClientFeatures | Some fs \<Rightarrow> fs) in
      \<lparr>h_Role = ''recv'', h_Slug = slug, h_Version = CurrentVersion, h_MinVersion = [], h_MaxVersion = [],
       h_SessionID = cl_requestedSessionID c, h_Features = features, h_LastSeenSeq = cl_requestedLastSeen c\<rparr>)"

definition client_handshake :: "client_json \<Rightarrow> string \<Rightarrow> Client \<Rightarrow> go_error option \<times> Client" where
  "client_handshake j slug c =
     (case cj_hello j (client_hello slug c) of
        Inl e \<Rightarrow> (Some e, c)
      | Inr hb \<Rightarrow>
          (case writeCtl TypeHello hb c of
             (Some e, c1) \<Rightarrow> (Some e, c1)
           | (None, c1) \<Rightarrow>
               (case ReadControlFrame (cl_ctlIn c1) of
                  Inl e \<Rightarrow> (Some e, c1)
                | Inr ((t, payload), rest) \<Rightarrow>
                    (let c2 = c1\<lparr>cl_ctlIn := rest\<rparr> in
                     if t = TypeError then (Some (ErrPeer (string_of_bytes payload)), c2)
                     else if t \<noteq> TypeSDP then (Some (ErrOther ''expected SDP''), c2)
                     else case cj_sdp j payload of
                         Inl e \<Rightarrow> (Some e, c2)
                       | Inr sdp \<Rightarrow> (None, c2\<lparr>cl_sdp := Some sdp, cl_assignedSessionID := sdp_SessionID sdp,
                                        cl_negotiatedFeatures := sdp_Features sdp\<rparr>)))))"

definition client_featureKindStats :: string where "client_featureKindStats = ''kind-stats''"

definition client_hasNegotiatedFeature :: "string \<Rightarrow> Client \<Rightarrow> bool" where
  "client_hasNegotiatedFeature feat c \<longleftrightarrow> feat \<in> set (cl_negotiatedFeatures c)"

text \<open>\<open>Close\<close>: everything happens in the first call only.\<close>

definition Client_Close :: "Client \<Rightarrow> Client" where
  "Client_Close c =
     (if cl_closed c then c
      else snd (writeCtl TypeClose [] (c\<lparr>cl_closed := True,
             cl_pumps := map (\<lambda>p. p\<lparr>cp_cancelled := True\<rparr>) (cl_pumps c), cl_dc := Channel_Close (cl_dc c)\<rparr>)))"

text \<open>\<open>Dial\<close> once the transport and the control stream are open.\<close>

definition dial_session :: "client_json \<Rightarrow> Options \<Rightarrow> string \<Rightarrow> writer \<Rightarrow> bytes \<Rightarrow> go_error option \<times> Client" where
  "dial_session j opts slug ctl ctlIn =
     (case client_handshake j slug (NewClient opts ctl ctlIn) of
        (Some e, c) \<Rightarrow> (Some e, Client_Close c)
      | (None, c) \<Rightarrow>
          (None, if client_hasNegotiatedFeature client_featureKindStats c
                 then c\<lparr>cl_kindStats := Some newKindStatsCollector, cl_emitting := True\<rparr> else c))"

definition client_fail :: "go_error option \<Rightarrow> Client \<Rightarrow> Client option" where
  "client_fail err c =
     (case chan_send err (cl_feedErr c) of
        Sent q \<Rightarrow> Some (Client_Close (c\<lparr>cl_feedErr := q\<rparr>))
      | Full \<Rightarrow> Some (Client_Close c)
      | SendPanic \<Rightarrow> None)"

definition client_SessionID :: "Client \<Rightarrow> string" where
  "client_SessionID c = cl_assignedSessionID c"

definition client_LastSeenSeq :: "Client \<Rightarrow> (string \<times> 32 word) list" where
  "client_LastSeenSeq c = cl_lastSeenSeq c"

definition client_NegotiatedFeatures :: "Client \<Rightarrow> string list" where
  "client_NegotiatedFeatures c = cl_negotiatedFeatures c"

definition client_SDP :: "Client \<Rightarrow> SDP option" where "client_SDP c = cl_sdp c"
definition client_DataChannel :: "Client \<Rightarrow> Channel" where "client_DataChannel c = cl_dc c"
definition client_Done :: "Client \<Rightarrow> bool" where "client_Done c = cl_closed c"

definition client_SendBackpressure :: "client_json \<Rightarrow> string \<Rightarrow> 8 word \<Rightarrow> Client \<Rightarrow> go_error option \<times> Client" where
  "client_SendBackpressure j trackName level c =
     (case cj_backpressure_out j \<lparr>bp_TrackName = trackName, bp_Level = level, bp_NeedsKeyframe = False\<rparr> of
        Inl e \<Rightarrow> (Some e, c)
      | Inr body \<Rightarrow> writeCtl TypeBackpressure body c)"

definition client_RequestKeyframe :: "client_json \<Rightarrow> string \<Rightarrow> Client \<Rightarrow> go_error option \<times> Client" where
  "client_RequestKeyframe j trackName c =
     (case cj_backpressure_out j \<lparr>bp_TrackName = trackName, bp_Level = 100, bp_NeedsKeyframe = True\<rparr> of
        Inl e \<Rightarrow> (Some e, c)
      | Inr body \<Rightarrow> writeCtl TypeBackpressure body c)"

section \<open>Tracks of the server\<close>

definition trackChan :: "string \<Rightarrow> Client \<Rightarrow> nat \<times> Client" where
  "trackChan name c =
     (case map_of (cl_tracks c) name of
        Some i \<Rightarrow> (i, c)
      | None \<Rightarrow> (length (cl_queues c), c\<lparr>cl_queues := cl_queues c @ [new_queue name],
                  cl_tracks := (name, length (cl_queues c)) # cl_tracks c\<rparr>))"

definition trackDoneChan :: "string \<Rightarrow> Client \<Rightarrow> nat \<times> Client" where
  "trackDoneChan name c =
     (case map_of (cl_trackDone c) name of
        Some i \<Rightarrow> (i, c)
      | None \<Rightarrow> (length (cl_dones c), c\<lparr>cl_dones := cl_dones c @ [False],
                  cl_trackDone := (name, length (cl_dones c)) # cl_trackDone c\<rparr>))"

definition kindForTrack :: "string \<Rightarrow> Client \<Rightarrow> string" where
  "kindForTrack name c = (case map_of (cl_remoteTracks c) name of Some a \<Rightarrow> an_Kind a | None \<Rightarrow> [])"

definition handleRemoteAnnounce :: "Announce \<Rightarrow> Client \<Rightarrow> Client" where
  "handleRemoteAnnounce a c =
     (let c1 = snd (trackChan (an_Name a) c) in
      c1\<lparr>cl_remoteTracks := (an_Name a, a) # filter (\<lambda>p. fst p \<noteq> an_Name a) (cl_remoteTracks c1)\<rparr>)"

text \<open>\<open>None\<close> is the panic of closing a closed channel.\<close>

definition handleRemoteUnannounce :: "Unannounce \<Rightarrow> Client \<Rightarrow> Client option" where
  "handleRemoteUnannounce u c =
     (let name = un_Name u; c1 = c\<lparr>cl_tracks := filter (\<lambda>p. fst p \<noteq> name) (cl_tracks c)\<rparr> in
      case (case map_of (cl_trackDone c1) name of
              None \<Rightarrow> Some c1
            | Some i \<Rightarrow> if cl_dones c1 ! i then None
                else Some (c1\<lparr>cl_dones := (cl_dones c1)[i := True],
                       cl_trackDone := filter (\<lambda>p. fst p \<noteq> name) (cl_trackDone c1)\<rparr>)) of
        None \<Rightarrow> None
      | Some c2 \<Rightarrow> Some (c2\<lparr>cl_remoteTracks := filter (\<lambda>p. fst p \<noteq> name) (cl_remoteTracks c2)\<rparr>))"

definition RemoteTracks :: "Client \<Rightarrow> string list" where
  "RemoteTracks c = map fst (cl_remoteTracks c)"

text \<open>What a step can be.\<close>

datatype 'a outcome = Blocked | Panics | Steps 'a

text \<open>One round of the control reader; the flag says whether it goes on.\<close>

definition client_ctl_frame :: "client_json \<Rightarrow> byte \<Rightarrow> bytes \<Rightarrow> Client \<Rightarrow> (bool \<times> Client) option" where
  "client_ctl_frame j t payload c =
     (if t = TypePing then Some (True, snd (writeCtl TypePong payload c))
      else if t = TypePong then Some (True, c)
      else if t = TypeData then
        (case Deliver payload (cl_dc c) of None \<Rightarrow> None | Some d \<Rightarrow> Some (True, c\<lparr>cl_dc := d\<rparr>))
      else if t = TypeAnnounce then
        (case cj_announce_in j payload of Inl _ \<Rightarrow> Some (True, c) | Inr a \<Rightarrow> Some (True, handleRemoteAnnounce a c))
      else if t = TypeUnannounce then
        (case cj_unannounce_in j payload of
           Inl _ \<Rightarrow> Some (True, c)
         | Inr u \<Rightarrow> map_option (Pair True) (handleRemoteUnannounce u c))
      else if t = TypeError then map_option (Pair False) (client_fail (Some (ErrPeer (string_of_bytes payload))) c)
      else if t = TypeClose then map_option (Pair False) (client_fail None c)
      else Some (True, c))"

definition client_controlReader :: "client_json \<Rightarrow> Client \<Rightarrow> Client outcome" where
  "client_controlReader j c =
     (if cl_ctlDone c then Blocked
      else case ReadControlFrame (cl_ctlIn c) of
          Inl _ \<Rightarrow> Steps (c\<lparr>cl_ctlDone := True\<rparr>)
        | Inr ((t, payload), rest) \<Rightarrow>
            (case client_ctl_frame j t payload (c\<lparr>cl_ctlIn := rest\<rparr>) of
               None \<Rightarrow> Panics
             | Some (go_on, c1) \<Rightarrow> Steps (if go_on then c1 else c1\<lparr>cl_ctlDone := True\<rparr>)))"

section \<open>Receiving\<close>

definition observeSeq :: "string \<Rightarrow> 32 word \<Rightarrow> Client \<Rightarrow> Client" where
  "observeSeq trackName seq c =
     (if (case map_of (cl_lastSeenSeq c) trackName of None \<Rightarrow> True | Some prev \<Rightarrow> seq > prev)
      then c\<lparr>cl_lastSeenSeq := (trackName, seq) # filter (\<lambda>p. fst p \<noteq> trackName) (cl_lastSeenSeq c)\<rparr> else c)"

definition client_endError :: "Client \<Rightarrow> recv_result \<times> Client" where
  "client_endError c =
     (case chan_recv (cl_feedErr c) of
        Some (e, q) \<Rightarrow> (RecvErr e, c\<lparr>cl_feedErr := q\<rparr>)
      | None \<Rightarrow> (RecvErr (Some (ErrOther ''client closed'')), c))"

definition set_call :: "nat \<Rightarrow> call_phase \<Rightarrow> Client \<Rightarrow> Client" where
  "set_call k ph c = c\<lparr>cl_calls := (cl_calls c)[k := (cl_calls c ! k)\<lparr>cc_phase := ph\<rparr>]\<rparr>"

definition upd_queue :: "nat \<Rightarrow> AccessUnit chan \<Rightarrow> Client \<Rightarrow> Client" where
  "upd_queue i ch c = c\<lparr>cl_queues := (cl_queues c)[i := (cl_queues c ! i)\<lparr>rq_ch := ch\<rparr>]\<rparr>"

text \<open>\<open>RecvOn\<close>: the call, the second lookup, and the arms of its \<^verbatim>\<open>select\<close>. The queues are never closed.\<close>

definition RecvOn_call :: "string \<Rightarrow> Client \<Rightarrow> Client" where
  "RecvOn_call trackName c =
     (let (i, c1) = trackChan trackName c in c1\<lparr>cl_calls := cl_calls c1 @ [\<lparr>cc_name = trackName, cc_phase = CallChan i\<rparr>]\<rparr>)"

definition RecvOn_done :: "nat \<Rightarrow> Client \<Rightarrow> Client outcome" where
  "RecvOn_done k c =
     (if k < length (cl_calls c) then
        case cc_phase (cl_calls c ! k) of
          CallChan i \<Rightarrow> (let (d, c1) = trackDoneChan (cc_name (cl_calls c ! k)) c in Steps (set_call k (CallWait i d) c1))
        | _ \<Rightarrow> Blocked
      else Blocked)"

datatype recv_arm = ArmAU | ArmFeedErr | ArmDone | ArmCtx | ArmClosed

definition RecvOn_select :: "recv_arm \<Rightarrow> nat \<Rightarrow> Client \<Rightarrow> Client outcome" where
  "RecvOn_select arm k c =
     (if k < length (cl_calls c) then
        case cc_phase (cl_calls c ! k) of
          CallWait i d \<Rightarrow>
            (case arm of
               ArmAU \<Rightarrow>
                 (case chan_recv (rq_ch (cl_queues c ! i)) of
                    None \<Rightarrow> Blocked
                  | Some (au, ch) \<Rightarrow>
                      Steps (set_call k (CallReturned i (RecvAU au))
                        (observeSeq (cc_name (cl_calls c ! k)) (au_Seq au) (upd_queue i ch c))))
             | ArmFeedErr \<Rightarrow>
                 (case chan_recv (cl_feedErr c) of
                    None \<Rightarrow> Blocked
                  | Some (e, q) \<Rightarrow> Steps (set_call k (CallReturned i (RecvErr e)) (c\<lparr>cl_feedErr := q\<rparr>)))
             | ArmDone \<Rightarrow> if cl_dones c ! d then Steps (set_call k (CallReturned i (RecvErr (Some EOF))) c) else Blocked
             | ArmCtx \<Rightarrow> Steps (set_call k (CallReturned i (RecvErr (Some ErrContext))) c)
             | ArmClosed \<Rightarrow>
                 if cl_closed c then (let (r, c1) = client_endError c in Steps (set_call k (CallReturned i r) c1)) else Blocked)
        | _ \<Rightarrow> Blocked
      else Blocked)"

text \<open>What the caller of \<open>RecvOn\<close> sees: the AU and the error.\<close>

definition recv_value :: "recv_result \<Rightarrow> AccessUnit \<times> go_error option" where
  "recv_value r = (case r of RecvAU au \<Rightarrow> (au, None) | RecvErr e \<Rightarrow> (AccessUnit_zero, e))"

section \<open>Streams of the server\<close>

definition client_au :: "FeedFrame \<Rightarrow> AccessUnit" where
  "client_au f = AccessUnit_zero\<lparr>au_Bytes := ff_Payload f, au_Keyframe := IsKeyframe f, au_PTSMicro := ff_PTSMicro f,
     au_Seq := ff_Seq f, au_Discontinuity := (ff_Flags f AND FlagDiscontinuity \<noteq> 0), au_PubWallMicro := ff_PubWallMicro f\<rparr>"

text \<open>\<open>feedAcceptor\<close> and \<open>bidiAcceptor\<close>: one accepted stream starts one goroutine, and a failed accept of a feed
  stream fails the session.\<close>

definition client_accept :: "bool \<Rightarrow> go_error + bytes \<Rightarrow> Client \<Rightarrow> Client outcome" where
  "client_accept bidi stream c =
     (if cl_closed c then Blocked
      else case stream of
        Inl e \<Rightarrow> if bidi then Steps c else (case client_fail (Some e) c of None \<Rightarrow> Panics | Some c1 \<Rightarrow> Steps c1)
      | Inr content \<Rightarrow> Steps (c\<lparr>cl_streams := cl_streams c @
          [\<lparr>cs_bidi = bidi, cs_content = content, cs_src = content, cs_phase = SOpen, cs_fin = False\<rparr>]\<rparr>))"

definition set_stream :: "nat \<Rightarrow> stream_phase \<Rightarrow> bytes \<Rightarrow> Client \<Rightarrow> Client" where
  "set_stream j ph src c = c\<lparr>cl_streams := (cl_streams c)[j := (cl_streams c ! j)\<lparr>cs_phase := ph, cs_src := src\<rparr>]\<rparr>"

text \<open>A drain returns; the deferred close of \<open>drainBidi\<close> ends the send half of a call stream.\<close>

definition drain_return :: "nat \<Rightarrow> Client \<Rightarrow> Client" where
  "drain_return j c = c\<lparr>cl_streams := (cl_streams c)[j := (cl_streams c ! j)\<lparr>cs_phase := SEnd, cs_fin := cs_bidi (cl_streams c ! j)\<rparr>]\<rparr>"

definition drain_stats :: "string \<Rightarrow> FeedFrame \<Rightarrow> 64 word \<Rightarrow> Client \<Rightarrow> Client" where
  "drain_stats kind f now c =
     (case cl_kindStats c of None \<Rightarrow> c | Some k \<Rightarrow> c\<lparr>cl_kindStats := Some (observe kind (ff_Seq f) (ff_PubWallMicro f) now k)\<rparr>)"

definition stream_open :: "bytes \<Rightarrow> (string \<times> bytes) option" where
  "stream_open src =
     (case PeekStreamHeader src of
        Inl e \<Rightarrow> None
      | Inr ((trackName, firstByte), rest) \<Rightarrow>
          Some (if trackName = [] then (''primary'', firstByte # rest) else (trackName, rest)))"

text \<open>The next thing \<open>drainFeed\<close> or \<open>drainBidi\<close> does; a send into a full queue blocks.\<close>

definition drain_step :: "nat \<Rightarrow> 64 word \<Rightarrow> Client \<Rightarrow> Client outcome" where
  "drain_step j now c =
     (if j < length (cl_streams c) then
        let s = cl_streams c ! j in
        case cs_phase s of
          SOpen \<Rightarrow>
            (case stream_open (cs_src s) of
               None \<Rightarrow> Steps (drain_return j c)
             | Some (trackName, src) \<Rightarrow> Steps (set_stream j (SName trackName) src c))
        | SName trackName \<Rightarrow> (let (ch, c1) = trackChan trackName c in Steps (set_stream j (SKind trackName ch) (cs_src s) c1))
        | SKind trackName ch \<Rightarrow> Steps (set_stream j (SLoop ch (kindForTrack trackName c)) (cs_src s) c)
        | SLoop ch kind \<Rightarrow>
            (case ReadFeedFrame (cs_src s) of
               Inl e \<Rightarrow> Steps (drain_return j c)
             | Inr (f, rest) \<Rightarrow> Steps (set_stream j (SSend ch kind (client_au f)) rest (drain_stats kind f now c)))
        | SSend ch kind au \<Rightarrow>
            (case chan_send au (rq_ch (cl_queues c ! ch)) of
               Sent q \<Rightarrow> Steps (set_stream j (SLoop ch kind) (cs_src s) (upd_queue ch q c))
             | Full \<Rightarrow> Blocked
             | SendPanic \<Rightarrow> Panics)
        | SEnd \<Rightarrow> Blocked
      else Blocked)"

text \<open>The other arm of the send: the client was closed.\<close>

definition drain_closed :: "nat \<Rightarrow> Client \<Rightarrow> Client outcome" where
  "drain_closed j c =
     (if j < length (cl_streams c) \<and> cl_closed c then
        case cs_phase (cl_streams c ! j) of SSend ch kind au \<Rightarrow> Steps (drain_return j c) | _ \<Rightarrow> Blocked
      else Blocked)"

section \<open>Publishing to the server\<close>

definition clientPublishDelivery :: "Kind \<Rightarrow> DeliveryClass" where
  "clientPublishDelivery k = (if k = KindVideo \<or> k = [] then DeliveryStreamGOP else DeliveryStreamLowLatency)"

definition removePubTrack :: "string \<Rightarrow> Client \<Rightarrow> Client" where
  "removePubTrack name c = c\<lparr>cl_pubTracks := filter (\<lambda>p. fst p \<noteq> name) (cl_pubTracks c)\<rparr>"

record clientSender =
  cse_name :: string
  cse_bc :: nat

definition client_Publish :: "client_json \<Rightarrow> LocalTrack \<Rightarrow> Client \<Rightarrow> (go_error + clientSender) \<times> Client" where
  "client_Publish j lt c =
     (if cl_closed c then (Inl (ErrOther ''client closed''), c)
      else
        let name = (if lt_Name lt = [] then ''primary'' else lt_Name lt) in
        case map_of (cl_pubTracks c) name of
          Some i \<Rightarrow> (Inr \<lparr>cse_name = name, cse_bc = i\<rparr>, c)
        | None \<Rightarrow>
            (let b0 = NewBroadcaster 0;
                 b = (if lt_Kind lt \<noteq> KindVideo \<and> lt_Kind lt \<noteq> [] then SetSelfContained True b0 else b0);
                 i = length (cl_bcs c);
                 c1 = c\<lparr>cl_bcs := cl_bcs c @ [b], cl_pubTracks := (name, i) # cl_pubTracks c\<rparr> in
             case cj_announce_out j \<lparr>an_Name = name, an_Kind = lt_Kind lt, an_Codec = lt_Codec lt\<rparr> of
               Inl e \<Rightarrow> (Inl e, removePubTrack name c1)
             | Inr body \<Rightarrow>
                 (case writeCtl TypeAnnounce body c1 of
                    (Some e, c2) \<Rightarrow> (Inl e, removePubTrack name c2)
                  | (None, c2) \<Rightarrow>
                      (let (r, b') = Subscribe (cl_bcs c2 ! i);
                           cfg = Config_zero\<lparr>cfg_TrackName := name, cfg_Delivery := clientPublishDelivery (lt_Kind lt),
                             cfg_Priority := DefaultPriority (lt_Kind lt)\<rparr> in
                       (Inr \<lparr>cse_name = name, cse_bc = i\<rparr>,
                        c2\<lparr>cl_bcs := (cl_bcs c2)[i := b'],
                           cl_pumps := cl_pumps c2 @ [\<lparr>cp_cfg = New cfg, cp_bc = i, cp_recv = r, cp_cancelled = False\<rparr>]\<rparr>)))))"

text \<open>\<open>Publish\<close> of the broadcaster may panic, which is \<open>None\<close>.\<close>

definition clientSender_Send :: "clientSender \<Rightarrow> AccessUnit \<Rightarrow> Client \<Rightarrow> (go_error option \<times> Client) option" where
  "clientSender_Send s au c =
     (if cl_closed c then Some (Some (ErrOther ''client closed''), c)
      else case Publish au () (cl_bcs c ! cse_bc s) of
          None \<Rightarrow> None
        | Some (_, b) \<Rightarrow> Some (None, c\<lparr>cl_bcs := (cl_bcs c)[cse_bc s := b]\<rparr>))"

definition clientSender_Close :: "client_json \<Rightarrow> clientSender \<Rightarrow> Client \<Rightarrow> Client" where
  "clientSender_Close j s c =
     removePubTrack (cse_name s)
       (case cj_unannounce_out j \<lparr>un_Name = cse_name s\<rparr> of Inl e \<Rightarrow> c | Inr body \<Rightarrow> snd (writeCtl TypeUnannounce body c))"

text \<open>One tick of \<open>emitKindStats\<close>: a failed write ends the emitter.\<close>

fun emit_samples :: "client_json \<Rightarrow> KindStats list \<Rightarrow> Client \<Rightarrow> bool \<times> Client" where
  "emit_samples j [] c = (True, c)"
| "emit_samples j (ks # kss) c =
     (case cj_kindstats_out j ks of
        Inl e \<Rightarrow> emit_samples j kss c
      | Inr body \<Rightarrow>
          (case writeCtl TypeKindStats body c of
             (Some e, c1) \<Rightarrow> (False, c1)
           | (None, c1) \<Rightarrow> emit_samples j kss c1))"

definition emitKindStats_tick :: "client_json \<Rightarrow> Client \<Rightarrow> Client outcome" where
  "emitKindStats_tick j c =
     (case cl_kindStats c of
        None \<Rightarrow> Blocked
      | Some k \<Rightarrow>
          if cl_emitting c
          then (let (out, k') = snapshot k; (go_on, c1) = emit_samples j out (c\<lparr>cl_kindStats := Some k'\<rparr>) in
                Steps (c1\<lparr>cl_emitting := go_on\<rparr>))
          else Blocked)"

section \<open>Interleavings\<close>

text \<open>What the goroutines of a client, its callers and its peer do, one step at a time.\<close>

datatype client_op =
    CoControl
  | CoAccept bool "go_error + bytes"
  | CoDrain nat "64 word"
  | CoDrainClosed nat
  | CoRecvOn string
  | CoRecvDone nat
  | CoSelect recv_arm nat
  | CoPublish LocalTrack
  | CoSend clientSender AccessUnit
  | CoSenderClose clientSender
  | CoBackpressure string "8 word"
  | CoKeyframe string
  | CoData bytes
  | CoTick
  | CoClose

fun client_exec :: "client_json \<Rightarrow> client_op \<Rightarrow> Client \<Rightarrow> Client outcome" where
  "client_exec j CoControl c = client_controlReader j c"
| "client_exec j (CoAccept bidi s) c = client_accept bidi s c"
| "client_exec j (CoDrain i now) c = drain_step i now c"
| "client_exec j (CoDrainClosed i) c = drain_closed i c"
| "client_exec j (CoRecvOn name) c = Steps (RecvOn_call name c)"
| "client_exec j (CoRecvDone k) c = RecvOn_done k c"
| "client_exec j (CoSelect arm k) c = RecvOn_select arm k c"
| "client_exec j (CoPublish lt) c = Steps (snd (client_Publish j lt c))"
| "client_exec j (CoSend s au) c =
     (if cse_bc s < length (cl_bcs c)
      then (case clientSender_Send s au c of None \<Rightarrow> Panics | Some (e, c1) \<Rightarrow> Steps c1) else Blocked)"
| "client_exec j (CoSenderClose s) c = Steps (clientSender_Close j s c)"
| "client_exec j (CoBackpressure name level) c = Steps (snd (client_SendBackpressure j name level c))"
| "client_exec j (CoKeyframe name) c = Steps (snd (client_RequestKeyframe j name c))"
| "client_exec j (CoData msg) c = Steps (c\<lparr>cl_ctl := snd (Channel_Send msg (cl_dc c) (cl_ctl c))\<rparr>)"
| "client_exec j CoTick c = emitKindStats_tick j c"
| "client_exec j CoClose c = Steps (Client_Close c)"

text \<open>What a step does to the queues: stream \<open>s\<close> put an AU into queue \<open>i\<close>, or a call took one from it and returned it.\<close>

datatype client_event = PutAU nat nat AccessUnit | GotAU string nat AccessUnit

definition client_event :: "client_op \<Rightarrow> Client \<Rightarrow> client_event list" where
  "client_event op c =
     (case op of
        CoDrain s now \<Rightarrow> (case cs_phase (cl_streams c ! s) of SSend ch kind au \<Rightarrow> [PutAU s ch au] | _ \<Rightarrow> [])
      | CoSelect ArmAU k \<Rightarrow>
          (case cc_phase (cl_calls c ! k) of
             CallWait i d \<Rightarrow> (case chan_recv (rq_ch (cl_queues c ! i)) of
                None \<Rightarrow> [] | Some (au, ch) \<Rightarrow> [GotAU (cc_name (cl_calls c ! k)) i au])
           | _ \<Rightarrow> [])
      | _ \<Rightarrow> [])"

text \<open>A run, with its events; a step that blocks waits and is left out. \<open>None\<close> is a panic.\<close>

fun client_trace :: "client_json \<Rightarrow> client_op list \<Rightarrow> client_event list \<times> Client \<Rightarrow> (client_event list \<times> Client) option" where
  "client_trace j [] hc = Some hc"
| "client_trace j (op # ops) (h, c) =
     (case client_exec j op c of
        Panics \<Rightarrow> None
      | Blocked \<Rightarrow> client_trace j ops (h, c)
      | Steps c1 \<Rightarrow> client_trace j ops (h @ client_event op c, c1))"

end
