(* ===== verification/Client_Delivery.thy ===== *)
theory Client_Delivery
  imports Client
begin

text \<open>
  Correctness of the subscriber (\<^verbatim>\<open>client/client.go\<close>): an invariant of its state and of the history of its queues, kept by
  every step of every goroutine.
\<close>

section \<open>What a stream carries\<close>

definition frames_aus :: "bytes \<Rightarrow> AccessUnit list" where
  "frames_aus src = map client_au (fst (read_loop ReadFeedFrame (Suc (length src)) src))"

definition stream_aus :: "bytes \<Rightarrow> AccessUnit list" where
  "stream_aus content = (case stream_open content of None \<Rightarrow> [] | Some (name, src) \<Rightarrow> frames_aus src)"

definition stream_track :: "bytes \<Rightarrow> string option" where
  "stream_track content = map_option fst (stream_open content)"

lemma frames_aus_unfold:
  "frames_aus src = (case ReadFeedFrame src of Inl e \<Rightarrow> [] | Inr (f, rest) \<Rightarrow> client_au f # frames_aus rest)"
proof (cases "ReadFeedFrame src")
  case (Inl e)
  then show ?thesis by (simp add: frames_aus_def)
next
  case (Inr p)
  then obtain f rest where p: "p = (f, rest)" by (cases p)
  have l: "length rest < length src" using feed_codec.dec_consumes Inr p by blast
  obtain fs e where fs: "read_loop ReadFeedFrame (Suc (length rest)) rest = (fs, Some e)"
    using feed_codec.read_loop_enough [of rest "Suc (length rest)"] by auto
  have "read_loop ReadFeedFrame (length src) rest = (fs, Some e)" using read_loop_mono [OF fs] l by simp
  then show ?thesis using Inr p fs by (simp add: frames_aus_def)
qed

text \<open>What a drain still has to queue.\<close>

definition pending :: "client_stream \<Rightarrow> AccessUnit list" where
  "pending s =
     (case cs_phase s of
        SOpen \<Rightarrow> stream_aus (cs_src s)
      | SName _ \<Rightarrow> frames_aus (cs_src s)
      | SKind _ _ \<Rightarrow> frames_aus (cs_src s)
      | SLoop _ _ \<Rightarrow> frames_aus (cs_src s)
      | SSend _ _ au \<Rightarrow> au # frames_aus (cs_src s)
      | SEnd \<Rightarrow> [])"

section \<open>Invariant\<close>

definition queue_ok :: "recvQueue \<Rightarrow> bool" where
  "queue_ok q \<longleftrightarrow> c_cap (rq_ch q) = 16 \<and> length (c_buf (rq_ch q)) \<le> 16 \<and> \<not> c_closed (rq_ch q)"

text \<open>\<open>names\<close> are the track names of the queues.\<close>

definition ref_ok :: "string list \<Rightarrow> string \<Rightarrow> nat \<Rightarrow> bool" where
  "ref_ok names n i \<longleftrightarrow> i < length names \<and> names ! i = n"

definition call_ok :: "string list \<Rightarrow> nat \<Rightarrow> recv_call \<Rightarrow> bool" where
  "call_ok names dones k \<longleftrightarrow>
     (case cc_phase k of
        CallChan i \<Rightarrow> ref_ok names (cc_name k) i
      | CallWait i d \<Rightarrow> ref_ok names (cc_name k) i \<and> d < dones
      | CallReturned i r \<Rightarrow> ref_ok names (cc_name k) i)"

definition stream_ok :: "string list \<Rightarrow> client_stream \<Rightarrow> bool" where
  "stream_ok names s \<longleftrightarrow>
     (case cs_phase s of
        SOpen \<Rightarrow> cs_src s = cs_content s
      | SName n \<Rightarrow> stream_track (cs_content s) = Some n
      | SKind n i \<Rightarrow> stream_track (cs_content s) = Some n \<and> ref_ok names n i
      | SLoop i k \<Rightarrow> i < length names \<and> stream_track (cs_content s) = Some (names ! i)
      | SSend i k au \<Rightarrow> i < length names \<and> stream_track (cs_content s) = Some (names ! i)
      | SEnd \<Rightarrow> True)"

definition dones_ok :: "bool list \<Rightarrow> (string \<times> nat) list \<Rightarrow> bool" where
  "dones_ok ds m \<longleftrightarrow> distinct (map snd m) \<and> (\<forall>p \<in> set m. snd p < length ds \<and> \<not> ds ! snd p)"

definition queue_names :: "Client \<Rightarrow> string list" where
  "queue_names c = map rq_name (cl_queues c)"

definition client_inv :: "Client \<Rightarrow> bool" where
  "client_inv c \<longleftrightarrow>
     channel_ok (cl_dc c) \<and> \<not> c_closed (cl_feedErr c) \<and> list_all queue_ok (cl_queues c) \<and>
     (\<forall>p \<in> set (cl_tracks c). ref_ok (queue_names c) (fst p) (snd p)) \<and>
     dones_ok (cl_dones c) (cl_trackDone c) \<and>
     list_all (call_ok (queue_names c) (length (cl_dones c))) (cl_calls c) \<and>
     list_all (stream_ok (queue_names c)) (cl_streams c) \<and>
     list_all b_inv (cl_bcs c) \<and> (\<forall>p \<in> set (cl_pubTracks c). snd p < length (cl_bcs c))"

text \<open>The history: what was put into a queue, what was put by a stream, what was taken from a queue or under a name.\<close>

definition put_in :: "nat \<Rightarrow> client_event list \<Rightarrow> AccessUnit list" where
  "put_in i h = concat (map (\<lambda>e. case e of PutAU s q au \<Rightarrow> if q = i then [au] else [] | _ \<Rightarrow> []) h)"

definition put_by :: "nat \<Rightarrow> client_event list \<Rightarrow> AccessUnit list" where
  "put_by s h = concat (map (\<lambda>e. case e of PutAU r q au \<Rightarrow> if r = s then [au] else [] | _ \<Rightarrow> []) h)"

definition taken_from :: "nat \<Rightarrow> client_event list \<Rightarrow> AccessUnit list" where
  "taken_from i h = concat (map (\<lambda>e. case e of GotAU n q au \<Rightarrow> if q = i then [au] else [] | _ \<Rightarrow> []) h)"

definition received :: "string \<Rightarrow> client_event list \<Rightarrow> AccessUnit list" where
  "received n h = concat (map (\<lambda>e. case e of GotAU m q au \<Rightarrow> if m = n then [au] else [] | _ \<Rightarrow> []) h)"

text \<open>The greatest sequence number of a list.\<close>

fun high_water :: "32 word option \<Rightarrow> AccessUnit list \<Rightarrow> 32 word option" where
  "high_water m [] = m"
| "high_water m (au # aus) = high_water (Some (case m of None \<Rightarrow> au_Seq au | Some x \<Rightarrow> max x (au_Seq au))) aus"

definition routed :: "Client \<Rightarrow> client_event \<Rightarrow> bool" where
  "routed c e \<longleftrightarrow>
     (case e of
        PutAU s i au \<Rightarrow> s < length (cl_streams c) \<and> i < length (cl_queues c) \<and>
          stream_track (cs_content (cl_streams c ! s)) = Some (rq_name (cl_queues c ! i))
      | GotAU n i au \<Rightarrow> i < length (cl_queues c) \<and> rq_name (cl_queues c ! i) = n)"

definition client_hist :: "client_event list \<Rightarrow> Client \<Rightarrow> bool" where
  "client_hist h c \<longleftrightarrow>
     (\<forall>i < length (cl_queues c). put_in i h = taken_from i h @ c_buf (rq_ch (cl_queues c ! i))) \<and>
     (\<forall>s < length (cl_streams c). \<exists>lost. stream_aus (cs_content (cl_streams c ! s)) = put_by s h @ pending (cl_streams c ! s) @ lost \<and>
        (cl_closed c \<or> lost = [])) \<and>
     list_all (routed c) h \<and> (\<forall>n. map_of (cl_lastSeenSeq c) n = high_water None (received n h))"

definition client_ok :: "client_event list \<Rightarrow> Client \<Rightarrow> bool" where
  "client_ok h c \<longleftrightarrow> client_inv c \<and> client_hist h c"

section \<open>Steps that leave the queues alone\<close>

text \<open>Fields that neither part of the invariant reads.\<close>

lemma client_ok_frame [simp]:
  "client_ok h (c\<lparr>cl_ctl := w\<rparr>) = client_ok h c"
  "client_ok h (c\<lparr>cl_ctlIn := r\<rparr>) = client_ok h c"
  "client_ok h (c\<lparr>cl_ctlDone := x\<rparr>) = client_ok h c"
  "client_ok h (c\<lparr>cl_kindStats := k\<rparr>) = client_ok h c"
  "client_ok h (c\<lparr>cl_emitting := x\<rparr>) = client_ok h c"
  "client_ok h (c\<lparr>cl_remoteTracks := m\<rparr>) = client_ok h c"
  "client_ok h (c\<lparr>cl_pumps := ps\<rparr>) = client_ok h c"
  "client_ok h (c\<lparr>cl_sdp := sd\<rparr>) = client_ok h c"
  "client_ok h (c\<lparr>cl_assignedSessionID := n\<rparr>) = client_ok h c"
  "client_ok h (c\<lparr>cl_negotiatedFeatures := fs\<rparr>) = client_ok h c"
  by (simp_all add: client_ok_def client_inv_def client_hist_def queue_names_def routed_def [abs_def])

lemma writeCtl_frame: "\<exists>w. snd (writeCtl t payload c) = c\<lparr>cl_ctl := w\<rparr>"
  by (auto simp: writeCtl_def split: prod.split)

lemma client_ok_writeCtl [simp]: "client_ok h (snd (writeCtl t payload c)) = client_ok h c"
  using writeCtl_frame [of t payload c] by auto

lemma client_ok_feedErr: "client_ok h c \<Longrightarrow> \<not> c_closed q \<Longrightarrow> client_ok h (c\<lparr>cl_feedErr := q\<rparr>)"
  by (simp add: client_ok_def client_inv_def client_hist_def queue_names_def routed_def [abs_def])

text \<open>Everything else that leaves queues, tracks, calls and streams alone.\<close>

lemma client_ok_quiet:
  assumes "client_ok h c" "list_all b_inv (cl_bcs c')" "\<forall>p \<in> set (cl_pubTracks c'). snd p < length (cl_bcs c')"
    and "channel_ok (cl_dc c')" "cl_feedErr c' = cl_feedErr c" "cl_queues c' = cl_queues c" "cl_tracks c' = cl_tracks c"
    "cl_dones c' = cl_dones c" "cl_trackDone c' = cl_trackDone c" "cl_calls c' = cl_calls c" "cl_streams c' = cl_streams c"
    "cl_lastSeenSeq c' = cl_lastSeenSeq c" "cl_closed c \<longrightarrow> cl_closed c'"
  shows "client_ok h c'"
proof -
  have "client_inv c'" using assms by (simp add: client_ok_def client_inv_def queue_names_def)
  moreover have "client_hist h c'"
  proof -
    have "client_hist h c" using assms(1) by (simp add: client_ok_def)
    moreover have "routed c' = routed c" using assms(6,11) by (simp add: routed_def [abs_def])
    ultimately show ?thesis using assms(6,11-13) unfolding client_hist_def by metis
  qed
  ultimately show ?thesis by (simp add: client_ok_def)
qed

lemma client_okD:
  assumes "client_ok h c"
  shows "channel_ok (cl_dc c)" "\<not> c_closed (cl_feedErr c)" "list_all queue_ok (cl_queues c)"
    "\<forall>p \<in> set (cl_tracks c). ref_ok (queue_names c) (fst p) (snd p)" "dones_ok (cl_dones c) (cl_trackDone c)"
    "list_all (call_ok (queue_names c) (length (cl_dones c))) (cl_calls c)"
    "list_all (stream_ok (queue_names c)) (cl_streams c)" "list_all b_inv (cl_bcs c)"
    "\<forall>p \<in> set (cl_pubTracks c). snd p < length (cl_bcs c)"
  using assms by (simp_all add: client_ok_def client_inv_def)

lemma client_ok_dc: "client_ok h c \<Longrightarrow> channel_ok d \<Longrightarrow> client_ok h (c\<lparr>cl_dc := d\<rparr>)"
  by (rule client_ok_quiet [where c = c]) (simp_all add: client_okD)

lemma client_ok_Close: "client_ok h c \<Longrightarrow> client_ok h (Client_Close c)"
  unfolding Client_Close_def by (simp, intro impI, rule client_ok_quiet [where c = c]) (simp_all add: client_okD Channel_Close_ok)

lemma client_ok_fail: "client_ok h c \<Longrightarrow> \<exists>c'. client_fail e c = Some c' \<and> client_ok h c'"
  using client_okD(2) [of h c]
  by (auto simp: client_fail_def chan_send_def intro!: client_ok_Close client_ok_feedErr)

lemma client_ok_endError: "client_ok h c \<Longrightarrow> client_ok h (snd (client_endError c))"
  using client_okD(2) [of h c]
  by (auto simp: client_endError_def chan_recv_def intro!: client_ok_feedErr split: list.split)

lemma client_ok_emit: "client_ok h c \<Longrightarrow> client_ok h (snd (emit_samples j ks c))"
proof (induction ks arbitrary: c)
  case (Cons k ks)
  obtain w where w: "\<And>t p. snd (writeCtl t p c) = c\<lparr>cl_ctl := w t p\<rparr>" using writeCtl_frame [of _ _ c] by metis
  show ?case
  proof (cases "cj_kindstats_out j k")
    case (Inl e)
    then show ?thesis using Cons by simp
  next
    case (Inr body)
    then show ?thesis using Cons w [of TypeKindStats body]
      by (cases "writeCtl TypeKindStats body c") (auto split: option.split)
  qed
qed simp

lemma client_ok_Publish:
  assumes "client_ok h c"
  shows "client_ok h (snd (client_Publish j lt c))"
proof -
  define name where "name = (if lt_Name lt = [] then ''primary'' else lt_Name lt)"
  define b where "b = (if lt_Kind lt \<noteq> KindVideo \<and> lt_Kind lt \<noteq> [] then SetSelfContained True (NewBroadcaster 0) else (NewBroadcaster 0 :: unit broadcaster))"
  define c1 where "c1 = c\<lparr>cl_bcs := cl_bcs c @ [b], cl_pubTracks := (name, length (cl_bcs c)) # cl_pubTracks c\<rparr>"
  have b: "b_inv b" unfolding b_def NewBroadcaster_def SetSelfContained_def using b_inv_New by (auto simp: b_inv_def)
  have bs: "list_all b_inv (cl_bcs c @ [b])" "list_all b_inv ((cl_bcs c @ [b])[length (cl_bcs c) := snd (Subscribe b)])"
    using client_okD(8) [OF assms] b b_inv_Subscribe [OF b] by simp_all
  have m: "\<forall>p \<in> set ((name, length (cl_bcs c)) # cl_pubTracks c). snd p < Suc (length (cl_bcs c))"
    using client_okD(9) [OF assms] by auto
  have c1: "client_ok h c1" unfolding c1_def using bs m client_okD(1) [OF assms] by (intro client_ok_quiet [OF assms]) auto
  have rm: "client_ok h (removePubTrack name (c1\<lparr>cl_ctl := w\<rparr>))" for w
    using bs m client_okD(1) [OF assms] by (intro client_ok_quiet [OF assms]) (auto simp: removePubTrack_def c1_def)
  have rm0: "client_ok h (removePubTrack name c1)" using rm [of "cl_ctl c1"] by simp
  have sub: "client_ok h (c1\<lparr>cl_ctl := w, cl_bcs := (cl_bcs c @ [b])[length (cl_bcs c) := snd (Subscribe b)], cl_pumps := ps\<rparr>)" for w ps
    using bs m client_okD(1) [OF assms] by (intro client_ok_quiet [OF assms]) (auto simp: c1_def)
  have w: "\<exists>e w. writeCtl TypeAnnounce body c1 = (e, c1\<lparr>cl_ctl := w\<rparr>)" for body
    using writeCtl_frame [of TypeAnnounce body c1] by (metis prod.collapse)
  have bc1: "cl_bcs c1 = cl_bcs c @ [b]" by (simp add: c1_def)
  show ?thesis
  proof (cases "cl_closed c \<or> map_of (cl_pubTracks c) name \<noteq> None")
    case True
    then show ?thesis using assms by (auto simp: client_Publish_def name_def Let_def)
  next
    case False
    show ?thesis
    proof (cases "cj_announce_out j \<lparr>an_Name = name, an_Kind = lt_Kind lt, an_Codec = lt_Codec lt\<rparr>")
      case (Inl e)
      then show ?thesis using False rm0 by (simp add: client_Publish_def Let_def name_def [symmetric] b_def [symmetric] c1_def [symmetric])
    next
      case (Inr body)
      from w [of body] obtain e v where "writeCtl TypeAnnounce body c1 = (e, c1\<lparr>cl_ctl := v\<rparr>)" by blast
      then show ?thesis using False Inr rm [where w = v] sub [where w = v]
        unfolding client_Publish_def Let_def name_def [symmetric] b_def [symmetric] c1_def [symmetric]
        by (cases e) (auto simp: bc1 split: prod.split)
    qed
  qed
qed

lemma client_ok_removePub: "client_ok h c \<Longrightarrow> client_ok h (removePubTrack name c)"
  by (rule client_ok_quiet [where c = c]) (simp_all add: removePubTrack_def client_okD)

lemma client_ok_SenderClose: "client_ok h c \<Longrightarrow> client_ok h (clientSender_Close j s c)"
  by (auto simp: clientSender_Close_def intro!: client_ok_removePub split: sum.split)

lemma client_ok_Send:
  assumes "client_ok h c" "cse_bc s < length (cl_bcs c)"
  shows "\<exists>e c'. clientSender_Send s au c = Some (e, c') \<and> client_ok h c'"
proof -
  have "b_inv (cl_bcs c ! cse_bc s)" using client_okD(8) [OF assms(1)] assms(2) by (simp add: list_all_length)
  from Publish_inv [OF this] obtain u b where b: "Publish au () (cl_bcs c ! cse_bc s) = Some (u, b)" "b_inv b" by blast
  have "client_ok h (c\<lparr>cl_bcs := (cl_bcs c)[cse_bc s := b]\<rparr>)"
    using client_okD(1,9) [OF assms(1)] list_all_update [OF client_okD(8) [OF assms(1)] b(2)]
    by (intro client_ok_quiet [OF assms(1)]) simp_all
  then show ?thesis using b assms by (auto simp: clientSender_Send_def)
qed

section \<open>Tracks and control frames\<close>

lemma ref_ok_append: "ref_ok ns n i \<Longrightarrow> ref_ok (ns @ xs) n i"
  by (auto simp: ref_ok_def nth_append)

lemma call_ok_mono: "call_ok ns d k \<Longrightarrow> d \<le> d' \<Longrightarrow> call_ok (ns @ xs) d' k"
  by (auto simp: call_ok_def ref_ok_append split: call_phase.split)

lemma stream_ok_append: "stream_ok ns s \<Longrightarrow> stream_ok (ns @ xs) s"
  by (auto simp: stream_ok_def ref_ok_append nth_append split: stream_phase.split)

lemma put_in_none: "list_all (routed c) h \<Longrightarrow> length (cl_queues c) \<le> i \<Longrightarrow> put_in i h = [] \<and> taken_from i h = []"
  by (induction h) (auto simp: put_in_def taken_from_def routed_def split: client_event.splits)

lemma put_by_none: "list_all (routed c) h \<Longrightarrow> length (cl_streams c) \<le> s \<Longrightarrow> put_by s h = []"
  by (induction h) (auto simp: put_by_def routed_def split: client_event.splits)

lemma trackChan_cases:
  assumes "trackChan n c = (i, c1)"
  obtains "map_of (cl_tracks c) n = Some i" "c1 = c"
    | "i = length (cl_queues c)" "c1 = c\<lparr>cl_queues := cl_queues c @ [new_queue n], cl_tracks := (n, i) # cl_tracks c\<rparr>"
proof (cases "map_of (cl_tracks c) n")
  case None
  then have "(length (cl_queues c), c\<lparr>cl_queues := cl_queues c @ [new_queue n], cl_tracks := (n, length (cl_queues c)) # cl_tracks c\<rparr>) = (i, c1)"
    using assms by (simp only: trackChan_def option.case)
  then show ?thesis using that(2) by blast
next
  case (Some k)
  then have "k = i" "c = c1" using assms unfolding trackChan_def by simp_all
  then show ?thesis using Some that(1) by blast
qed

lemma client_ok_trackChan:
  assumes "client_ok h c" "trackChan n c = (i, c1)"
  shows "client_ok h c1" "ref_ok (queue_names c1) n i" "\<exists>xs. queue_names c1 = queue_names c @ xs"
    "cl_calls c1 = cl_calls c" "cl_streams c1 = cl_streams c" "cl_dones c1 = cl_dones c"
proof -
  have "client_ok h c1 \<and> ref_ok (queue_names c1) n i \<and> (\<exists>xs. queue_names c1 = queue_names c @ xs) \<and>
    cl_calls c1 = cl_calls c \<and> cl_streams c1 = cl_streams c \<and> cl_dones c1 = cl_dones c"
    using assms(2)
  proof (cases rule: trackChan_cases)
    case 1
    then have "(n, i) \<in> set (cl_tracks c)" by (simp add: map_of_SomeD)
    then have "ref_ok (queue_names c) n i" using client_okD(4) [OF assms(1)] by force
    moreover have "\<exists>xs. queue_names c1 = queue_names c @ xs" using 1(2) by simp
    ultimately show ?thesis using assms(1) 1(2) by simp
  next
    case 2
    have names: "queue_names c1 = queue_names c @ [n]" by (simp add: 2(2) queue_names_def new_queue_def)
    have r: "ref_ok (queue_names c1) n i" unfolding names ref_ok_def 2(1) by (simp add: queue_names_def nth_append)
    have q: "queue_ok (new_queue n)" by (simp add: queue_ok_def new_queue_def)
    note D = client_okD [OF assms(1)]
    have "\<forall>p \<in> set (cl_tracks c1). ref_ok (queue_names c @ [n]) (fst p) (snd p)"
      using D(4) r ref_ok_append unfolding names by (auto simp: 2(2))
    moreover have "list_all (call_ok (queue_names c @ [n]) (length (cl_dones c))) (cl_calls c)"
      using D(6) by (rule list.pred_mono_strong) (rule call_ok_mono [OF _ order_refl])
    moreover have "list_all (stream_ok (queue_names c @ [n])) (cl_streams c)"
      using D(7) by (rule list.pred_mono_strong) (rule stream_ok_append)
    ultimately have "client_inv c1" using D q unfolding client_inv_def names by (simp add: 2(2))
    moreover have "client_hist h c1"
    proof -
      have H: "client_hist h c" using assms(1) by (simp add: client_ok_def)
      have rt: "list_all (routed c) h" using H by (simp add: client_hist_def)
      have "list_all (routed c1) h" using rt
        by (rule list.pred_mono_strong) (auto simp: routed_def 2(2) nth_append split: client_event.splits)
      moreover have "put_in k h = taken_from k h @ c_buf (rq_ch (cl_queues c1 ! k))" if k: "k < length (cl_queues c1)" for k
      proof (cases "k < length (cl_queues c)")
        case True
        then show ?thesis using H by (simp add: client_hist_def 2(2) nth_append)
      next
        case False
        then have "k = length (cl_queues c)" using k 2(2) by simp
        then show ?thesis using put_in_none [OF rt, of k] by (simp add: 2(2) new_queue_def)
      qed
      ultimately show ?thesis using H by (simp add: client_hist_def 2(2))
    qed
    ultimately show ?thesis using r names 2(2) by (simp add: client_ok_def)
  qed
  then show "client_ok h c1" "ref_ok (queue_names c1) n i" "\<exists>xs. queue_names c1 = queue_names c @ xs"
    "cl_calls c1 = cl_calls c" "cl_streams c1 = cl_streams c" "cl_dones c1 = cl_dones c" by blast+
qed

lemma trackDoneChan_cases:
  assumes "trackDoneChan n c = (i, c1)"
  obtains "(n, i) \<in> set (cl_trackDone c)" "c1 = c"
    | "i = length (cl_dones c)" "c1 = c\<lparr>cl_dones := cl_dones c @ [False], cl_trackDone := (n, i) # cl_trackDone c\<rparr>"
proof (cases "map_of (cl_trackDone c) n")
  case None
  then have "(length (cl_dones c), c\<lparr>cl_dones := cl_dones c @ [False], cl_trackDone := (n, length (cl_dones c)) # cl_trackDone c\<rparr>) = (i, c1)"
    using assms by (simp only: trackDoneChan_def option.case)
  then show ?thesis using that(2) by blast
next
  case (Some k)
  then have "k = i" "c = c1" using assms unfolding trackDoneChan_def by simp_all
  then show ?thesis using map_of_SomeD [OF Some] that(1) by blast
qed

text \<open>Done channels only appear and are only closed: one rule for \<open>trackDoneChan\<close> and \<open>handleRemoteUnannounce\<close>.\<close>

lemma client_ok_dones:
  assumes "client_ok h c" "dones_ok ds m" "length (cl_dones c) \<le> length ds" "set ts \<subseteq> set (cl_tracks c)"
  shows "client_ok h (c\<lparr>cl_tracks := ts, cl_dones := ds, cl_trackDone := m\<rparr>)"
proof -
  note D = client_okD [OF assms(1)]
  have "call_ok (queue_names c) (length ds) k" if "call_ok (queue_names c) (length (cl_dones c)) k" for k
    using call_ok_mono [OF that assms(3), of "[]"] by simp
  then have "list_all (call_ok (queue_names c) (length ds)) (cl_calls c)" using D(6) by (simp add: list_all_iff)
  moreover have "\<forall>p \<in> set ts. ref_ok (queue_names c) (fst p) (snd p)" using D(4) assms(4) by blast
  ultimately have "client_inv (c\<lparr>cl_tracks := ts, cl_dones := ds, cl_trackDone := m\<rparr>)"
    using D assms(2) by (simp add: client_inv_def queue_names_def)
  then show ?thesis using assms(1) by (simp add: client_ok_def client_hist_def routed_def [abs_def])
qed

lemma client_ok_trackDoneChan:
  assumes "client_ok h c" "trackDoneChan n c = (i, c1)"
  shows "client_ok h c1" "i < length (cl_dones c1)" "cl_calls c1 = cl_calls c" "queue_names c1 = queue_names c"
proof -
  have "client_ok h c1 \<and> i < length (cl_dones c1) \<and> cl_calls c1 = cl_calls c \<and> queue_names c1 = queue_names c"
    using assms(2)
  proof (cases rule: trackDoneChan_cases)
    case 1
    then have "i < length (cl_dones c)" using client_okD(5) [OF assms(1)] by (auto simp: dones_ok_def)
    then show ?thesis using assms(1) 1(2) by simp
  next
    case 2
    have "dones_ok (cl_dones c @ [False]) ((n, length (cl_dones c)) # cl_trackDone c)"
      using client_okD(5) [OF assms(1)] unfolding dones_ok_def by (auto simp: nth_append)
    from client_ok_dones [OF assms(1) this _ subset_refl]
    have "client_ok h (c\<lparr>cl_tracks := cl_tracks c, cl_dones := cl_dones c @ [False], cl_trackDone := (n, length (cl_dones c)) # cl_trackDone c\<rparr>)"
      by simp
    moreover have "i < length (cl_dones c1)" "cl_calls c1 = cl_calls c" "queue_names c1 = queue_names c"
      unfolding 2 by (simp_all add: queue_names_def)
    ultimately show ?thesis unfolding 2 by simp
  qed
  then show "client_ok h c1" "i < length (cl_dones c1)" "cl_calls c1 = cl_calls c" "queue_names c1 = queue_names c" by blast+
qed

lemma client_ok_Announce: "client_ok h c \<Longrightarrow> client_ok h (handleRemoteAnnounce a c)"
  using client_ok_trackChan(1) [of h c "an_Name a"]
  by (cases "trackChan (an_Name a) c") (simp add: handleRemoteAnnounce_def Let_def)

lemma dones_ok_close:
  assumes "dones_ok ds m" "(n, i) \<in> set m"
  shows "dones_ok (ds[i := True]) (filter (\<lambda>p. fst p \<noteq> n) m)"
proof -
  have "snd p \<noteq> i" if "p \<in> set m" "fst p \<noteq> n" for p
  proof
    assume "snd p = i"
    then have "p = (n, i)" using assms that inj_on_eq_iff [of snd "set m" p "(n, i)"]
      by (simp add: dones_ok_def distinct_map)
    then show False using that(2) by simp
  qed
  then show ?thesis using assms(1) unfolding dones_ok_def by (auto simp: distinct_map_filter) (metis nth_list_update_neq snd_conv)
qed

lemma client_ok_Unannounce:
  assumes "client_ok h c"
  shows "\<exists>c'. handleRemoteUnannounce u c = Some c' \<and> client_ok h c'"
proof -
  let ?ts = "filter (\<lambda>p. fst p \<noteq> un_Name u) (cl_tracks c)"
  have ts: "set ?ts \<subseteq> set (cl_tracks c)" by auto
  show ?thesis
  proof (cases "map_of (cl_trackDone c) (un_Name u)")
    case None
    have "client_ok h (c\<lparr>cl_tracks := ?ts\<rparr>)"
      using client_ok_dones [OF assms client_okD(5) [OF assms] order_refl ts] by simp
    then show ?thesis using None by (simp add: handleRemoteUnannounce_def Let_def)
  next
    case (Some i)
    then have m: "(un_Name u, i) \<in> set (cl_trackDone c)" by (rule map_of_SomeD)
    then have "\<not> cl_dones c ! i" using client_okD(5) [OF assms] by (auto simp: dones_ok_def)
    moreover have "client_ok h (c\<lparr>cl_tracks := ?ts, cl_dones := (cl_dones c)[i := True],
        cl_trackDone := filter (\<lambda>p. fst p \<noteq> un_Name u) (cl_trackDone c)\<rparr>)"
      using client_ok_dones [OF assms dones_ok_close [OF client_okD(5) [OF assms] m] _ ts] by simp
    ultimately show ?thesis using Some by (simp add: handleRemoteUnannounce_def Let_def)
  qed
qed

lemma client_ok_ctl_frame:
  assumes "client_ok h c"
  shows "\<exists>go_on c'. client_ctl_frame j t payload c = Some (go_on, c') \<and> client_ok h c'"
proof -
  obtain d where d: "Deliver payload (cl_dc c) = Some d" "channel_ok d"
    using Deliver_ok [OF client_okD(1) [OF assms]] by blast
  obtain c1 c2 where f: "client_fail (Some (ErrPeer (string_of_bytes payload))) c = Some c1" "client_ok h c1"
    "client_fail None c = Some c2" "client_ok h c2" using client_ok_fail [OF assms] by metis
  obtain un where un: "\<And>u. handleRemoteUnannounce u c = Some (un u) \<and> client_ok h (un u)"
    using client_ok_Unannounce [OF assms] by metis
  show ?thesis
    unfolding client_ctl_frame_def d(1) f(1,3)
    using assms client_ok_dc [OF assms d(2)] client_ok_Announce [OF assms] f(2,4) un by (simp add: ex_bool_eq split: sum.split)
qed

lemma client_ok_controlReader:
  assumes "client_ok h c"
  shows "client_controlReader j c \<noteq> Panics \<and> (\<forall>c'. client_controlReader j c = Steps c' \<longrightarrow> client_ok h c')"
proof (cases "ReadControlFrame (cl_ctlIn c)")
  case (Inl e)
  then show ?thesis using assms by (auto simp: client_controlReader_def)
next
  case (Inr p)
  obtain t payload rest where p: "p = ((t, payload), rest)" by (cases p) auto
  from assms have "client_ok h (c\<lparr>cl_ctlIn := rest\<rparr>)" by simp
  from client_ok_ctl_frame [OF this] obtain go_on c'
    where "client_ctl_frame j t payload (c\<lparr>cl_ctlIn := rest\<rparr>) = Some (go_on, c')" "client_ok h c'" by blast
  then show ?thesis using Inr p by (auto simp: client_controlReader_def)
qed

section \<open>Receiving\<close>

lemma hist_simps [simp]:
  "put_in i (h @ [PutAU s q au]) = put_in i h @ (if q = i then [au] else [])"
  "put_in i (h @ [GotAU n q au]) = put_in i h"
  "put_by r (h @ [PutAU s q au]) = put_by r h @ (if s = r then [au] else [])"
  "put_by r (h @ [GotAU n q au]) = put_by r h"
  "taken_from i (h @ [PutAU s q au]) = taken_from i h"
  "taken_from i (h @ [GotAU n q au]) = taken_from i h @ (if q = i then [au] else [])"
  "received m (h @ [PutAU s q au]) = received m h"
  "received m (h @ [GotAU n q au]) = received m h @ (if n = m then [au] else [])"
  by (simp_all add: put_in_def put_by_def taken_from_def received_def)

lemma high_water_snoc:
  "high_water m (aus @ [au]) = Some (case high_water m aus of None \<Rightarrow> au_Seq au | Some x \<Rightarrow> max x (au_Seq au))"
  by (induction aus arbitrary: m) simp_all

lemma map_of_filter_ne: "map_of (filter (\<lambda>p. fst p \<noteq> k) m) n = (if n = k then None else map_of m n)"
  by (induction m) auto

lemma observeSeq_lastSeen:
  "map_of (cl_lastSeenSeq (observeSeq n seq c)) m =
     (if m = n then Some (case map_of (cl_lastSeenSeq c) n of None \<Rightarrow> seq | Some x \<Rightarrow> max x seq) else map_of (cl_lastSeenSeq c) m)"
  by (auto simp: observeSeq_def map_of_filter_ne max_def split: option.splits)

lemma observeSeq_frame [simp]:
  "cl_queues (observeSeq n seq c) = cl_queues c" "cl_streams (observeSeq n seq c) = cl_streams c"
  "cl_calls (observeSeq n seq c) = cl_calls c" "cl_closed (observeSeq n seq c) = cl_closed c"
  "cl_dones (observeSeq n seq c) = cl_dones c" "cl_tracks (observeSeq n seq c) = cl_tracks c"
  "cl_trackDone (observeSeq n seq c) = cl_trackDone c" "cl_dc (observeSeq n seq c) = cl_dc c"
  "cl_feedErr (observeSeq n seq c) = cl_feedErr c" "cl_bcs (observeSeq n seq c) = cl_bcs c"
  "cl_pubTracks (observeSeq n seq c) = cl_pubTracks c"
  by (simp_all add: observeSeq_def)

lemma upd_queue_frame:
  "length (cl_queues (upd_queue i ch c)) = length (cl_queues c)" "queue_names (upd_queue i ch c) = queue_names c"
  "rq_name (cl_queues (upd_queue i ch c) ! k) = rq_name (cl_queues c ! k)"
proof -
  show "length (cl_queues (upd_queue i ch c)) = length (cl_queues c)" by (simp add: upd_queue_def)
  show "queue_names (upd_queue i ch c) = queue_names c"
    by (simp add: upd_queue_def queue_names_def map_update) (metis list_update_id map_update)
  show "rq_name (cl_queues (upd_queue i ch c) ! k) = rq_name (cl_queues c ! k)"
    by (cases "i < length (cl_queues c)"; cases "i = k") (simp_all add: upd_queue_def list_update_beyond)
qed

lemma client_inv_upd_queue:
  assumes "client_inv c" "i < length (cl_queues c)" "c_cap ch = 16" "length (c_buf ch) \<le> 16" "\<not> c_closed ch"
  shows "client_inv (upd_queue i ch c)"
proof -
  have "queue_ok ((cl_queues c ! i)\<lparr>rq_ch := ch\<rparr>)" using assms(3-5) by (simp add: queue_ok_def)
  then have "list_all queue_ok (cl_queues (upd_queue i ch c))"
    using assms(1) by (simp add: upd_queue_def client_inv_def list_all_update)
  then show ?thesis using assms(1) unfolding client_inv_def upd_queue_frame(2) by (simp add: upd_queue_def)
qed

lemma client_ok_calls:
  "client_ok h c \<Longrightarrow> list_all (call_ok (queue_names c) (length (cl_dones c))) ks \<Longrightarrow> client_ok h (c\<lparr>cl_calls := ks\<rparr>)"
  by (simp add: client_ok_def client_inv_def client_hist_def queue_names_def routed_def [abs_def])

lemma client_ok_set_call:
  assumes "client_ok h c" "call_ok (queue_names c) (length (cl_dones c)) ((cl_calls c ! k)\<lparr>cc_phase := ph\<rparr>)"
  shows "client_ok h (set_call k ph c)"
  unfolding set_call_def using client_okD(6) [OF assms(1)] assms by (intro client_ok_calls list_all_update)

lemma client_ok_take:
  assumes "client_ok h c" "ref_ok (queue_names c) n i" "chan_recv (rq_ch (cl_queues c ! i)) = Some (au, ch)"
  shows "client_ok (h @ [GotAU n i au]) (observeSeq n (au_Seq au) (upd_queue i ch c))"
proof -
  let ?c = "upd_queue i ch c" let ?c' = "observeSeq n (au_Seq au) ?c"
  have i: "i < length (cl_queues c)" "rq_name (cl_queues c ! i) = n"
    using assms(2) by (auto simp: ref_ok_def queue_names_def)
  have buf: "c_buf (rq_ch (cl_queues c ! i)) = au # c_buf ch" "c_cap ch = c_cap (rq_ch (cl_queues c ! i))"
    "c_closed ch = c_closed (rq_ch (cl_queues c ! i))"
    using assms(3) by (auto simp: chan_recv_def split: list.splits)
  have q: "queue_ok (cl_queues c ! i)" using client_okD(3) [OF assms(1)] i(1) by (simp add: list_all_length)
  have "client_inv ?c"
    using assms(1) i(1) q buf by (intro client_inv_upd_queue) (simp_all add: client_ok_def queue_ok_def)
  then have "client_inv ?c'" by (simp add: client_inv_def queue_names_def)
  moreover have H: "client_hist h c" using assms(1) by (simp add: client_ok_def)
  have "put_in k (h @ [GotAU n i au]) = taken_from k (h @ [GotAU n i au]) @ c_buf (rq_ch (cl_queues ?c' ! k))"
    if k: "k < length (cl_queues c)" for k
    using H k buf(1) i(1) by (cases "k = i") (auto simp: client_hist_def upd_queue_def)
  moreover have "list_all (routed ?c') (h @ [GotAU n i au])"
    using H i by (simp add: client_hist_def routed_def [abs_def] upd_queue_frame) (simp add: upd_queue_def)
  moreover have "map_of (cl_lastSeenSeq ?c') m = high_water None (received m (h @ [GotAU n i au]))" for m
    using H by (simp add: observeSeq_lastSeen high_water_snoc client_hist_def) (simp add: upd_queue_def client_hist_def)
  ultimately have "client_hist (h @ [GotAU n i au]) ?c'"
    using H by (simp add: client_hist_def upd_queue_frame(1)) (simp add: upd_queue_def)
  then show ?thesis using \<open>client_inv ?c'\<close> by (simp add: client_ok_def)
qed

lemma client_ok_RecvOn_call: "client_ok h c \<Longrightarrow> client_ok h (RecvOn_call n c)"
proof -
  assume a: "client_ok h c"
  obtain i c1 where t: "trackChan n c = (i, c1)" by fastforce
  note T = client_ok_trackChan [OF a t]
  have "list_all (call_ok (queue_names c1) (length (cl_dones c1))) (cl_calls c1 @ [\<lparr>cc_name = n, cc_phase = CallChan i\<rparr>])"
    using client_okD(6) [OF T(1)] T(2) by (simp add: call_ok_def)
  then show ?thesis using client_ok_calls [OF T(1)] t by (simp add: RecvOn_call_def)
qed

lemma client_ok_RecvOn_done:
  assumes "client_ok h c" "RecvOn_done k c = Steps c'"
  shows "client_ok h c'"
proof -
  obtain i where k: "k < length (cl_calls c)" "cc_phase (cl_calls c ! k) = CallChan i"
    using assms(2) by (auto simp: RecvOn_done_def split: if_splits call_phase.splits)
  obtain d c1 where t: "trackDoneChan (cc_name (cl_calls c ! k)) c = (d, c1)" by fastforce
  note T = client_ok_trackDoneChan [OF assms(1) t]
  have "call_ok (queue_names c) (length (cl_dones c)) (cl_calls c ! k)"
    using client_okD(6) [OF assms(1)] k(1) by (simp add: list_all_length)
  then have "call_ok (queue_names c1) (length (cl_dones c1)) ((cl_calls c1 ! k)\<lparr>cc_phase := CallWait i d\<rparr>)"
    using T k(2) by (simp add: call_ok_def)
  from client_ok_set_call [OF T(1) this] show ?thesis using assms(2) k t by (simp add: RecvOn_done_def)
qed

lemma call_ok_returned: "call_ok ns d k \<Longrightarrow> cc_phase k = CallWait i e \<Longrightarrow> call_ok ns d (k\<lparr>cc_phase := CallReturned i r\<rparr>)"
  by (simp add: call_ok_def)

lemma client_ok_select:
  assumes "client_ok h c" "RecvOn_select arm k c = Steps c'"
  shows "client_ok (h @ client_event (CoSelect arm k) c) c'"
proof -
  obtain i d where k: "k < length (cl_calls c)" "cc_phase (cl_calls c ! k) = CallWait i d"
    using assms(2) by (auto simp: RecvOn_select_def split: if_splits call_phase.splits)
  have ok: "call_ok (queue_names c) (length (cl_dones c)) (cl_calls c ! k)"
    using client_okD(6) [OF assms(1)] k(1) by (simp add: list_all_length)
  note ret = call_ok_returned [OF ok k(2)]
  have upd: "client_ok g (set_call k (CallReturned i r) c1)"
    if "client_ok g c1" "queue_names c1 = queue_names c" "cl_dones c1 = cl_dones c" "cl_calls c1 = cl_calls c" for g c1 r
    using that ret by (intro client_ok_set_call) simp_all
  show ?thesis
  proof (cases arm)
    case ArmAU
    obtain au ch where r: "chan_recv (rq_ch (cl_queues c ! i)) = Some (au, ch)"
      using assms(2) k ArmAU by (auto simp: RecvOn_select_def split: option.splits)
    have "ref_ok (queue_names c) (cc_name (cl_calls c ! k)) i" using ok k(2) by (simp add: call_ok_def)
    note T = client_ok_take [OF assms(1) this r]
    have "queue_names (observeSeq n x (upd_queue i ch c)) = queue_names c" for n x
      using upd_queue_frame(2) [of i ch c] by (simp add: queue_names_def)
    from upd [OF T this] show ?thesis using assms(2) k ArmAU r
      by (auto simp: RecvOn_select_def client_event_def upd_queue_def)
  next
    case ArmFeedErr
    then obtain e q where r: "chan_recv (cl_feedErr c) = Some (e, q)"
      using assms(2) k by (auto simp: RecvOn_select_def split: option.splits)
    then have "client_ok h (c\<lparr>cl_feedErr := q\<rparr>)"
      using client_okD(2) [OF assms(1)] by (intro client_ok_feedErr assms(1)) (auto simp: chan_recv_def split: list.splits)
    from upd [OF this] show ?thesis using assms(2) k ArmFeedErr r by (auto simp: RecvOn_select_def client_event_def queue_names_def)
  next
    case ArmDone
    then show ?thesis using assms k upd [OF assms(1)] by (auto simp: RecvOn_select_def client_event_def split: if_splits)
  next
    case ArmCtx
    then show ?thesis using assms k upd [OF assms(1)] by (auto simp: RecvOn_select_def client_event_def)
  next
    case ArmClosed
    obtain r c1 where e: "client_endError c = (r, c1)" by fastforce
    have "client_ok h c1" using client_ok_endError [OF assms(1)] e by simp
    moreover have "queue_names c1 = queue_names c" "cl_dones c1 = cl_dones c" "cl_calls c1 = cl_calls c"
      using e by (auto simp: client_endError_def queue_names_def split: option.splits prod.splits)
    ultimately show ?thesis using assms(2) k ArmClosed e upd by (auto simp: RecvOn_select_def client_event_def split: if_splits)
  qed
qed

section \<open>Draining\<close>

lemma client_ok_stream:
  assumes "client_ok h c" "s < length (cl_streams c)" "cs_content st = cs_content (cl_streams c ! s)"
    and "pending (cl_streams c ! s) = pending st @ skipped" "cl_closed c \<or> skipped = []" "stream_ok (queue_names c) st"
  shows "client_ok h (c\<lparr>cl_streams := (cl_streams c)[s := st]\<rparr>)"
proof -
  let ?c = "c\<lparr>cl_streams := (cl_streams c)[s := st]\<rparr>"
  have H: "client_hist h c" using assms(1) by (simp add: client_ok_def)
  have "client_inv ?c" using assms(1,6) list_all_update [OF client_okD(7) [OF assms(1)] assms(6)]
    by (simp add: client_ok_def client_inv_def queue_names_def)
  moreover have "\<exists>lost. stream_aus (cs_content (cl_streams ?c ! r)) = put_by r h @ pending (cl_streams ?c ! r) @ lost \<and>
      (cl_closed c \<or> lost = [])" if r: "r < length (cl_streams c)" for r
  proof (cases "r = s")
    case True
    obtain lost where "stream_aus (cs_content (cl_streams c ! s)) = put_by s h @ pending (cl_streams c ! s) @ lost"
      "cl_closed c \<or> lost = []" using H assms(2) by (auto simp: client_hist_def)
    then have "stream_aus (cs_content st) = put_by s h @ pending st @ (skipped @ lost)" "cl_closed c \<or> skipped @ lost = []"
      using assms(3-5) by auto
    then show ?thesis using True assms(2) by auto
  next
    case False
    then show ?thesis using H r by (auto simp: client_hist_def)
  qed
  moreover have "routed ?c = routed c"
    using assms(2,3) by (auto simp: routed_def [abs_def] fun_eq_iff nth_list_update split: client_event.split)
  ultimately show ?thesis using H unfolding client_ok_def client_hist_def by simp
qed

lemma client_ok_put:
  assumes "client_ok h c" "s < length (cl_streams c)" "cs_phase (cl_streams c ! s) = SSend i kind au"
    and "chan_send au (rq_ch (cl_queues c ! i)) = Sent q"
  shows "client_ok (h @ [PutAU s i au]) (set_stream s (SLoop i kind) (cs_src (cl_streams c ! s)) (upd_queue i q c))"
proof -
  let ?st = "(cl_streams c ! s)\<lparr>cs_phase := SLoop i kind\<rparr>"
  let ?c = "(upd_queue i q c)\<lparr>cl_streams := (cl_streams c)[s := ?st]\<rparr>"
  have H: "client_hist h c" using assms(1) by (simp add: client_ok_def)
  have ok: "stream_ok (queue_names c) (cl_streams c ! s)" using client_okD(7) [OF assms(1)] assms(2) by (simp add: list_all_length)
  then have i: "i < length (cl_queues c)" "stream_track (cs_content (cl_streams c ! s)) = Some (rq_name (cl_queues c ! i))"
    and st: "stream_ok (queue_names c) ?st"
    using assms(3) by (auto simp: stream_ok_def queue_names_def)
  have q: "queue_ok (cl_queues c ! i)" using client_okD(3) [OF assms(1)] i(1) by (simp add: list_all_length)
  have buf: "c_buf q = c_buf (rq_ch (cl_queues c ! i)) @ [au]" "c_cap q = 16" "length (c_buf q) \<le> 16" "\<not> c_closed q"
    using assms(4) q by (auto simp: chan_send_def queue_ok_def split: if_splits)
  have "client_inv (upd_queue i q c)" using assms(1) i(1) buf by (intro client_inv_upd_queue) (simp_all add: client_ok_def)
  then have A: "client_inv ?c" using list_all_update [OF client_okD(7) [OF assms(1)] st] upd_queue_frame(2) [of i q c]
    by (simp add: client_inv_def queue_names_def)
  have B: "put_in k (h @ [PutAU s i au]) = taken_from k (h @ [PutAU s i au]) @ c_buf (rq_ch (cl_queues ?c ! k))"
    if k: "k < length (cl_queues c)" for k
    using H k buf(1) i(1) by (cases "k = i") (auto simp: client_hist_def upd_queue_def)
  have C: "\<exists>lost. stream_aus (cs_content (cl_streams ?c ! r)) = put_by r (h @ [PutAU s i au]) @ pending (cl_streams ?c ! r) @ lost \<and>
      (cl_closed ?c \<or> lost = [])" if r: "r < length (cl_streams c)" for r
    using H r assms(2,3) by (cases "r = s") (auto simp: client_hist_def pending_def upd_queue_def)
  have D: "list_all (routed ?c) (h @ [PutAU s i au])"
  proof -
    have "routed ?c = routed c" using assms(2) upd_queue_frame [of i q c]
      by (auto simp: routed_def [abs_def] fun_eq_iff nth_list_update split: client_event.split)
    then show ?thesis using H i assms(2) by (simp add: client_hist_def) (simp add: routed_def)
  qed
  have len: "length (cl_queues ?c) = length (cl_queues c)" "length (cl_streams ?c) = length (cl_streams c)"
    "cl_lastSeenSeq ?c = cl_lastSeenSeq c" by (simp_all add: upd_queue_def)
  have "client_hist (h @ [PutAU s i au]) ?c"
    unfolding client_hist_def len hist_simps(7) using B C D H client_hist_def by blast
  then have "client_ok (h @ [PutAU s i au]) ?c" using A by (simp add: client_ok_def)
  then show ?thesis by (simp add: set_stream_def upd_queue_def)
qed

lemma client_ok_drain_return:
  assumes "client_ok h c" "s < length (cl_streams c)" "pending (cl_streams c ! s) = [] \<or> cl_closed c"
  shows "client_ok h (drain_return s c)"
  unfolding drain_return_def using assms
  by (intro client_ok_stream [of h c s _ "pending (cl_streams c ! s)"]) (auto simp: pending_def stream_ok_def)

lemma client_ok_set_stream:
  assumes "client_ok h c" "s < length (cl_streams c)"
    and "pending ((cl_streams c ! s)\<lparr>cs_phase := ph, cs_src := src\<rparr>) = pending (cl_streams c ! s)"
    and "stream_ok (queue_names c) ((cl_streams c ! s)\<lparr>cs_phase := ph, cs_src := src\<rparr>)"
  shows "client_ok h (set_stream s ph src c)"
  unfolding set_stream_def using assms by (intro client_ok_stream [of h c s _ "[]"]) simp_all

lemma client_ok_accept:
  assumes "client_ok h c"
  shows "client_accept bidi x c \<noteq> Panics \<and> (\<forall>c'. client_accept bidi x c = Steps c' \<longrightarrow> client_ok h c')"
proof (cases x)
  case (Inl e)
  obtain c1 where "client_fail (Some e) c = Some c1" "client_ok h c1" using client_ok_fail [OF assms] by blast
  then show ?thesis using Inl assms by (auto simp: client_accept_def)
next
  case (Inr content)
  let ?s = "\<lparr>cs_bidi = bidi, cs_content = content, cs_src = content, cs_phase = SOpen, cs_fin = False\<rparr>"
  let ?c = "c\<lparr>cl_streams := cl_streams c @ [?s]\<rparr>"
  have H: "client_hist h c" using assms by (simp add: client_ok_def)
  have "client_inv ?c" using assms by (simp add: client_ok_def client_inv_def queue_names_def stream_ok_def)
  moreover have "client_hist h ?c"
  proof -
    have R: "list_all (routed c) h" using H by (simp add: client_hist_def)
    have "list_all (routed ?c) h" using R
      by (rule list.pred_mono_strong) (auto simp: routed_def nth_append split: client_event.splits)
    moreover have "\<exists>lost. stream_aus (cs_content (cl_streams ?c ! s)) = put_by s h @ pending (cl_streams ?c ! s) @ lost \<and>
        (cl_closed ?c \<or> lost = [])" if s: "s < length (cl_streams ?c)" for s
    proof (cases "s < length (cl_streams c)")
      case True
      then show ?thesis using H by (simp add: client_hist_def nth_append)
    next
      case False
      then have "s = length (cl_streams c)" using s by simp
      then show ?thesis using put_by_none [OF R, of s] by (simp add: pending_def)
    qed
    ultimately show ?thesis using H unfolding client_hist_def by simp
  qed
  ultimately show ?thesis using Inr by (auto simp: client_accept_def client_ok_def)
qed

lemma drain_stats_frame: "\<exists>k. drain_stats kind f now c = c\<lparr>cl_kindStats := k\<rparr>"
proof (cases "cl_kindStats c")
  case None
  then show ?thesis by (intro exI [of _ None]) (simp add: drain_stats_def)
qed (auto simp: drain_stats_def)

lemma client_ok_drain_read:
  assumes "client_ok h c" "s < length (cl_streams c)" "cs_phase (cl_streams c ! s) = SLoop i kind"
    and "ReadFeedFrame (cs_src (cl_streams c ! s)) = Inr (f, rest)"
  shows "client_ok h (set_stream s (SSend i kind (client_au f)) rest (drain_stats kind f now c))"
proof -
  obtain k where k: "drain_stats kind f now c = c\<lparr>cl_kindStats := k\<rparr>" using drain_stats_frame by blast
  have "stream_ok (queue_names c) (cl_streams c ! s)" using client_okD(7) [OF assms(1)] assms(2) by (simp add: list_all_length)
  moreover have "frames_aus (cs_src (cl_streams c ! s)) = client_au f # frames_aus rest"
    using frames_aus_unfold [of "cs_src (cl_streams c ! s)"] assms(4) by simp
  ultimately show ?thesis unfolding k using assms(1-3)
    by (intro client_ok_set_stream) (simp_all add: pending_def stream_ok_def queue_names_def)
qed

lemma client_ok_drain_chan:
  assumes "client_ok h c" "s < length (cl_streams c)" "cs_phase (cl_streams c ! s) = SName n" "trackChan n c = (i, c1)"
  shows "client_ok h (set_stream s (SKind n i) (cs_src (cl_streams c ! s)) c1)"
proof -
  note T = client_ok_trackChan [OF assms(1,4)]
  have "stream_ok (queue_names c) (cl_streams c ! s)" using client_okD(7) [OF assms(1)] assms(2) by (simp add: list_all_length)
  then show ?thesis using T assms(2,3) by (intro client_ok_set_stream) (simp_all add: pending_def stream_ok_def)
qed

lemma client_ok_drain_open:
  assumes "client_ok h c" "s < length (cl_streams c)" "cs_phase (cl_streams c ! s) = SOpen"
    and "stream_open (cs_src (cl_streams c ! s)) = Some (n, src)"
  shows "client_ok h (set_stream s (SName n) src c)"
proof -
  have "stream_ok (queue_names c) (cl_streams c ! s)" using client_okD(7) [OF assms(1)] assms(2) by (simp add: list_all_length)
  then show ?thesis using assms
    by (intro client_ok_set_stream) (simp_all add: pending_def stream_ok_def stream_aus_def stream_track_def)
qed

lemma client_ok_drain_step:
  assumes "client_ok h c"
  shows "drain_step s now c \<noteq> Panics \<and> (\<forall>c'. drain_step s now c = Steps c' \<longrightarrow> client_ok (h @ client_event (CoDrain s now) c) c')"
proof (cases "s < length (cl_streams c)")
  case s: True
  have ok: "stream_ok (queue_names c) (cl_streams c ! s)" using client_okD(7) [OF assms] s by (simp add: list_all_length)
  show ?thesis
  proof (cases "cs_phase (cl_streams c ! s)")
    case SOpen
    then have "stream_open (cs_src (cl_streams c ! s)) = None \<Longrightarrow> client_ok h (drain_return s c)"
      using assms s by (intro client_ok_drain_return) (simp_all add: pending_def stream_aus_def)
    then show ?thesis using s SOpen client_ok_drain_open [OF assms s SOpen]
      by (auto simp: drain_step_def client_event_def split: option.split)
  next
    case (SName n)
    then show ?thesis using s client_ok_drain_chan [OF assms s SName]
      by (auto simp: drain_step_def client_event_def split: prod.split)
  next
    case (SKind n i)
    have "client_ok h (set_stream s (SLoop i (kindForTrack n c)) (cs_src (cl_streams c ! s)) c)"
      using assms s ok SKind by (intro client_ok_set_stream) (auto simp: pending_def stream_ok_def ref_ok_def)
    then show ?thesis using s SKind by (simp add: drain_step_def client_event_def)
  next
    case (SLoop i kind)
    have "ReadFeedFrame (cs_src (cl_streams c ! s)) = Inl e \<Longrightarrow> client_ok h (drain_return s c)" for e
      using assms s SLoop frames_aus_unfold [of "cs_src (cl_streams c ! s)"]
      by (intro client_ok_drain_return) (simp_all add: pending_def)
    then show ?thesis using s SLoop client_ok_drain_read [OF assms s SLoop]
      by (auto simp: drain_step_def client_event_def split: sum.split)
  next
    case (SSend i kind au)
    have "i < length (cl_queues c)" using ok SSend by (simp add: stream_ok_def queue_names_def)
    then have "\<not> c_closed (rq_ch (cl_queues c ! i))" using client_okD(3) [OF assms] by (simp add: list_all_length queue_ok_def)
    then have "chan_send au (rq_ch (cl_queues c ! i)) \<noteq> SendPanic" by (simp add: chan_send_def)
    then show ?thesis using s SSend client_ok_put [OF assms s SSend]
      by (auto simp: drain_step_def client_event_def split: send_result.split)
  next
    case SEnd
    then show ?thesis by (simp add: drain_step_def)
  qed
qed (simp add: drain_step_def)

section \<open>Runs\<close>

lemma client_ok_exec:
  assumes "client_ok h c"
  shows "client_exec j op c \<noteq> Panics \<and> (\<forall>c'. client_exec j op c = Steps c' \<longrightarrow> client_ok (h @ client_event op c) c')"
proof (cases op)
  case CoControl
  then show ?thesis using client_ok_controlReader [OF assms] by (simp add: client_event_def)
next
  case (CoAccept bidi x)
  then show ?thesis using client_ok_accept [OF assms] by (simp add: client_event_def)
next
  case (CoDrain s now)
  then show ?thesis using client_ok_drain_step [OF assms] by simp
next
  case (CoDrainClosed s)
  then show ?thesis using client_ok_drain_return [OF assms, of s]
    by (auto simp: client_event_def drain_closed_def split: stream_phase.split)
next
  case (CoRecvOn n)
  then show ?thesis using client_ok_RecvOn_call [OF assms] by (simp add: client_event_def)
next
  case (CoRecvDone k)
  have "RecvOn_done k c \<noteq> Panics" by (simp add: RecvOn_done_def split: call_phase.split prod.split)
  then show ?thesis using CoRecvDone client_ok_RecvOn_done [OF assms] by (simp add: client_event_def)
next
  case (CoSelect arm k)
  have "RecvOn_select arm k c \<noteq> Panics"
    by (simp add: RecvOn_select_def split: call_phase.split recv_arm.split option.split prod.split)
  then show ?thesis using CoSelect client_ok_select [OF assms] by simp
next
  case (CoPublish lt)
  then show ?thesis using client_ok_Publish [OF assms] by (simp add: client_event_def)
next
  case (CoSend s au)
  then show ?thesis using client_ok_Send [OF assms, of s au] by (auto simp: client_event_def)
next
  case (CoSenderClose s)
  then show ?thesis using client_ok_SenderClose [OF assms] by (simp add: client_event_def)
next
  case (CoBackpressure n l)
  then show ?thesis using assms by (auto simp: client_event_def client_SendBackpressure_def split: sum.split)
next
  case (CoKeyframe n)
  then show ?thesis using assms by (auto simp: client_event_def client_RequestKeyframe_def split: sum.split)
next
  case (CoData msg)
  then show ?thesis using assms by (simp add: client_event_def)
next
  case CoTick
  have "client_ok h (snd (emit_samples j ks (c\<lparr>cl_kindStats := k\<rparr>)))" for ks k
    using client_ok_emit [of h "c\<lparr>cl_kindStats := k\<rparr>"] assms by simp
  then show ?thesis using CoTick
    by (auto simp: client_event_def emitKindStats_tick_def Let_def split: option.split prod.split) (metis snd_conv)
next
  case CoClose
  then show ?thesis using client_ok_Close [OF assms] by (simp add: client_event_def)
qed

lemma client_ok_trace:
  "client_ok h c \<Longrightarrow> \<exists>h' c'. client_trace j ops (h, c) = Some (h', c') \<and> client_ok h' c'"
proof (induction ops arbitrary: h c)
  case (Cons op ops)
  show ?case
  proof (cases "client_exec j op c")
    case (Steps c1)
    then show ?thesis using Cons.IH [of "h @ client_event op c" c1] client_ok_exec [OF Cons.prems] by simp
  qed (use Cons client_ok_exec [OF Cons.prems, of j op] in simp_all)
qed simp

lemma NewClient_ok: "client_ok [] (NewClient opts ctl ctlIn)"
  by (simp add: client_ok_def client_inv_def client_hist_def NewClient_def queue_ok_def new_queue_def ref_ok_def queue_names_def
      dones_ok_def put_in_def taken_from_def received_def)

lemma client_ok_handshake: "client_ok h c \<Longrightarrow> client_ok h (snd (client_handshake j slug c))"
proof -
  assume a: "client_ok h c"
  have w: "client_ok h c1" if "writeCtl t p c = (e, c1)" for t p e c1
    using client_ok_writeCtl [of h t p c] that a by simp
  show ?thesis unfolding client_handshake_def Let_def
    using a by (auto dest: w split: sum.split prod.split option.split)
qed

lemma dial_session_ok: "client_ok [] (snd (dial_session j opts slug ctl ctlIn))"
proof -
  have "client_ok [] (snd (client_handshake j slug (NewClient opts ctl ctlIn)))" by (rule client_ok_handshake [OF NewClient_ok])
  then show ?thesis unfolding dial_session_def
    by (cases "client_handshake j slug (NewClient opts ctl ctlIn)") (auto split: option.split intro: client_ok_Close)
qed

text \<open>C11. However the goroutines of a connected client, its callers and the server interleave, no step panics, and at
  every moment: each receive queue holds exactly what was put into it and not yet taken, in order, and at most 16
  AUs; each accepted stream's AUs were put, in order, up to those it still has to deliver, and none is lost
  unless the client was closed; every AU went through the queue of the track that its stream names and was returned by a
  \<open>RecvOn\<close> of that track; and \<open>LastSeenSeq\<close> is the greatest sequence number returned on each track.\<close>

theorem client_delivery:
  "\<exists>h c. client_trace j ops ([], snd (dial_session j opts slug ctl ctlIn)) = Some (h, c) \<and>
     (\<forall>i < length (cl_queues c). put_in i h = taken_from i h @ c_buf (rq_ch (cl_queues c ! i)) \<and>
        length (c_buf (rq_ch (cl_queues c ! i))) \<le> 16) \<and>
     (\<forall>s < length (cl_streams c). \<exists>lost.
        stream_aus (cs_content (cl_streams c ! s)) = put_by s h @ pending (cl_streams c ! s) @ lost \<and> (cl_closed c \<or> lost = [])) \<and>
     list_all (routed c) h \<and>
     (\<forall>n. map_of (client_LastSeenSeq c) n = high_water None (received n h))"
proof -
  obtain h c where t: "client_trace j ops ([], snd (dial_session j opts slug ctl ctlIn)) = Some (h, c)" "client_ok h c"
    using client_ok_trace [OF dial_session_ok] by blast
  have "list_all queue_ok (cl_queues c)" "client_hist h c" using t(2) client_okD(3) by (simp_all add: client_ok_def)
  then show ?thesis using t(1) by (auto simp: client_hist_def client_LastSeenSeq_def list_all_length queue_ok_def)
qed

definition ex_sdp :: SDP where
  "ex_sdp = \<lparr>sdp_Codec = [], sdp_Width = 0, sdp_Height = 0, sdp_FPS = 0, sdp_ScreenW = 0, sdp_ScreenH = 0, sdp_SessionID = ''s'',
     sdp_Features = [], sdp_NegotiatedVersion = []\<rparr>"

definition ex_json :: client_json where
  "ex_json = \<lparr>cj_hello = (\<lambda>_. Inr []), cj_sdp = (\<lambda>_. Inr ex_sdp), cj_announce_out = (\<lambda>_. Inr []),
     cj_unannounce_out = (\<lambda>_. Inr []), cj_backpressure_out = (\<lambda>_. Inr []), cj_kindstats_out = (\<lambda>_. Inr []),
     cj_announce_in = (\<lambda>_. Inl EOF), cj_unannounce_in = (\<lambda>_. Inl EOF)\<rparr>"

definition ex_opts :: Options where
  "ex_opts = \<lparr>co_CertHashB64URL = [], co_InsecureSkipVerify = True, co_Slug = ''x'', co_HelloTimeout = 0, co_SessionID = [],
     co_LastSeenSeq = [], co_Features = None, co_DataInboundBuffer = 0\<rparr>"

definition ex_frame :: FeedFrame where
  "ex_frame = \<lparr>ff_Type = TypeKeyframe, ff_PTSMicro = 5, ff_Seq = 9, ff_Flags = 0, ff_PubWallMicro = 0, ff_Payload = [77]\<rparr>"

text \<open>The server sends a stream of the track \<open>cam\<close> with one frame, and the application receives it.\<close>

definition ex_client_ops :: "client_op list" where
  "ex_client_ops = [CoAccept False (Inr (stream_header_bytes ''cam'' @ feed_frame_bytes ex_frame @ [])), CoDrain 0 1, CoDrain 0 1, CoDrain 0 1, CoDrain 0 1, CoDrain 0 1,
     CoRecvOn ''cam'', CoRecvDone 0, CoSelect ArmAU 0]"

lemma ex_dial:
  "\<exists>w. snd (dial_session ex_json ex_opts ''x'' \<lparr>w_out = [], w_script = []\<rparr> (control_frame_bytes (TypeSDP, []))) =
     (NewClient ex_opts w [])\<lparr>cl_sdp := Some ex_sdp, cl_assignedSessionID := ''s''\<rparr>"
proof -
  have r: "ReadControlFrame (control_frame_bytes (TypeSDP, [])) = Inr ((TypeSDP, []), [])"
    using control.dec_enc [of "(TypeSDP, [])" "[]"] by (simp add: control_frame_ok_def)
  obtain w where w: "WriteControlFrame \<lparr>w_out = [], w_script = []\<rparr> TypeHello [] = (None, w)"
    by (auto simp: WriteControlFrame_def MaxControlPayload_def io_write_def)
  have ne: "TypeSDP \<noteq> TypeError" by (simp add: frame_types)
  show ?thesis
    unfolding dial_session_def client_handshake_def writeCtl_def
    by (simp add: ex_json_def NewClient_def w r ne client_hasNegotiatedFeature_def ex_sdp_def Let_def)
qed

lemma ex_run:
  "\<exists>c. client_trace ex_json ex_client_ops ([], snd (dial_session ex_json ex_opts ''x'' \<lparr>w_out = [], w_script = []\<rparr> (control_frame_bytes (TypeSDP, [])))) =
     Some ([PutAU 0 1 (client_au ex_frame), GotAU ''cam'' 1 (client_au ex_frame)], c)"
proof -
  have o: "stream_open (stream_header_bytes ''cam'' @ feed_frame_bytes ex_frame @ []) = Some (''cam'', feed_frame_bytes ex_frame @ [])"
    by (simp add: stream_open_def PeekStreamHeader_bytes MaxStreamHeader_def)
  have f: "ReadFeedFrame (feed_frame_bytes ex_frame @ []) = Inr (ex_frame, [])"
    by (rule ReadFeedFrame_bytes) (simp add: feed_frame_ok_def ex_frame_def MaxFeedPayload_def frame_types)
  obtain w where w: "snd (dial_session ex_json ex_opts ''x'' \<lparr>w_out = [], w_script = []\<rparr> (control_frame_bytes (TypeSDP, []))) =
     (NewClient ex_opts w [])\<lparr>cl_sdp := Some ex_sdp, cl_assignedSessionID := ''s''\<rparr>" using ex_dial by blast
  show ?thesis unfolding w ex_client_ops_def
    by (simp add: NewClient_def client_accept_def drain_step_def client_event_def o f set_stream_def trackChan_def kindForTrack_def
        new_queue_def chan_send_def chan_recv_def make_chan_def drain_stats_def upd_queue_def RecvOn_call_def RecvOn_done_def
        RecvOn_select_def trackDoneChan_def set_call_def Let_def del: append_Nil2)
qed

theorem client_delivery_witness:
  "\<exists>h c. client_trace ex_json ex_client_ops ([], snd (dial_session ex_json ex_opts ''x'' \<lparr>w_out = [], w_script = []\<rparr> (control_frame_bytes (TypeSDP, [])))) = Some (h, c) \<and>
     received ''cam'' h = [client_au ex_frame] \<and> map_of (client_LastSeenSeq c) ''cam'' = Some 9"
proof -
  obtain c where r: "client_trace ex_json ex_client_ops ([], snd (dial_session ex_json ex_opts ''x'' \<lparr>w_out = [], w_script = []\<rparr> (control_frame_bytes (TypeSDP, [])))) =
     Some ([PutAU 0 1 (client_au ex_frame), GotAU ''cam'' 1 (client_au ex_frame)], c)" (is "_ = Some (?h, c)") using ex_run by blast
  have h: "received ''cam'' ?h = [client_au ex_frame]" by (simp add: received_def)
  have "\<forall>n. map_of (client_LastSeenSeq c) n = high_water None (received n ?h)"
    using client_delivery [of ex_json ex_client_ops ex_opts "''x''" "\<lparr>w_out = [], w_script = []\<rparr>" "control_frame_bytes (TypeSDP, [])"] r by auto
  then show ?thesis using r h by (auto simp: client_au_def ex_frame_def)
qed

end
