(* ===== verification/Delivery.thy ===== *)
theory Delivery
  imports Client_Delivery
begin

text \<open>
  From the pump of a publisher (\<^verbatim>\<open>feed/pump.go\<close>) to the subscriber (\<^verbatim>\<open>client/client.go\<close>): what a subscriber reads from any
  part of a stream that a pump wrote. QUIC delivers the bytes of a stream in order, all of them or, when the stream was
  reset, a beginning.
\<close>

text \<open>A cut header is not recognised.\<close>

lemma PeekStreamHeader_cut:
  assumes "k < length (stream_header_bytes name)" "length name \<le> MaxStreamHeader"
  shows "\<exists>e. PeekStreamHeader (take k (stream_header_bytes name)) = Inl e"
proof -
  let ?l = "len3 (length name)" and ?n = "bytes_of_string name"
  have h: "stream_header_bytes name = TypeStreamHeader # ?l @ ?n" by (simp add: stream_header_bytes_def)
  show ?thesis
  proof (cases "k < 4")
    case True
    show ?thesis
    proof (cases k)
      case (Suc m)
      then show ?thesis using True by (simp add: PeekStreamHeader_def read_full_def h)
    qed (simp add: PeekStreamHeader_def read_full_def)
  next
    case False
    then obtain m where k: "k = Suc (3 + m)" using nat_le_iff_add [of 4 k] by auto
    then have "m < length name" using assms(1) by (simp add: h)
    then have "read_full (length name) (take m ?n) = Inl (if take m ?n = [] then EOF else ErrUnexpectedEOF)"
      by (simp add: read_full_def)
    moreover have "take k (stream_header_bytes name) = TypeStreamHeader # ?l @ take m ?n"
      unfolding k h take_Suc_Cons by simp
    moreover have "name \<noteq> []" using \<open>m < length name\<close> by auto
    moreover have "read_full 1 (TypeStreamHeader # ?l @ take m ?n) = Inr ([TypeStreamHeader], ?l @ take m ?n)"
      by (simp add: read_full_def)
    ultimately show ?thesis using assms(2) by (auto simp: PeekStreamHeader_def len3_bounds)
  qed
qed

text \<open>The frames of a cut stream are the first ones that were sent, all of them if it was not cut.\<close>

lemma frames_aus_cut:
  assumes "list_all feed_frame_ok fs" "prefix src (concat (map feed_frame_bytes fs))"
  shows "\<exists>k \<le> length fs. frames_aus src = map client_au (take k fs) \<and>
    (src = concat (map feed_frame_bytes fs) \<longrightarrow> k = length fs)"
proof -
  let ?all = "concat (map feed_frame_bytes fs)" and ?n = "Suc (length src + length fs)"
  obtain e gs where e: "read_loop ReadFeedFrame (Suc (length src)) src = (gs, Some e)"
    using feed_codec.read_loop_enough [of src "Suc (length src)"] by auto
  then have n: "read_loop ReadFeedFrame ?n src = (gs, Some e)" by (rule read_loop_mono) simp
  have gs: "frames_aus src = map client_au gs" by (simp only: frames_aus_def e fst_conv)
  show ?thesis
  proof (cases "src = ?all")
    case True
    then have "gs = fs" using n feed_codec.read_loop_all [OF assms(1), of ?n] by simp
    then show ?thesis using gs by (intro exI [of _ "length fs"]) simp
  next
    case False
    then have l: "length src < length ?all" "src = take (length src) ?all"
      using assms(2) by (auto simp: prefix_def)
    from feed_codec.read_loop_torn [OF assms(1) l(1), of ?n] obtain k where "k < length fs" "gs = take k fs"
      using n l(2) by auto
    then show ?thesis using gs False by (intro exI [of _ k]) simp
  qed
qed

definition track_of :: "Config \<Rightarrow> string" where
  "track_of cfg = (if cfg_TrackName cfg = [] then ''primary'' else cfg_TrackName cfg)"

lemma stream_aus_cut:
  assumes "length (cfg_TrackName cfg) \<le> MaxStreamHeader" "\<forall>x \<in> set b. feed_frame_ok (fr x) \<and> ff_Type (fr x) \<noteq> TypeStreamHeader"
    and "prefix content (full_stream cfg fr b)"
  shows "\<exists>k \<le> length b. stream_aus content = map (client_au \<circ> fr) (take k b) \<and>
    (content = full_stream cfg fr b \<longrightarrow> k = length b) \<and>
    (stream_aus content \<noteq> [] \<longrightarrow> stream_track content = Some (track_of cfg))"
proof -
  let ?all = "concat (map feed_frame_bytes (map fr b))"
  have ok: "list_all feed_frame_ok (map fr b)" using assms(2) by (simp add: list_all_iff)
  have full: "full_stream cfg fr b = track_header cfg @ ?all" by (simp add: full_stream_def comp_def)
  have body: "\<exists>k \<le> length b. stream_aus content = map (client_au \<circ> fr) (take k b) \<and>
      (content = full_stream cfg fr b \<longrightarrow> k = length b) \<and>
      (stream_aus content \<noteq> [] \<longrightarrow> stream_track content = Some (track_of cfg))"
    if "content = track_header cfg @ src" "prefix src ?all" "stream_open content = Some (track_of cfg, src)" for src
  proof -
    from frames_aus_cut [OF ok that(2)] obtain k where "k \<le> length (map fr b)"
      "frames_aus src = map client_au (take k (map fr b))" "src = ?all \<longrightarrow> k = length (map fr b)" by blast
    then show ?thesis using that(1,3)
      by (intro exI [of _ k]) (simp add: stream_aus_def stream_track_def full take_map)
  qed
  have none: ?thesis if "stream_open content = None" "content \<noteq> full_stream cfg fr b \<or> b = []"
    using that by (intro exI [of _ 0]) (auto simp: stream_aus_def)
  show ?thesis
  proof (cases "cfg_TrackName cfg = []")
    case True
    then have th: "track_header cfg = []" "track_of cfg = ''primary''" by (simp_all add: track_header_def track_of_def)
    show ?thesis
    proof (cases content)
      case Nil
      then have "stream_open content = None" by (simp add: stream_open_def)
      moreover have "content \<noteq> full_stream cfg fr b \<or> b = []" using Nil full th by (cases b) (auto simp: feed_frame_bytes_def)
      ultimately show ?thesis by (rule none)
    next
      case (Cons x rest)
      then obtain y ys where b: "b = y # ys" using assms(3) full th by (cases b) auto
      then have "x = ff_Type (fr y)" using assms(3) Cons full th by (auto simp: feed_frame_bytes_def)
      then have "x \<noteq> TypeStreamHeader" using assms(2) b by simp
      then have "stream_open content = Some (track_of cfg, content)"
        using Cons th by (simp add: stream_open_def PeekStreamHeader_def read_full_def)
      then show ?thesis using body [of content] assms(3) full th by simp
    qed
  next
    case False
    then have th: "track_header cfg = stream_header_bytes (cfg_TrackName cfg)" "track_of cfg = cfg_TrackName cfg"
      by (simp_all add: track_header_def track_of_def)
    show ?thesis
    proof (cases "length content < length (track_header cfg)")
      case True
      then have "content = take (length content) (track_header cfg)"
        using assms(3) full by (auto simp: prefix_def append_eq_append_conv_if)
      then have "\<exists>e. PeekStreamHeader content = Inl e"
        using PeekStreamHeader_cut [of "length content" "cfg_TrackName cfg"] True assms(1) th by simp
      then have "stream_open content = None" by (auto simp: stream_open_def)
      moreover have "content \<noteq> full_stream cfg fr b" using True full by auto
      ultimately show ?thesis using none by blast
    next
      case long: False
      then obtain src where src: "content = track_header cfg @ src" "prefix src ?all"
        using assms(3) full by (auto simp: prefix_def append_eq_append_conv2)
      then have "stream_open content = Some (track_of cfg, src)"
        using th False assms(1) by (simp add: stream_open_def PeekStreamHeader_bytes)
      then show ?thesis using body src by blast
    qed
  qed
qed

text \<open>The frame of an AU on a GOP stream, as a subscriber sees it.\<close>

definition delivered :: "Config \<Rightarrow> 64 word \<times> AccessUnit \<Rightarrow> AccessUnit" where
  "delivered cfg x = AccessUnit_zero\<lparr>au_Bytes := au_Bytes (snd x), au_Keyframe := au_Keyframe (snd x),
     au_PTSMicro := au_PTSMicro (snd x), au_Seq := au_Seq (snd x), au_Discontinuity := au_Discontinuity (snd x),
     au_PubWallMicro := pubWall cfg (fst x) (snd x)\<rparr>"

lemma client_au_gop_frame: "client_au (gop_frame cfg x) = delivered cfg x"
  by (auto simp: client_au_def delivered_def gop_frame_def encoded_frame_def IsKeyframe_def gop_type_def gop_flags_def
      frame_types frame_flags Let_def)

lemma gop_frame_ok:
  "length (au_Bytes (snd x)) \<le> MaxFeedPayload \<Longrightarrow> feed_frame_ok (gop_frame cfg x) \<and> ff_Type (gop_frame cfg x) \<noteq> TypeStreamHeader"
  by (simp add: gop_frame_def encoded_ok pump_flags) (simp add: encoded_frame_def gop_type_def frame_types)

text \<open>One stream of a GOP pump: a contiguous run of the published AUs.\<close>

lemma gop_stream_block:
  assumes "pw_streams w = []" "s \<in> set (pw_streams (snd (runStreamGOP cfg xs e w)))"
  shows "\<exists>i b. sublist b xs \<and> gop_shape cfg i b \<and> stream_carries cfg (gop_frame cfg) b s"
proof -
  obtain bs st where inv: "gop_inv cfg xs bs st"
    and run: "snd (runStreamGOP cfg xs e w) = close_current (g_current st) (g_world st)"
    using runStreamGOP_run [OF assms(1)] by blast
  then have p: "pump_inv cfg (gop_frame cfg) xs bs (g_current st) (g_world st)" by (simp add: gop_inv_def)
  note c = pump_inv_close [OF p]
  obtain i where i: "i < length (pw_streams (snd (runStreamGOP cfg xs e w)))" "pw_streams (snd (runStreamGOP cfg xs e w)) ! i = s"
    using assms(2) by (auto simp: in_set_conv_nth)
  then have "i < length bs" "stream_carries cfg (gop_frame cfg) (bs ! i) s"
    using c list_all2_lengthD [OF c] list_all2_nthD2 [OF c, of i] unfolding run by auto
  moreover have "sublist (bs ! i) xs" using pump_inv_segments [OF p] calculation(1) by auto
  moreover have "gop_shape cfg i (bs ! i)" using inv calculation(1) by (simp add: gop_inv_def gop_shapes_def)
  ultimately show ?thesis by blast
qed

text \<open>What arrives of a stream: all of it, or a beginning if it was reset.\<close>

definition quic_delivers :: "send_stream \<Rightarrow> bytes \<Rightarrow> bool" where
  "quic_delivers s content \<longleftrightarrow> (if ss_reset s then prefix content (w_out (ss_w s)) else content = w_out (ss_w s))"

lemma gop_stream_received:
  assumes "pw_streams w = []" "s \<in> set (pw_streams (snd (runStreamGOP cfg xs e w)))" "quic_delivers s content"
    and "length (cfg_TrackName cfg) \<le> MaxStreamHeader" "\<forall>x \<in> set xs. length (au_Bytes (snd x)) \<le> MaxFeedPayload"
  shows "\<exists>i b k. sublist b xs \<and> gop_shape cfg i b \<and> stream_aus content = map (delivered cfg) (take k b) \<and>
    (\<not> ss_reset s \<longrightarrow> take k b = b) \<and> (stream_aus content \<noteq> [] \<longrightarrow> stream_track content = Some (track_of cfg))"
proof -
  obtain i b where b: "sublist b xs" "gop_shape cfg i b" "stream_carries cfg (gop_frame cfg) b s"
    using gop_stream_block [OF assms(1,2)] by blast
  have "\<forall>x \<in> set b. length (au_Bytes (snd x)) \<le> MaxFeedPayload" using assms(5) b(1) set_mono_sublist by blast
  then have ok: "\<forall>x \<in> set b. feed_frame_ok (gop_frame cfg x) \<and> ff_Type (gop_frame cfg x) \<noteq> TypeStreamHeader"
    using gop_frame_ok by blast
  have pre: "prefix content (full_stream cfg (gop_frame cfg) b)" "\<not> ss_reset s \<longrightarrow> content = full_stream cfg (gop_frame cfg) b"
    using assms(3) b(3) by (auto simp: quic_delivers_def stream_carries_def split: if_splits intro: prefix_order.trans)
  from stream_aus_cut [OF assms(4) ok pre(1)] obtain k
    where "stream_aus content = map (client_au \<circ> gop_frame cfg) (take k b)" "\<not> ss_reset s \<longrightarrow> k = length b"
      "stream_aus content \<noteq> [] \<longrightarrow> stream_track content = Some (track_of cfg)" using pre(2) by blast
  then show ?thesis using b(1,2) by (intro exI [of _ i] exI [of _ b] exI [of _ k]) (simp add: client_au_gop_frame comp_def)
qed

end
