(* ===== verification/Relay.thy ===== *)
theory Relay
  imports Server_Safety Client
begin

text \<open>
  The relay (\<^verbatim>\<open>relay/relay.go\<close>): it subscribes to upstream publishers and republishes every track on its own server. Upstream
  sessions, their forwarding goroutines and everything else that happens to the downstream server interleave; a step is
  what one goroutine does under one lock. What \<open>client.Dial\<close> and \<open>RecvOn\<close> return is an argument of the steps.
\<close>

section \<open>Configuration\<close>

record RelayConfig =
  ry_Upstreams :: "string list"
  ry_ClientOptions :: Options
  ry_ReconnectInterval :: int
  ry_MaxReconnectAttempts :: int
  ry_MaxTracksPerUpstream :: int

definition relay_defaults :: "RelayConfig \<Rightarrow> RelayConfig" where
  "relay_defaults cfg =
     (let c1 = (if ry_ReconnectInterval cfg \<le> 0 then cfg\<lparr>ry_ReconnectInterval := 1000000000\<rparr> else cfg);
          c2 = (if ry_MaxReconnectAttempts c1 = 0 then c1\<lparr>ry_MaxReconnectAttempts := 5\<rparr> else c1) in
      if ry_MaxTracksPerUpstream c2 = 0 then c2\<lparr>ry_MaxTracksPerUpstream := 256\<rparr> else c2)"

section \<open>State\<close>

text \<open>A run of \<open>sessionLoop\<close> with the names in its map of pumps.\<close>

record relay_session =
  rs_url :: string
  rs_pumped :: "string list"
  rs_done :: bool

text \<open>A forwarding goroutine: its name is reserved, then it has its publisher (a nil pointer is \<open>None\<close>), then it exits.\<close>

datatype forward_phase = PReserved | PRunning "nat option" | PExited

record relay_pump =
  rp_session :: nat
  rp_name :: string
  rp_phase :: forward_phase

record 's Relay =
  ry_cfg :: RelayConfig
  ry_srv :: "'s Server"
  ry_pubs :: "(string \<times> nat option) list"
  ry_trackOwner :: "(string \<times> string) list"
  ry_closed :: bool
  ry_sessions :: "relay_session list"
  ry_pumps :: "relay_pump list"

text \<open>\<open>New\<close>; the outcome of \<open>server.New\<close> is an argument.\<close>

definition NewRelay :: "RelayConfig \<Rightarrow> go_error + 's Server \<Rightarrow> go_error + 's Relay" where
  "NewRelay cfg newServer =
     (if length (ry_Upstreams cfg) = 0 then Inl (ErrOther ''at least one upstream URL required'')
      else bindE newServer (\<lambda>srv.
        Inr \<lparr>ry_cfg = relay_defaults cfg, ry_srv = srv, ry_pubs = [], ry_trackOwner = [], ry_closed = False,
          ry_sessions = [], ry_pumps = []\<rparr>))"

section \<open>Tracks\<close>

definition claimTrack :: "string \<Rightarrow> string \<Rightarrow> 's Relay \<Rightarrow> bool \<times> 's Relay" where
  "claimTrack name upstreamURL r =
     (case map_of (ry_trackOwner r) name of
        Some owner \<Rightarrow> (owner = upstreamURL, r)
      | None \<Rightarrow> (True, r\<lparr>ry_trackOwner := (name, upstreamURL) # ry_trackOwner r\<rparr>))"

definition set_pumped :: "nat \<Rightarrow> string list \<Rightarrow> 's Relay \<Rightarrow> 's Relay" where
  "set_pumped k ns r = r\<lparr>ry_sessions := (ry_sessions r)[k := (ry_sessions r ! k)\<lparr>rs_pumped := ns\<rparr>]\<rparr>"

text \<open>\<open>startPump\<close> up to the point where it releases the lock of the session's map; the new goroutine comes last.\<close>

definition startPump :: "nat \<Rightarrow> string \<Rightarrow> 's Relay \<Rightarrow> bool \<times> 's Relay" where
  "startPump k name r =
     (let s = ry_sessions r ! k; cap = ry_MaxTracksPerUpstream (ry_cfg r) in
      if name \<in> set (rs_pumped s) then (True, r)
      else if 0 \<le> cap \<and> cap \<le> int (length (rs_pumped s)) then (False, r)
      else case claimTrack name (rs_url s) r of
          (False, r1) \<Rightarrow> (False, r1)
        | (True, r1) \<Rightarrow> (True, (set_pumped k (rs_pumped s @ [name]) r1)\<lparr>ry_pumps := ry_pumps r1 @
            [\<lparr>rp_session = k, rp_name = name, rp_phase = PReserved\<rparr>]\<rparr>))"

definition getOrCreatePublisher :: "(Announce \<Rightarrow> go_error + bytes) \<Rightarrow> string \<Rightarrow> 's Relay \<Rightarrow> nat option \<times> 's Relay" where
  "getOrCreatePublisher ja name r =
     (case map_of (ry_pubs r) name of
        Some pub \<Rightarrow> (pub, r)
      | None \<Rightarrow>
          (let (pub, srv) = (if name = ''primary'' then (Publisher (ry_srv r), ry_srv r)
                             else let (i, s) = AddTrack ja name (ry_srv r) in (Some i, s)) in
           (pub, r\<lparr>ry_srv := srv, ry_pubs := (name, pub) # ry_pubs r\<rparr>)))"

definition set_pump :: "nat \<Rightarrow> forward_phase \<Rightarrow> 's Relay \<Rightarrow> 's Relay" where
  "set_pump p ph r = r\<lparr>ry_pumps := (ry_pumps r)[p := (ry_pumps r ! p)\<lparr>rp_phase := ph\<rparr>]\<rparr>"

text \<open>The rest of \<open>startPump\<close>: the publisher of the track.\<close>

definition pump_publisher :: "(Announce \<Rightarrow> go_error + bytes) \<Rightarrow> nat \<Rightarrow> 's Relay \<Rightarrow> 's Relay" where
  "pump_publisher ja p r =
     (case rp_phase (ry_pumps r ! p) of
        PReserved \<Rightarrow> (let (pub, r1) = getOrCreatePublisher ja (rp_name (ry_pumps r ! p)) r in set_pump p (PRunning pub) r1)
      | _ \<Rightarrow> r)"

text \<open>The composite literal that the pump publishes.\<close>

definition relay_au :: "AccessUnit \<Rightarrow> AccessUnit" where
  "relay_au au = AccessUnit_zero\<lparr>au_Bytes := au_Bytes au, au_Keyframe := au_Keyframe au, au_PTSMicro := au_PTSMicro au,
     au_Seq := au_Seq au, au_Discontinuity := au_Discontinuity au, au_PubWallMicro := au_PubWallMicro au\<rparr>"

text \<open>One round of a forwarding goroutine, given what \<open>RecvOn\<close> returned; \<open>None\<close> is a panic.\<close>

definition pump_round :: "nat \<Rightarrow> AccessUnit \<times> go_error option \<Rightarrow> 's Relay \<Rightarrow> 's Relay option" where
  "pump_round p recv r =
     (case rp_phase (ry_pumps r ! p) of
        PRunning pub \<Rightarrow>
          (case recv of
             (au, Some e) \<Rightarrow>
               (let k = rp_session (ry_pumps r ! p) in
                Some (set_pump p PExited (set_pumped k (filter (\<lambda>n. n \<noteq> rp_name (ry_pumps r ! p)) (rs_pumped (ry_sessions r ! k))) r)))
           | (au, None) \<Rightarrow>
               (case pub of
                  None \<Rightarrow> None
                | Some i \<Rightarrow> map_option (\<lambda>srv. r\<lparr>ry_srv := srv\<rparr>) (Publisher_Publish i (relay_au au) (ry_srv r))))
      | _ \<Rightarrow> Some r)"

section \<open>Sessions\<close>

text \<open>A successful dial: \<open>sessionLoop\<close> starts and pumps the implicit track first.\<close>

definition session_open :: "string \<Rightarrow> 's Relay \<Rightarrow> 's Relay" where
  "session_open url r =
     snd (startPump (length (ry_sessions r)) ''primary''
       (r\<lparr>ry_sessions := ry_sessions r @ [\<lparr>rs_url = url, rs_pumped = [], rs_done = False\<rparr>]\<rparr>))"

definition session_return :: "nat \<Rightarrow> 's Relay \<Rightarrow> 's Relay" where
  "session_return k r = r\<lparr>ry_sessions := (ry_sessions r)[k := (ry_sessions r ! k)\<lparr>rs_done := True\<rparr>]\<rparr>"

definition markShutdown :: "'s Relay \<Rightarrow> 's Relay" where
  "markShutdown r = r\<lparr>ry_closed := True\<rparr>"

text \<open>What \<open>sessionLoop\<close> returns when it wakes up, \<open>None\<close> for another round.\<close>

datatype session_wake = WakeCtx | WakeClosed | WakeClientDone | WakeTick

definition sessionLoop_wake :: "session_wake \<Rightarrow> go_error option option" where
  "sessionLoop_wake x =
     (case x of WakeCtx \<Rightarrow> Some None | WakeClosed \<Rightarrow> Some None
      | WakeClientDone \<Rightarrow> Some (Some (ErrOther ''upstream client died'')) | WakeTick \<Rightarrow> None)"

section \<open>Reconnecting\<close>

text \<open>One round of \<open>runUpstream\<close>: a failed dial, or a session with its id, the error of \<open>sessionLoop\<close>, the last
  sequence numbers and how long it lasted.\<close>

datatype dial_outcome =
    DialFailed go_error
  | DialSession string "go_error option" "(string \<times> 32 word) list" int

record upstream =
  up_sessionID :: string
  up_lastSeenSeq :: "(string \<times> 32 word) list"
  up_attempts :: int

definition upstream_init :: upstream where
  "upstream_init = \<lparr>up_sessionID = [], up_lastSeenSeq = [], up_attempts = 0\<rparr>"

definition upstream_options :: "RelayConfig \<Rightarrow> upstream \<Rightarrow> Options" where
  "upstream_options cfg u =
     (let opts = ry_ClientOptions cfg in
      if up_sessionID u \<noteq> [] then opts\<lparr>co_SessionID := up_sessionID u, co_LastSeenSeq := up_lastSeenSeq u\<rparr> else opts)"

text \<open>The loop over its rounds, each with whether the sleep after it took its full time. It gives the options of its dials and,
  once it returned, its result.\<close>

fun runUpstream :: "RelayConfig \<Rightarrow> (dial_outcome \<times> bool) list \<Rightarrow> upstream \<Rightarrow> Options list \<times> go_error option option" where
  "runUpstream cfg [] u = ([], None)"
| "runUpstream cfg ((DialFailed e, slept) # rounds) u =
     (let u1 = u\<lparr>up_attempts := up_attempts u + 1\<rparr>; opts = upstream_options cfg u in
      if 0 \<le> ry_MaxReconnectAttempts cfg \<and> up_attempts u1 > ry_MaxReconnectAttempts cfg then ([opts], Some (Some e))
      else if \<not> slept then ([opts], Some None)
      else let (os, res) = runUpstream cfg rounds u1 in (opts # os, res))"
| "runUpstream cfg ((DialSession sid err lastSeen lasted, slept) # rounds) u =
     (let u1 = \<lparr>up_sessionID = sid, up_lastSeenSeq = lastSeen, up_attempts = 0\<rparr>; opts = upstream_options cfg u in
      if err = None then ([opts], Some None)
      else
        let u2 = (if lasted > 10 * ry_ReconnectInterval cfg then u1\<lparr>up_attempts := 0\<rparr> else u1) in
        if \<not> slept then ([opts], Some None)
        else let (os, res) = runUpstream cfg rounds u2 in (opts # os, res))"

section \<open>Serving\<close>

definition endsWith :: "string \<Rightarrow> string \<Rightarrow> bool" where
  "endsWith s suf \<longleftrightarrow> length s \<ge> length suf \<and> drop (length s - length suf) s = suf"

text \<open>The polls of \<open>waitForBind\<close> before its deadline: the address and whether the sleep took its full time.\<close>

fun waitForBind :: "(string \<times> bool) list \<Rightarrow> go_error option" where
  "waitForBind [] = Some (ErrOther ''downstream did not bind within 2s'')"
| "waitForBind ((addr, slept) # polls) =
     (if addr \<noteq> [] \<and> \<not> endsWith addr '':0'' then None
      else if \<not> slept then Some ErrContext else waitForBind polls)"

text \<open>What wakes \<open>ListenAndServe\<close>; on cancellation \<open>LCtx\<close> carries what \<open>serverShutdownError\<close> waits for, \<open>None\<close> after its timeout.\<close>

datatype listen_wake = LCtx "go_error option option" | LServer go_error | LPump "go_error option" | LPumpsClosed

definition serverShutdownError :: "go_error option option \<Rightarrow> go_error option" where
  "serverShutdownError x =
     (case x of Some (Some e) \<Rightarrow> if e = ErrContext then None else Some e | _ \<Rightarrow> None)"

text \<open>The loop gives its result and whether it marked the relay as shut down; \<open>None\<close> while it still waits.\<close>

fun listen_loop :: "listen_wake list \<Rightarrow> go_error option \<Rightarrow> bool \<Rightarrow> go_error option option \<times> bool" where
  "listen_loop [] firstErr down = (None, down)"
| "listen_loop (LCtx x # ws) firstErr down = (Some (serverShutdownError x), True)"
| "listen_loop (LServer e # ws) firstErr down = (Some (Some e), True)"
| "listen_loop (LPumpsClosed # ws) firstErr down = (Some firstErr, down)"
| "listen_loop (LPump err # ws) firstErr down =
     (if err \<noteq> None \<and> firstErr = None then listen_loop ws err True else listen_loop ws firstErr down)"

section \<open>Interleavings\<close>

datatype 's relay_op =
    RySession string
  | RyAnnounced nat string
  | RyPublisher nat
  | RyRecv nat "AccessUnit \<times> go_error option"
  | RyReturn nat
  | RyShutdown
  | RyServer "'s sv_op"

fun relay_exec ::
    "(Announce \<Rightarrow> go_error + bytes) \<Rightarrow> (Unannounce \<Rightarrow> go_error + bytes) \<Rightarrow> 's relay_op \<Rightarrow> 's Relay \<Rightarrow> 's Relay option" where
  "relay_exec ja ju (RySession url) r = Some (session_open url r)"
| "relay_exec ja ju (RyAnnounced k name) r =
     Some (if k < length (ry_sessions r) \<and> \<not> rs_done (ry_sessions r ! k) then snd (startPump k name r) else r)"
| "relay_exec ja ju (RyPublisher p) r = Some (if p < length (ry_pumps r) then pump_publisher ja p r else r)"
| "relay_exec ja ju (RyRecv p recv) r = (if p < length (ry_pumps r) then pump_round p recv r else Some r)"
| "relay_exec ja ju (RyReturn k) r = Some (if k < length (ry_sessions r) then session_return k r else r)"
| "relay_exec ja ju RyShutdown r = Some (markShutdown r)"
| "relay_exec ja ju (RyServer op) r = map_option (\<lambda>s. r\<lparr>ry_srv := s\<rparr>) (sv_exec ja ju op (ry_srv r))"

text \<open>An AU that a pump published: the upstream, the track and the broadcaster it went to.\<close>

datatype forwarded = Forwarded string string nat AccessUnit

definition relay_event :: "'s relay_op \<Rightarrow> 's Relay \<Rightarrow> forwarded list" where
  "relay_event op r =
     (case op of
        RyRecv p (au, None) \<Rightarrow>
          if p < length (ry_pumps r) then
            (case rp_phase (ry_pumps r ! p) of
               PRunning (Some i) \<Rightarrow>
                 [Forwarded (rs_url (ry_sessions r ! rp_session (ry_pumps r ! p))) (rp_name (ry_pumps r ! p)) i (relay_au au)]
             | _ \<Rightarrow> [])
          else []
      | _ \<Rightarrow> [])"

fun relay_trace ::
    "(Announce \<Rightarrow> go_error + bytes) \<Rightarrow> (Unannounce \<Rightarrow> go_error + bytes) \<Rightarrow> 's relay_op list \<Rightarrow>
     forwarded list \<times> 's Relay \<Rightarrow> (forwarded list \<times> 's Relay) option" where
  "relay_trace ja ju [] hr = Some hr"
| "relay_trace ja ju (op # ops) (h, r) =
     (case relay_exec ja ju op r of None \<Rightarrow> None | Some r1 \<Rightarrow> relay_trace ja ju ops (h @ relay_event op r, r1))"

end
