(* ===== verification/Relay_Safety.thy ===== *)
theory Relay_Safety
  imports Relay
begin

text \<open>
  Correctness of the relay (\<^verbatim>\<open>relay/relay.go\<close>): every downstream track is fed by one upstream, the number of pumps is bounded, and
  the retry loop of an upstream gives up when it should.
\<close>

section \<open>What the server's operations keep\<close>

text \<open>Registered tracks and the number of broadcasters are the same.\<close>

definition same_shape :: "'s Server \<Rightarrow> 's Server \<Rightarrow> bool" where
  "same_shape s s' \<longleftrightarrow> sv_tracks s' = sv_tracks s \<and> length (sv_bcs s') = length (sv_bcs s)"

lemma same_shape_refl [simp]: "same_shape s s"
  by (simp add: same_shape_def)

lemma same_shape_trans [trans]: "same_shape a b \<Longrightarrow> same_shape b c \<Longrightarrow> same_shape a c"
  by (simp add: same_shape_def)

lemma same_shape_fold: "(\<And>x s. x \<in> set xs \<Longrightarrow> same_shape s (f x s)) \<Longrightarrow> same_shape s (fold f xs s)"
proof (induction xs arbitrary: s)
  case (Cons x xs)
  have "same_shape s (f x s)" using Cons.prems by simp
  also have "same_shape (f x s) (fold f xs (f x s))" using Cons by simp
  finally show ?case by simp
qed simp

lemma same_shape_simps [simp]:
  "same_shape s (upd_session ref f s)" "same_shape s (upd_bc i g s)" "same_shape s (sv_Unsubscribe i rr s)"
  "same_shape s (s\<lparr>sv_store := st\<rparr>)" "same_shape s (s\<lparr>sv_draining := d\<rparr>)" "same_shape s (s\<lparr>sv_recorders := rs\<rparr>)"
  "same_shape s (snd (addSession x s))" "same_shape s (session_cleanup ref s)"
  by (simp_all add: same_shape_def upd_session_def upd_bc_def sv_Unsubscribe_def addSession_def session_cleanup_def)

lemma same_shape_set_store: "same_shape s (set_store st s)"
proof -
  have "same_shape (s\<lparr>sv_store := st\<rparr>) (set_store st s)"
    unfolding set_store_def by (intro same_shape_fold) (auto intro: same_shape_fold)
  then show ?thesis using same_shape_trans same_shape_simps(4) by blast
qed

lemma subscribe_tracks_length: "length (snd (subscribe_tracks sub ts bcs)) = length bcs"
proof (induction ts arbitrary: bcs)
  case (Cons t ts)
  obtain r b where "sub (bcs ! te_bc t) = (r, b)" by fastforce
  then show ?case using Cons [of "bcs[te_bc t := b]"] by (simp split: prod.split) (metis snd_conv)
qed simp

lemma same_shape_upd_bc_opt: "upd_bc_opt i f s = Some s' \<Longrightarrow> same_shape s s'"
  by (auto simp: upd_bc_opt_def same_shape_def split: option.splits)

lemma same_shape_resume_tracks: "resume_tracks recvs ps s = Some s' \<Longrightarrow> same_shape s s'"
proof (induction ps arbitrary: s)
  case (Cons p ps)
  then obtain s1 where s1: "resume_track recvs p s = Some s1" "resume_tracks recvs ps s1 = Some s'" by (auto split: option.splits)
  have "same_shape s s1" using s1(1)
    by (auto simp: resume_track_def Let_def split: prod.splits option.splits if_splits dest: same_shape_upd_bc_opt)
  then show ?case using Cons.IH [OF s1(2)] same_shape_trans by blast
qed simp

lemma same_shape_trackSnapshot: "trackSnapshot s = (rs, s') \<Longrightarrow> same_shape s s'"
  using subscribe_tracks_length [of Subscribe "map snd (sv_tracks s)" "sv_bcs s"]
  by (auto simp: trackSnapshot_def same_shape_def split: prod.splits)

lemma same_shape_attach: "session_attach newid now hello ref s = Some s' \<Longrightarrow> same_shape s s'"
proof -
  assume a: "session_attach newid now hello ref s = Some s'"
  have res: "same_shape s s1" if "OnResume now t i l s = Some (r, s1)" for t i l r s1
  proof -
    obtain q st where q: "Resume now t i (sv_store s) = (q, st)" by fastforce
    have "same_shape s (set_store st s)" by (rule same_shape_set_store)
    moreover have "same_shape (set_store st s) s1"
      using that q by (auto simp: OnResume_def Let_def split: option.splits dest: same_shape_resume_tracks)
    ultimately show ?thesis by (rule same_shape_trans)
  qed
  have fresh: "same_shape s (upd_session ref f s2)" if "same_shape s s1" "trackSnapshot s1 = (rs, s2)" for s1 s2 rs f
    using same_shape_trans [OF same_shape_trans [OF that(1) same_shape_trackSnapshot [OF that(2)]]] by simp
  have upd: "same_shape s (upd_session ref f s1)" if "same_shape s s1" for s1 f using that same_shape_trans by force
  show ?thesis using a
    by (auto simp: session_attach_def OnFreshSession_def split: option.splits prod.splits if_splits dest!: res intro: fresh fresh [OF same_shape_refl] upd)
qed

lemma same_shape_end: "same_shape s (session_end now1 now2 ctx ref s)"
proof -
  have un: "same_shape t (unsubscribe_active x ts t)" for x ts and t :: "'s Server"
    unfolding unsubscribe_active_def by (intro same_shape_fold) (auto intro: same_shape_fold)
  have park: "same_shape s (session_park now1 now2 ctx x s)" for x
  proof (cases "sn_SessionID x = [] \<or> ctx \<or> sv_draining s")
    case True
    then show ?thesis using un by (simp add: session_park_def Let_def)
  next
    case False
    obtain parked bcs where p: "subscribe_tracks (SubscribeWithCapacity parkedChanCap) (map snd (sv_tracks s)) (sv_bcs s) = (parked, bcs)"
      by fastforce
    have "same_shape s (s\<lparr>sv_bcs := bcs\<rparr>)"
      using subscribe_tracks_length [of "SubscribeWithCapacity parkedChanCap" "map snd (sv_tracks s)" "sv_bcs s"] p
      by (simp add: same_shape_def)
    then show ?thesis using False p same_shape_trans [OF _ same_shape_trans [OF un same_shape_set_store]]
      by (auto simp: session_park_def Let_def)
  qed
  show ?thesis using same_shape_trans [OF park same_shape_simps(8)] by (auto simp: session_end_def split: option.split)
qed

text \<open>Tracks are only added, broadcasters are only added.\<close>

definition grows :: "'s Server \<Rightarrow> 's Server \<Rightarrow> bool" where
  "grows s s' \<longleftrightarrow> (map_of (sv_tracks s) ''primary'' \<noteq> None \<longrightarrow> map_of (sv_tracks s') ''primary'' \<noteq> None) \<and>
     length (sv_bcs s) \<le> length (sv_bcs s')"

lemma grows_same: "same_shape s s' \<Longrightarrow> grows s s'"
  by (simp add: grows_def same_shape_def)

lemma grows_trans: "grows a b \<Longrightarrow> grows b c \<Longrightarrow> grows a c"
  by (auto simp: grows_def)

lemma recorders_to_track_length: "length (snd (recorders_to_track n k i es bcs)) = length bcs"
proof (induction es arbitrary: bcs)
  case (Cons e es)
  have "length (snd (case re_rec e of None \<Rightarrow> (e, bcs) | Some rec \<Rightarrow> attach_recorder_to rec n k i (e, bcs))) = length bcs"
    by (simp add: attach_recorder_to_def split: option.split prod.split)
  then show ?case using Cons by (simp add: split_beta)
qed simp

lemma addTrackInternal_new:
  assumes "map_of (sv_tracks s) n = None"
  shows "fst (addTrackInternal ja n k p t s) = length (sv_bcs s)"
    "\<exists>e. sv_tracks (snd (addTrackInternal ja n k p t s)) = sv_tracks s @ [(n, e)]"
    "length (sv_bcs (snd (addTrackInternal ja n k p t s))) = Suc (length (sv_bcs s))"
proof -
  define bc where "bc = (if k \<noteq> KindVideo \<and> k \<noteq> [] then SetSelfContained True (NewBroadcaster (svc_PerSubscriberBuffer (sv_cfg s)))
    else NewBroadcaster (svc_PerSubscriberBuffer (sv_cfg s)) :: 'a broadcaster)"
  define s1 where "s1 = s\<lparr>sv_bcs := sv_bcs s @ [bc], sv_tracks := sv_tracks s @
    [(n, \<lparr>te_name = n, te_kind = k, te_priority = p, te_trackID = t, te_bc = length (sv_bcs s)\<rparr>)]\<rparr>"
  define s2 where "s2 = attachRecordersToTrack n k (length (sv_bcs s)) s1"
  have r: "addTrackInternal ja n k p t s =
      (length (sv_bcs s), fold (notify_added ja n k p t (length (sv_bcs s))) (map fst (sv_sessions s2)) s2)"
    using assms by (simp add: addTrackInternal_def Let_def bc_def [symmetric] s1_def [symmetric] s2_def [symmetric])
  have "same_shape s1 s2" using recorders_to_track_length [of n k "length (sv_bcs s)" "sv_recorders s1" "sv_bcs s1"]
    by (auto simp: s2_def attachRecordersToTrack_def same_shape_def split: prod.split)
  moreover have "same_shape q (notify_added ja n k p t i ref q)" for q :: "'a Server" and i ref
    by (simp add: notify_added_def same_shape_def upd_session_def split: prod.split)
  then have "same_shape s2 (snd (addTrackInternal ja n k p t s))" unfolding r by (simp add: same_shape_fold)
  ultimately have "same_shape s1 (snd (addTrackInternal ja n k p t s))" by (rule same_shape_trans)
  then show "fst (addTrackInternal ja n k p t s) = length (sv_bcs s)"
    "\<exists>e. sv_tracks (snd (addTrackInternal ja n k p t s)) = sv_tracks s @ [(n, e)]"
    "length (sv_bcs (snd (addTrackInternal ja n k p t s))) = Suc (length (sv_bcs s))"
    using r by (simp_all add: same_shape_def s1_def)
qed

lemma addTrackInternal_registers: "map_of (sv_tracks (snd (addTrackInternal ja n k p t s))) n \<noteq> None"
proof (cases "map_of (sv_tracks s) n")
  case None
  then show ?thesis using addTrackInternal_new(2) [OF None, of ja k p t] by (auto simp: map_add_def)
qed (simp add: addTrackInternal_def)

lemma AddTrack_registers: "map_of (sv_tracks (snd (AddTrack ja n s))) n \<noteq> None"
  using addTrackInternal_registers by (simp add: AddTrack_def AddTrackSpec_def Let_def)

lemma grows_addTrackInternal: "grows s (snd (addTrackInternal ja n k p t s))"
proof (cases "map_of (sv_tracks s) n")
  case None
  then show ?thesis using addTrackInternal_new(2,3) [OF None, of ja k p t]
    by (auto simp: grows_def map_add_def split: option.split)
qed (simp add: addTrackInternal_def grows_def)

lemma grows_AddTrackSpec: "grows s (snd (AddTrackSpec ja spec s))"
  by (simp add: AddTrackSpec_def Let_def grows_addTrackInternal)

lemma grows_RemoveTrack: "n \<noteq> ''primary'' \<Longrightarrow> grows s (RemoveTrack ju n s)"
proof (cases "map_of (sv_tracks s) n")
  case (Some t)
  assume n: "n \<noteq> ''primary''"
  define s1 where "s1 = s\<lparr>sv_tracks := filter (\<lambda>p. fst p \<noteq> n) (sv_tracks s)\<rparr>"
  have "map_of (filter (\<lambda>p. fst p \<noteq> n) xs) ''primary'' = map_of xs ''primary''" for xs :: "(string \<times> trackEntry) list"
    using n by (induction xs) auto
  then have "grows s s1" by (simp add: grows_def s1_def)
  moreover have "same_shape s1 (fold (\<lambda>ref. upd_session ref (\<lambda>x. SendUnannounce ju n (DetachTrack n x))) (map fst (sv_sessions s1)) s1)"
    by (intro same_shape_fold) simp
  then have "same_shape s1 (upd_bc (te_bc t) Close (fold (\<lambda>ref. upd_session ref (\<lambda>x. SendUnannounce ju n (DetachTrack n x))) (map fst (sv_sessions s1)) s1))"
    by (rule same_shape_trans) simp
  ultimately show ?thesis using Some grows_trans [OF _ grows_same]
    by (auto simp: RemoveTrack_def Let_def s1_def [symmetric])
qed (simp add: RemoveTrack_def grows_same)

lemma grows_AttachRecorder: "grows s (snd (AttachRecorder rec s))"
proof -
  have "length (snd (attach_recorder_to rec n k i q)) = length (snd q)" for n k i q
    by (simp add: attach_recorder_to_def split_beta)
  then have "length (snd (fold (\<lambda>(name, t). attach_recorder_to rec name (te_kind t) (te_bc t)) ts q)) = length (snd q)"
    for ts :: "(string \<times> trackEntry) list" and q
    by (induction ts arbitrary: q) auto
  then show ?thesis by (simp add: AttachRecorder_def split_beta grows_def)
qed

lemma grows_sv_exec:
  assumes "sv_exec ja ju op s = Some s'" "op \<noteq> SvRemoveTrack ''primary''"
  shows "grows s s'"
proof (cases op)
  case (SvRemoveTrack n)
  then show ?thesis using assms grows_RemoveTrack by fastforce
next
  case (SvPublish i au)
  then show ?thesis using assms(1)
    by (auto simp: Publisher_Publish_def grows_def split: if_splits option.splits prod.splits)
next
  case (SvRecv i r)
  then show ?thesis using assms(1) by (auto intro: grows_same dest: same_shape_upd_bc_opt split: if_splits)
next
  case (SvDetachRecorder i)
  have "same_shape s (detach_recorder i s)"
  proof (cases "i < length (sv_recorders s)")
    case True
    let ?s = "s\<lparr>sv_recorders := (sv_recorders s)[i := \<lparr>re_rec = None, re_detachers = []\<rparr>]\<rparr>"
    have "same_shape ?s (fold (\<lambda>(name, i, h). upd_bc i (remove_interceptor h)) (re_detachers (sv_recorders s ! i)) ?s)"
      by (intro same_shape_fold) auto
    then show ?thesis using True same_shape_trans [OF same_shape_simps(6)] by (simp add: detach_recorder_def Let_def)
  qed (simp add: detach_recorder_def)
  then show ?thesis using assms(1) SvDetachRecorder grows_same by auto
next
  case (SvAttach newid now hello ref)
  then show ?thesis using assms(1) by (intro grows_same same_shape_attach [of newid now hello ref]) simp
next
  case (SvEvict now)
  then show ?thesis using assms(1) same_shape_set_store grows_same by (auto simp: eviction_tick_def)
next
  case SvShutdown
  have "same_shape (s\<lparr>sv_draining := True\<rparr>) (Shutdown_notify s)"
    unfolding Shutdown_notify_def Let_def by (intro same_shape_fold) simp
  then have "same_shape s (Shutdown_notify s)" using same_shape_trans [OF same_shape_simps(5)] by blast
  then show ?thesis using assms(1) SvShutdown grows_same by auto
qed (use assms(1) in \<open>auto intro: grows_AddTrackSpec grows_AttachRecorder grows_same same_shape_end\<close>)

section \<open>Invariant\<close>

definition session_ok :: "RelayConfig \<Rightarrow> relay_session \<Rightarrow> bool" where
  "session_ok cfg s \<longleftrightarrow> distinct (rs_pumped s) \<and>
     (0 \<le> ry_MaxTracksPerUpstream cfg \<longrightarrow> int (length (rs_pumped s)) \<le> ry_MaxTracksPerUpstream cfg)"

text \<open>A pump runs for the upstream that owns its track, and publishes to the one publisher of the track.\<close>

definition pump_ok :: "string list \<Rightarrow> (string \<times> string) list \<Rightarrow> (string \<times> nat option) list \<Rightarrow> relay_pump \<Rightarrow> bool" where
  "pump_ok urls owner pubs p \<longleftrightarrow> rp_session p < length urls \<and> map_of owner (rp_name p) = Some (urls ! rp_session p) \<and>
     (\<forall>pub. rp_phase p = PRunning pub \<longrightarrow> map_of pubs (rp_name p) = Some pub)"

definition event_ok :: "(string \<times> string) list \<Rightarrow> (string \<times> nat option) list \<Rightarrow> forwarded \<Rightarrow> bool" where
  "event_ok owner pubs e \<longleftrightarrow> (case e of Forwarded u n i au \<Rightarrow> map_of owner n = Some u \<and> map_of pubs n = Some (Some i))"

abbreviation urls :: "'s Relay \<Rightarrow> string list" where
  "urls r \<equiv> map rs_url (ry_sessions r)"

definition pubs_ok :: "'s Server \<Rightarrow> (string \<times> nat option) list \<Rightarrow> bool" where
  "pubs_ok s pubs \<longleftrightarrow> (\<forall>p \<in> set pubs. \<exists>i < length (sv_bcs s). snd p = Some i)"

definition relay_ok :: "forwarded list \<Rightarrow> 's Relay \<Rightarrow> bool" where
  "relay_ok h r \<longleftrightarrow> srv_inv (ry_srv r) \<and> map_of (sv_tracks (ry_srv r)) ''primary'' \<noteq> None \<and>
     pubs_ok (ry_srv r) (ry_pubs r) \<and> list_all (session_ok (ry_cfg r)) (ry_sessions r) \<and>
     list_all (pump_ok (urls r) (ry_trackOwner r) (ry_pubs r)) (ry_pumps r) \<and>
     list_all (event_ok (ry_trackOwner r) (ry_pubs r)) h"

text \<open>Entries of the two maps never change.\<close>

lemma pump_ok_mono:
  assumes "pump_ok us ow pb p" "map_of ow \<subseteq>\<^sub>m map_of ow'" "map_of pb \<subseteq>\<^sub>m map_of pb'"
  shows "pump_ok (us @ vs) ow' pb' p"
  using assms by (auto simp: pump_ok_def nth_append map_le_def dom_def)

lemma event_ok_mono:
  assumes "event_ok ow pb e" "map_of ow \<subseteq>\<^sub>m map_of ow'" "map_of pb \<subseteq>\<^sub>m map_of pb'"
  shows "event_ok ow' pb' e"
  using assms by (auto simp: event_ok_def map_le_def dom_def split: forwarded.splits)

lemma pubs_ok_grows: "pubs_ok s pb \<Longrightarrow> grows s s' \<Longrightarrow> pubs_ok s' pb"
  unfolding pubs_ok_def grows_def by (meson order_less_le_trans)

lemma map_le_Cons: "map_of m k = None \<Longrightarrow> map_of m \<subseteq>\<^sub>m map_of ((k, v) # m)"
  by (auto simp: map_le_def)

lemma relay_ok_server:
  assumes "relay_ok h r" "srv_inv s" "grows (ry_srv r) s"
  shows "relay_ok h (r\<lparr>ry_srv := s\<rparr>)"
  using assms pubs_ok_grows [OF _ assms(3)] by (simp add: relay_ok_def grows_def)

lemma relay_ok_pumped:
  assumes "relay_ok h r" "k < length (ry_sessions r)" "session_ok (ry_cfg r) ((ry_sessions r ! k)\<lparr>rs_pumped := ns\<rparr>)"
  shows "relay_ok h (set_pumped k ns r)" "urls (set_pumped k ns r) = urls r"
proof -
  have u: "urls (set_pumped k ns r) = urls r"
    using map_update [of rs_url "ry_sessions r" k "(ry_sessions r ! k)\<lparr>rs_pumped := ns\<rparr>"] assms(2)
    by (simp add: set_pumped_def) (metis list_update_id map_update)
  moreover have "list_all (session_ok (ry_cfg r)) ((ry_sessions r)[k := (ry_sessions r ! k)\<lparr>rs_pumped := ns\<rparr>])"
    using assms by (intro list_all_update) (simp_all add: relay_ok_def)
  ultimately show "relay_ok h (set_pumped k ns r)" using assms(1) by (simp add: relay_ok_def set_pumped_def)
  show "urls (set_pumped k ns r) = urls r" by (rule u)
qed

lemma relay_ok_claim:
  assumes "relay_ok h r" "claimTrack n u r = (ok, r1)"
  shows "relay_ok h r1" "ok \<Longrightarrow> map_of (ry_trackOwner r1) n = Some u" "ry_sessions r1 = ry_sessions r" "ry_pumps r1 = ry_pumps r"
    "ry_cfg r1 = ry_cfg r" "ry_pubs r1 = ry_pubs r"
proof -
  have "relay_ok h r1 \<and> (ok \<longrightarrow> map_of (ry_trackOwner r1) n = Some u) \<and> ry_sessions r1 = ry_sessions r \<and> ry_pumps r1 = ry_pumps r \<and>
    ry_cfg r1 = ry_cfg r \<and> ry_pubs r1 = ry_pubs r"
  proof (cases "map_of (ry_trackOwner r) n")
    case (Some o')
    then show ?thesis using assms by (auto simp: claimTrack_def)
  next
    case None
    have r1: "r1 = r\<lparr>ry_trackOwner := (n, u) # ry_trackOwner r\<rparr>" "ok" using assms(2) None by (auto simp: claimTrack_def)
    have le: "map_of (ry_trackOwner r) \<subseteq>\<^sub>m map_of ((n, u) # ry_trackOwner r)" by (rule map_le_Cons [OF None])
    have "list_all (pump_ok (urls r) ((n, u) # ry_trackOwner r) (ry_pubs r)) (ry_pumps r)"
      using assms(1) pump_ok_mono [OF _ le map_le_refl, of _ _ _ "[]"] by (auto simp: relay_ok_def list_all_iff)
    moreover have "list_all (event_ok ((n, u) # ry_trackOwner r) (ry_pubs r)) h"
      using assms(1) event_ok_mono [OF _ le map_le_refl] by (auto simp: relay_ok_def list_all_iff)
    ultimately show ?thesis using assms(1) by (simp add: r1 relay_ok_def)
  qed
  then show "relay_ok h r1" "ok \<Longrightarrow> map_of (ry_trackOwner r1) n = Some u" "ry_sessions r1 = ry_sessions r" "ry_pumps r1 = ry_pumps r"
    "ry_cfg r1 = ry_cfg r" "ry_pubs r1 = ry_pubs r" by auto
qed

lemma relay_ok_startPump:
  assumes "relay_ok h r" "k < length (ry_sessions r)"
  shows "relay_ok h (snd (startPump k n r))"
proof -
  let ?s = "ry_sessions r ! k" and ?cap = "ry_MaxTracksPerUpstream (ry_cfg r)"
  show ?thesis
  proof (cases "n \<in> set (rs_pumped ?s) \<or> 0 \<le> ?cap \<and> ?cap \<le> int (length (rs_pumped ?s))")
    case True
    then show ?thesis using assms(1) by (auto simp: startPump_def Let_def)
  next
    case False
    obtain ok r1 where c: "claimTrack n (rs_url ?s) r = (ok, r1)" by fastforce
    note C = relay_ok_claim [OF assms(1) c]
    have "session_ok (ry_cfg r) ?s" using assms by (simp add: relay_ok_def list_all_length)
    then have "session_ok (ry_cfg r1) ((ry_sessions r1 ! k)\<lparr>rs_pumped := rs_pumped ?s @ [n]\<rparr>)"
      using False by (auto simp: session_ok_def C)
    then have "relay_ok h (set_pumped k (rs_pumped ?s @ [n]) r1)" "urls (set_pumped k (rs_pumped ?s @ [n]) r1) = urls r1"
      using relay_ok_pumped [OF C(1)] assms(2) C(3) by auto
    moreover have "pump_ok (urls r1) (ry_trackOwner r1) (ry_pubs r1) \<lparr>rp_session = k, rp_name = n, rp_phase = PReserved\<rparr>" if ok
      using C(2) [OF that] assms(2) by (simp add: pump_ok_def C(3))
    ultimately have "ok \<Longrightarrow> relay_ok h ((set_pumped k (rs_pumped ?s @ [n]) r1)\<lparr>ry_pumps := ry_pumps r1 @
        [\<lparr>rp_session = k, rp_name = n, rp_phase = PReserved\<rparr>]\<rparr>)"
      by (simp add: relay_ok_def set_pumped_def)
    then show ?thesis using C(1) False c by (cases ok) (auto simp: startPump_def Let_def)
  qed
qed

lemma addTrack_bc: "srv_inv s \<Longrightarrow> fst (AddTrack ja n s) < length (sv_bcs (snd (AddTrack ja n s)))"
proof -
  assume inv: "srv_inv s"
  have "fst (addTrackInternal ja n k p t s) < length (sv_bcs (snd (addTrackInternal ja n k p t s)))" for k p t
  proof (cases "map_of (sv_tracks s) n")
    case (Some x)
    then show ?thesis using tracks_okD(3) [OF srv_inv_tracks [OF inv] map_of_SomeD [OF Some]] by (simp add: addTrackInternal_def)
  next
    case None
    then show ?thesis using addTrackInternal_new(1,3) [OF None] by simp
  qed
  then show ?thesis by (simp add: AddTrack_def AddTrackSpec_def Let_def)
qed

lemma relay_ok_publisher:
  assumes "relay_ok h r" "getOrCreatePublisher ja n r = (pub, r1)"
  shows "relay_ok h r1" "map_of (ry_pubs r1) n = Some pub" "ry_pumps r1 = ry_pumps r" "ry_sessions r1 = ry_sessions r"
    "ry_trackOwner r1 = ry_trackOwner r"
proof -
  have "relay_ok h r1 \<and> map_of (ry_pubs r1) n = Some pub \<and> ry_pumps r1 = ry_pumps r \<and> ry_sessions r1 = ry_sessions r \<and>
    ry_trackOwner r1 = ry_trackOwner r"
  proof (cases "map_of (ry_pubs r) n")
    case (Some q)
    then show ?thesis using assms by (simp add: getOrCreatePublisher_def)
  next
    case None
    have inv: "srv_inv (ry_srv r)" "map_of (sv_tracks (ry_srv r)) ''primary'' \<noteq> None" using assms(1) by (simp_all add: relay_ok_def)
    obtain srv where r1: "r1 = r\<lparr>ry_srv := srv, ry_pubs := (n, pub) # ry_pubs r\<rparr>"
      and srv: "srv_inv srv" "grows (ry_srv r) srv" "\<exists>i < length (sv_bcs srv). pub = Some i"
    proof (cases "n = ''primary''")
      case True
      obtain t where t: "map_of (sv_tracks (ry_srv r)) ''primary'' = Some t" using inv(2) by blast
      then have "te_bc t < length (sv_bcs (ry_srv r))" using tracks_okD(3) [OF srv_inv_tracks [OF inv(1)] map_of_SomeD [OF t]] by simp
      then show ?thesis using that [of "ry_srv r"] assms(2) None True inv(1) t
        by (auto simp: getOrCreatePublisher_def Publisher_def grows_def)
    next
      case False
      obtain i srv where i: "AddTrack ja n (ry_srv r) = (i, srv)" by fastforce
      have "grows (ry_srv r) (snd (AddTrack ja n (ry_srv r)))" "srv_inv (snd (AddTrack ja n (ry_srv r)))"
        unfolding AddTrack_def by (rule grows_AddTrackSpec, rule srv_inv_AddTrackSpec [OF inv(1)])
      then show ?thesis using that [of srv] assms(2) None False i addTrack_bc [OF inv(1), of ja n]
        by (auto simp: getOrCreatePublisher_def)
    qed
    have le: "map_of (ry_pubs r) \<subseteq>\<^sub>m map_of ((n, pub) # ry_pubs r)" by (rule map_le_Cons [OF None])
    have "list_all (pump_ok (urls r) (ry_trackOwner r) ((n, pub) # ry_pubs r)) (ry_pumps r)"
      using assms(1) pump_ok_mono [OF _ map_le_refl le, of _ _ _ "[]"] by (auto simp: relay_ok_def list_all_iff)
    moreover have "list_all (event_ok (ry_trackOwner r) ((n, pub) # ry_pubs r)) h"
      using assms(1) event_ok_mono [OF _ map_le_refl le] by (auto simp: relay_ok_def list_all_iff)
    moreover have "pubs_ok srv ((n, pub) # ry_pubs r)"
      using assms(1) pubs_ok_grows [OF _ srv(2)] srv(3) by (auto simp: relay_ok_def pubs_ok_def)
    ultimately show ?thesis using assms(1) srv(1,2) by (simp add: r1 relay_ok_def grows_def)
  qed
  then show "relay_ok h r1" "map_of (ry_pubs r1) n = Some pub" "ry_pumps r1 = ry_pumps r" "ry_sessions r1 = ry_sessions r"
    "ry_trackOwner r1 = ry_trackOwner r" by simp_all
qed

lemma relay_ok_set_pump:
  assumes "relay_ok h r" "pump_ok (urls r) (ry_trackOwner r) (ry_pubs r) ((ry_pumps r ! p)\<lparr>rp_phase := ph\<rparr>)"
  shows "relay_ok h (set_pump p ph r)"
  using assms by (simp add: relay_ok_def set_pump_def list_all_update)

lemma relay_ok_pump_publisher:
  assumes "relay_ok h r" "p < length (ry_pumps r)"
  shows "relay_ok h (pump_publisher ja p r)"
proof (cases "rp_phase (ry_pumps r ! p)")
  case PReserved
  obtain pub r1 where g: "getOrCreatePublisher ja (rp_name (ry_pumps r ! p)) r = (pub, r1)" by fastforce
  note G = relay_ok_publisher [OF assms(1) g]
  have "pump_ok (urls r) (ry_trackOwner r) (ry_pubs r) (ry_pumps r ! p)" using assms by (simp add: relay_ok_def list_all_length)
  then have "relay_ok h (set_pump p (PRunning pub) r1)"
    using G by (intro relay_ok_set_pump) (simp_all add: pump_ok_def)
  then show ?thesis using PReserved g by (simp add: pump_publisher_def)
qed (use assms(1) in \<open>simp_all add: pump_publisher_def\<close>)

lemma relay_ok_pump_round:
  assumes "relay_ok h r" "p < length (ry_pumps r)"
  shows "\<exists>r1. pump_round p recv r = Some r1 \<and> relay_ok (h @ relay_event (RyRecv p recv) r) r1"
proof -
  have ok: "pump_ok (urls r) (ry_trackOwner r) (ry_pubs r) (ry_pumps r ! p)" using assms by (simp add: relay_ok_def list_all_length)
  show ?thesis
  proof (cases "rp_phase (ry_pumps r ! p)")
    case (PRunning pub)
    obtain au e where recv: "recv = (au, e)" by (cases recv)
    have pub: "map_of (ry_pubs r) (rp_name (ry_pumps r ! p)) = Some pub" using ok PRunning by (simp add: pump_ok_def)
    then obtain i where i: "pub = Some i" "i < length (sv_bcs (ry_srv r))"
      using assms(1) map_of_SomeD [OF pub] by (force simp: relay_ok_def pubs_ok_def)
    show ?thesis
    proof (cases e)
      case None
      obtain srv where srv: "Publisher_Publish i (relay_au au) (ry_srv r) = Some srv" "srv_inv srv"
        using srv_inv_Publish [OF _ i(2)] assms(1) by (auto simp: relay_ok_def)
      have "grows (ry_srv r) srv" using srv(1) by (auto simp: Publisher_Publish_def grows_def split: option.splits)
      from relay_ok_server [OF assms(1) srv(2) this] show ?thesis
        using PRunning i None recv srv(1) assms(2) ok pub
        by (simp add: pump_round_def relay_event_def relay_ok_def event_ok_def pump_ok_def)
    next
      case (Some err)
      let ?k = "rp_session (ry_pumps r ! p)"
      let ?ns = "filter (\<lambda>n. n \<noteq> rp_name (ry_pumps r ! p)) (rs_pumped (ry_sessions r ! ?k))"
      have k: "?k < length (ry_sessions r)" using ok by (simp add: pump_ok_def)
      then have "session_ok (ry_cfg r) (ry_sessions r ! ?k)" using assms(1) by (simp add: relay_ok_def list_all_length)
      then have "session_ok (ry_cfg r) ((ry_sessions r ! ?k)\<lparr>rs_pumped := ?ns\<rparr>)"
        by (auto simp: session_ok_def intro: order_trans [OF of_nat_mono [OF length_filter_le]])
      note S = relay_ok_pumped [OF assms(1) k this]
      have "pump_ok (urls (set_pumped ?k ?ns r)) (ry_trackOwner (set_pumped ?k ?ns r)) (ry_pubs (set_pumped ?k ?ns r))
          ((ry_pumps (set_pumped ?k ?ns r) ! p)\<lparr>rp_phase := PExited\<rparr>)"
        using ok unfolding S(2) by (simp add: pump_ok_def set_pumped_def)
      from relay_ok_set_pump [OF S(1) this] show ?thesis
        using PRunning Some recv by (simp add: pump_round_def relay_event_def Let_def)
    qed
  qed (use assms in \<open>auto simp: pump_round_def relay_event_def split: option.split prod.split\<close>)
qed

lemma relay_ok_exec:
  assumes "relay_ok h r" "op \<noteq> RyServer (SvRemoveTrack ''primary'')"
  shows "\<exists>r1. relay_exec ja ju op r = Some r1 \<and> relay_ok (h @ relay_event op r) r1"
proof (cases op)
  case (RySession url)
  let ?r = "r\<lparr>ry_sessions := ry_sessions r @ [\<lparr>rs_url = url, rs_pumped = [], rs_done = False\<rparr>]\<rparr>"
  have "list_all (pump_ok (urls r @ [url]) (ry_trackOwner r) (ry_pubs r)) (ry_pumps r)"
    using assms(1) pump_ok_mono [OF _ map_le_refl map_le_refl] by (auto simp: relay_ok_def list_all_iff)
  then have "relay_ok h ?r" using assms(1) by (simp add: relay_ok_def session_ok_def)
  from relay_ok_startPump [OF this] show ?thesis using RySession by (simp add: relay_event_def session_open_def)
next
  case (RyAnnounced k n)
  then show ?thesis using assms(1) relay_ok_startPump [OF assms(1)] by (simp add: relay_event_def)
next
  case (RyPublisher p)
  then show ?thesis using assms(1) relay_ok_pump_publisher [OF assms(1)] by (simp add: relay_event_def)
next
  case (RyRecv p recv)
  then show ?thesis using assms(1) relay_ok_pump_round [OF assms(1), of p recv]
    by (cases "p < length (ry_pumps r)") (auto simp: relay_event_def split: option.split prod.split)
next
  case (RyReturn k)
  have "relay_ok h (session_return k r)" if k: "k < length (ry_sessions r)"
  proof -
    have "urls (session_return k r) = urls r" using k by (simp add: session_return_def map_update) (metis list_update_id map_update)
    moreover have "list_all (session_ok (ry_cfg r)) ((ry_sessions r)[k := (ry_sessions r ! k)\<lparr>rs_done := True\<rparr>])"
      using assms(1) k by (intro list_all_update) (auto simp: relay_ok_def session_ok_def list_all_length)
    ultimately show ?thesis using assms(1) by (simp add: relay_ok_def session_return_def)
  qed
  then show ?thesis using RyReturn assms(1) by (simp add: relay_event_def)
next
  case RyShutdown
  then show ?thesis using assms(1) by (simp add: relay_event_def markShutdown_def relay_ok_def)
next
  case (RyServer sop)
  have "srv_inv (ry_srv r)" using assms(1) by (simp add: relay_ok_def)
  from sv_exec_inv [OF this] obtain s where s: "sv_exec ja ju sop (ry_srv r) = Some s" "srv_inv s" by blast
  have "grows (ry_srv r) s" using grows_sv_exec [OF s(1)] assms(2) RyServer by blast
  then show ?thesis using relay_ok_server [OF assms(1) s(2)] s(1) RyServer by (simp add: relay_event_def)
qed

lemma relay_ok_trace:
  "relay_ok h r \<Longrightarrow> RyServer (SvRemoveTrack ''primary'') \<notin> set ops \<Longrightarrow>
     \<exists>h' r'. relay_trace ja ju ops (h, r) = Some (h', r') \<and> relay_ok h' r'"
proof (induction ops arbitrary: h r)
  case (Cons op ops)
  obtain r1 where r1: "relay_exec ja ju op r = Some r1" "relay_ok (h @ relay_event op r) r1"
    using relay_ok_exec [OF Cons.prems(1), of op ja ju] Cons.prems(2) by auto
  then show ?case using Cons.IH [OF r1(2)] Cons.prems(2) by simp
qed simp

section \<open>Reconnecting\<close>

definition failed :: "dial_outcome \<times> bool \<Rightarrow> bool" where
  "failed x \<longleftrightarrow> (case fst x of DialFailed e \<Rightarrow> True | _ \<Rightarrow> False)"

text \<open>The number of failed dials at the end of a history, and the id and sequence numbers of its last session.\<close>

definition failures :: "(dial_outcome \<times> bool) list \<Rightarrow> int" where
  "failures rounds = int (length (takeWhile failed (rev rounds)))"

fun after_round :: "dial_outcome \<Rightarrow> string \<times> (string \<times> 32 word) list \<Rightarrow> string \<times> (string \<times> 32 word) list" where
  "after_round (DialFailed e) q = q"
| "after_round (DialSession sid err lastSeen lasted) q = (sid, lastSeen)"

definition last_session :: "(dial_outcome \<times> bool) list \<Rightarrow> string \<times> (string \<times> 32 word) list" where
  "last_session rounds = fold (after_round \<circ> fst) rounds ([], [])"

definition resume_options :: "RelayConfig \<Rightarrow> string \<times> (string \<times> 32 word) list \<Rightarrow> Options" where
  "resume_options cfg q =
     (if fst q = [] then ry_ClientOptions cfg
      else (ry_ClientOptions cfg)\<lparr>co_SessionID := fst q, co_LastSeenSeq := snd q\<rparr>)"

text \<open>The upstream was lost in every round, and no sleep was interrupted.\<close>

definition disconnected :: "dial_outcome \<times> bool \<Rightarrow> bool" where
  "disconnected x \<longleftrightarrow> snd x \<and> (case fst x of DialFailed e \<Rightarrow> True | DialSession sid err lastSeen lasted \<Rightarrow> err \<noteq> None)"

lemma failures_snoc: "failures (rs @ [x]) = (if failed x then failures rs + 1 else 0)"
  by (simp add: failures_def)

lemma last_session_snoc: "last_session (rs @ [x]) = after_round (fst x) (last_session rs)"
  by (simp add: last_session_def)

definition upstream_after :: "(dial_outcome \<times> bool) list \<Rightarrow> upstream" where
  "upstream_after rs = \<lparr>up_sessionID = fst (last_session rs), up_lastSeenSeq = snd (last_session rs), up_attempts = failures rs\<rparr>"

lemma upstream_after_options: "upstream_options cfg (upstream_after rs) = resume_options cfg (last_session rs)"
  by (simp add: upstream_options_def upstream_after_def resume_options_def Let_def)

lemma upstream_after_round:
  "upstream_after (rs @ [(DialFailed e, sl)]) = (upstream_after rs)\<lparr>up_attempts := failures rs + 1\<rparr>"
  "upstream_after (rs @ [(DialSession sid err ls lasted, sl)]) = \<lparr>up_sessionID = sid, up_lastSeenSeq = ls, up_attempts = 0\<rparr>"
  by (simp_all add: upstream_after_def failures_snoc last_session_snoc failed_def)

text \<open>What the loop did, from a history \<open>rs\<close> on.\<close>

definition upstream_run ::
    "RelayConfig \<Rightarrow> (dial_outcome \<times> bool) list \<Rightarrow> (dial_outcome \<times> bool) list \<Rightarrow> Options list \<Rightarrow> go_error option option \<Rightarrow> bool" where
  "upstream_run cfg rs rounds os res \<longleftrightarrow>
     length os \<le> length rounds \<and>
     (\<forall>k < length os. os ! k = resume_options cfg (last_session (rs @ take k rounds)) \<and>
        failures (rs @ take k rounds) \<le> ry_MaxReconnectAttempts cfg) \<and>
     (case res of
        None \<Rightarrow> length os = length rounds \<and> failures (rs @ rounds) \<le> ry_MaxReconnectAttempts cfg
      | Some r \<Rightarrow> r \<noteq> None \<and> failures (rs @ take (length os) rounds) = ry_MaxReconnectAttempts cfg + 1)"

lemma upstream_run_Cons:
  assumes "upstream_run cfg (rs @ [x]) rounds os res" "failures rs \<le> ry_MaxReconnectAttempts cfg"
  shows "upstream_run cfg rs (x # rounds) (resume_options cfg (last_session rs) # os) res"
  using assms unfolding upstream_run_def by (simp add: All_less_Suc2 split: option.splits)

lemma runUpstream_run:
  assumes "list_all disconnected rounds" "0 \<le> ry_MaxReconnectAttempts cfg" "failures rs \<le> ry_MaxReconnectAttempts cfg"
  shows "upstream_run cfg rs rounds (fst (runUpstream cfg rounds (upstream_after rs))) (snd (runUpstream cfg rounds (upstream_after rs)))"
  using assms(1,3)
proof (induction rounds arbitrary: rs)
  case Nil
  then show ?case by (simp add: upstream_run_def)
next
  case (Cons x rounds)
  let ?m = "ry_MaxReconnectAttempts cfg" and ?run = "\<lambda>xs u. runUpstream cfg xs u"
  obtain d where x: "x = (d, True)" using Cons.prems(1) by (cases x) (simp add: disconnected_def)
  have IH: "upstream_run cfg rs (x # rounds) (resume_options cfg (last_session rs) # fst (?run rounds (upstream_after (rs @ [x]))))
      (snd (?run rounds (upstream_after (rs @ [x]))))" if "failures (rs @ [x]) \<le> ?m"
    using upstream_run_Cons [OF Cons.IH Cons.prems(2)] Cons.prems(1) that by simp
  show ?case
  proof (cases d)
    case (DialFailed e)
    have f: "failures (rs @ [x]) = failures rs + 1" by (simp add: failures_snoc failed_def x DialFailed)
    have u: "upstream_after (rs @ [x]) = (upstream_after rs)\<lparr>up_attempts := failures rs + 1\<rparr>"
      by (simp add: x DialFailed upstream_after_round)
    have a: "up_attempts (upstream_after rs) = failures rs" by (simp add: upstream_after_def)
    show ?thesis
    proof (cases "failures rs + 1 > ?m")
      case True
      then have "?run (x # rounds) (upstream_after rs) = ([resume_options cfg (last_session rs)], Some (Some e))"
        using assms(2) by (simp add: x DialFailed a upstream_after_options)
      then show ?thesis using True Cons.prems(2) f by (simp add: upstream_run_def)
    next
      case False
      then have "?run (x # rounds) (upstream_after rs) =
          (let (os, res) = ?run rounds (upstream_after (rs @ [x])) in (resume_options cfg (last_session rs) # os, res))"
        by (simp add: x DialFailed a upstream_after_options u [unfolded x DialFailed])
      then show ?thesis using IH f False by (simp add: split_beta)
    qed
  next
    case (DialSession sid err ls lasted)
    then obtain e where "err = Some e" using Cons.prems(1) x by (auto simp: disconnected_def)
    then have "?run (x # rounds) (upstream_after rs) =
        (let (os, res) = ?run rounds (upstream_after (rs @ [x])) in (resume_options cfg (last_session rs) # os, res))"
      by (simp add: x DialSession upstream_after_options upstream_after_round Let_def)
    then show ?thesis using IH assms(2) by (simp add: split_beta failures_snoc failed_def x DialSession)
  qed
qed

section \<open>Properties\<close>


text \<open>A relay of two upstreams: both have a track \<open>cam\<close>, the second one is refused.\<close>

definition ex_relay_cfg :: RelayConfig where
  "ex_relay_cfg = \<lparr>ry_Upstreams = [''a'', ''b''], ry_ClientOptions = \<lparr>co_CertHashB64URL = [], co_InsecureSkipVerify = True, co_Slug = ''x'',
     co_HelloTimeout = 0, co_SessionID = [], co_LastSeenSeq = [], co_Features = None, co_DataInboundBuffer = 0\<rparr>,
     ry_ReconnectInterval = 0, ry_MaxReconnectAttempts = 1, ry_MaxTracksPerUpstream = 0\<rparr>"

definition ex_relay :: "unit Relay" where
  "ex_relay = \<lparr>ry_cfg = relay_defaults ex_relay_cfg, ry_srv = NewServer (\<lambda>_. Inr []) ServerConfig_zero ''k'' ''i'' 60 (), ry_pubs = [],
     ry_trackOwner = [], ry_closed = False, ry_sessions = [], ry_pumps = []\<rparr>"

definition ex_relay_ops :: "unit relay_op list" where
  "ex_relay_ops = [RySession ''a'', RySession ''b'', RyPublisher 0, RyRecv 0 (AccessUnit_zero\<lparr>au_Seq := 5\<rparr>, None)]"

lemma ex_relay_run:
  "\<exists>r. relay_trace (\<lambda>_. Inr []) (\<lambda>_. Inr []) ex_relay_ops ([], ex_relay) =
     Some ([Forwarded ''a'' ''primary'' 0 (AccessUnit_zero\<lparr>au_Seq := 5\<rparr>)], r) \<and> map (length \<circ> rs_pumped) (ry_sessions r) = [1, 0]"
proof -
  let ?srv = "NewServer (\<lambda>_. Inr []) ServerConfig_zero ''k'' ''i'' 60 () :: unit Server"
  have p: "Publisher ?srv = Some 0"
    by (simp add: Publisher_def NewServer_def AddTrack_def AddTrackSpec_def addTrackInternal_def attachRecordersToTrack_def Let_def)
  have "0 < length (sv_bcs ?srv)"
    by (simp add: NewServer_def AddTrack_def AddTrackSpec_def addTrackInternal_def attachRecordersToTrack_def Let_def)
  from srv_inv_Publish [OF srv_inv_New this] obtain s
    where s: "Publisher_Publish 0 (AccessUnit_zero\<lparr>au_Seq := 5\<rparr>) ?srv = Some s" by blast
  have a: "relay_au (AccessUnit_zero\<lparr>au_Seq := 5\<rparr>) = AccessUnit_zero\<lparr>au_Seq := 5\<rparr>" by (simp add: relay_au_def AccessUnit_zero_def)
  have c: "ry_MaxTracksPerUpstream (relay_defaults ex_relay_cfg) = 256" by (simp add: relay_defaults_def ex_relay_cfg_def)
  show ?thesis unfolding ex_relay_ops_def ex_relay_def
    by (simp add: session_open_def startPump_def claimTrack_def set_pumped_def c pump_publisher_def getOrCreatePublisher_def p set_pump_def
        pump_round_def a s relay_event_def)
qed


text \<open>C33. The retry loop of an upstream whose every dial fails or whose every session ends with an error: each dial resumes the
  latest session (its id and its \<open>LastSeenSeq\<close>), the loop ends exactly when more than \<open>MaxReconnectAttempts\<close> dials in a row
  have failed, with an error, and until then it goes on.\<close>

theorem runUpstream_retries:
  assumes "list_all disconnected rounds" "0 \<le> ry_MaxReconnectAttempts cfg" "runUpstream cfg rounds upstream_init = (os, res)"
  shows "(\<forall>k < length os. os ! k = resume_options cfg (last_session (take k rounds)) \<and>
      failures (take k rounds) \<le> ry_MaxReconnectAttempts cfg) \<and>
    (if res = None then length os = length rounds \<and> failures rounds \<le> ry_MaxReconnectAttempts cfg
     else the res \<noteq> None \<and> failures (take (length os) rounds) = ry_MaxReconnectAttempts cfg + 1)"
proof -
  have "upstream_after [] = upstream_init" by (simp add: upstream_after_def upstream_init_def last_session_def failures_def)
  then have "upstream_run cfg [] rounds os res"
    using runUpstream_run [OF assms(1,2), of "[]"] assms(2,3) by (simp add: failures_def)
  then show ?thesis by (auto simp: upstream_run_def split: option.splits)
qed

theorem runUpstream_retries_witness:
  "runUpstream ex_relay_cfg [(DialFailed ErrClosedPipe, True), (DialSession ''s'' (Some EOF) [(''cam'', 7)] 3, True),
       (DialFailed ErrClosedPipe, True), (DialFailed ErrClosedPipe, True), (DialFailed ErrClosedPipe, True)] upstream_init =
     ([ry_ClientOptions ex_relay_cfg, ry_ClientOptions ex_relay_cfg,
       (ry_ClientOptions ex_relay_cfg)\<lparr>co_SessionID := ''s'', co_LastSeenSeq := [(''cam'', 7)]\<rparr>,
       (ry_ClientOptions ex_relay_cfg)\<lparr>co_SessionID := ''s'', co_LastSeenSeq := [(''cam'', 7)]\<rparr>], Some (Some ErrClosedPipe)) \<and>
   failures (take 4 [(DialFailed ErrClosedPipe, True), (DialSession ''s'' (Some EOF) [(''cam'', 7)] 3, True),
       (DialFailed ErrClosedPipe, True), (DialFailed ErrClosedPipe, True), (DialFailed ErrClosedPipe, True)]) = 2"
proof -
  let ?rs = "[(DialFailed ErrClosedPipe, True), (DialSession ''s'' (Some EOF) [(''cam'', 7)] 3, True),
       (DialFailed ErrClosedPipe, True), (DialFailed ErrClosedPipe, True), (DialFailed ErrClosedPipe, True)]"
  have m: "ry_MaxReconnectAttempts ex_relay_cfg = 1" "ry_ReconnectInterval ex_relay_cfg = 0" by (simp_all add: ex_relay_cfg_def)
  have r: "runUpstream ex_relay_cfg ?rs upstream_init = ([ry_ClientOptions ex_relay_cfg, ry_ClientOptions ex_relay_cfg,
       (ry_ClientOptions ex_relay_cfg)\<lparr>co_SessionID := ''s'', co_LastSeenSeq := [(''cam'', 7)]\<rparr>,
       (ry_ClientOptions ex_relay_cfg)\<lparr>co_SessionID := ''s'', co_LastSeenSeq := [(''cam'', 7)]\<rparr>], Some (Some ErrClosedPipe))"
    by (simp add: m upstream_init_def upstream_options_def Let_def)
  have "failures (take 4 ?rs) = 2" using runUpstream_retries [OF _ _ r] by (simp add: m disconnected_def)
  then show ?thesis using r by blast
qed

end
