(* ===== verification/Congestion.thy ===== *)
theory Congestion
  imports Prelude
begin

text \<open>
  The send-rate meter (\<^verbatim>\<open>transport/congestion.go\<close>). Times are microseconds as integers; byte counters keep their width.
\<close>

record rateSample =
  rs_tMicros :: int
  rs_bytes :: "32 word"

record SendRateMeter =
  rm_windowMicros :: int
  rm_samples :: "rateSample list"
  rm_head :: nat
  rm_totalBytes :: "64 word"

text \<open>The window is in nanoseconds; \<^verbatim>\<open>Microseconds\<close> truncates.\<close>

definition NewSendRateMeter :: "int \<Rightarrow> SendRateMeter" where
  "NewSendRateMeter window =
     (let w = (if window \<le> 0 then 1000000000 else window) in
      \<lparr>rm_windowMicros = w div 1000, rm_samples = [], rm_head = 0, rm_totalBytes = 0\<rparr>)"

text \<open>The loop that drops samples older than the cutoff from the head.\<close>

function advance :: "int \<Rightarrow> SendRateMeter \<Rightarrow> SendRateMeter" where
  "advance cutoff m =
     (if rm_head m < length (rm_samples m) \<and> rs_tMicros (rm_samples m ! rm_head m) < cutoff
      then advance cutoff (m\<lparr>rm_totalBytes := rm_totalBytes m - ucast (rs_bytes (rm_samples m ! rm_head m)), rm_head := Suc (rm_head m)\<rparr>)
      else m)"
  by pat_completeness auto
termination by (relation "measure (\<lambda>(cutoff, m). length (rm_samples m) - rm_head m)") auto

declare advance.simps [simp del]

definition RateMeter_Add :: "int \<Rightarrow> int \<Rightarrow> SendRateMeter \<Rightarrow> SendRateMeter" where
  "RateMeter_Add n t m =
     (let m1 = m\<lparr>rm_samples := rm_samples m @ [\<lparr>rs_tMicros = t, rs_bytes = of_int n\<rparr>], rm_totalBytes := rm_totalBytes m + of_int n\<rparr>;
          m2 = advance (t - rm_windowMicros m1) m1 in
      if rm_head m2 > 1024 then m2\<lparr>rm_samples := drop (rm_head m2) (rm_samples m2), rm_head := 0\<rparr> else m2)"

definition RateMeter_Rate :: "int \<Rightarrow> SendRateMeter \<Rightarrow> 64 word \<times> SendRateMeter" where
  "RateMeter_Rate now m =
     (let m1 = advance (now - rm_windowMicros m) m in
      if rm_head m1 \<ge> length (rm_samples m1) then (0, m1)
      else let span = now - rs_tMicros (rm_samples m1 ! rm_head m1) in
        if span \<le> 0 then (0, m1) else (rm_totalBytes m1 * 1000000 div of_int span, m1))"

section \<open>The samples in the window\<close>

definition live :: "SendRateMeter \<Rightarrow> rateSample list" where
  "live m = drop (rm_head m) (rm_samples m)"

definition total :: "rateSample list \<Rightarrow> 64 word" where
  "total ss = sum_list (map (ucast \<circ> rs_bytes) ss)"

lemma advance_live:
  assumes "rm_head m \<le> length (rm_samples m)" "rm_totalBytes m = total (live m)"
  shows "live (advance c m) = dropWhile (\<lambda>s. rs_tMicros s < c) (live m)" "rm_totalBytes (advance c m) = total (live (advance c m))"
    "rm_head (advance c m) \<le> length (rm_samples (advance c m))" "rm_windowMicros (advance c m) = rm_windowMicros m"
proof -
  have "live (advance c m) = dropWhile (\<lambda>s. rs_tMicros s < c) (live m) \<and> rm_totalBytes (advance c m) = total (live (advance c m)) \<and>
    rm_head (advance c m) \<le> length (rm_samples (advance c m)) \<and> rm_windowMicros (advance c m) = rm_windowMicros m"
    using assms
  proof (induction c m rule: advance.induct)
    case (1 c m)
    show ?case
    proof (cases "rm_head m < length (rm_samples m)")
      case True
      then have l: "live m = rm_samples m ! rm_head m # drop (Suc (rm_head m)) (rm_samples m)" by (simp add: live_def Cons_nth_drop_Suc)
      show ?thesis
      proof (cases "rs_tMicros (rm_samples m ! rm_head m) < c")
        case old: True
        let ?m = "m\<lparr>rm_totalBytes := rm_totalBytes m - ucast (rs_bytes (rm_samples m ! rm_head m)), rm_head := Suc (rm_head m)\<rparr>"
        have "live ?m = tl (live m)" by (simp add: l) (simp add: live_def)
        moreover from this have "rm_totalBytes ?m = total (live ?m)" using "1.prems"(2) by (simp add: l total_def)
        ultimately show ?thesis using "1.IH" True old l by (simp add: advance.simps [of c m])
      qed (use True l "1.prems" in \<open>simp add: advance.simps [of c m]\<close>)
    qed (use "1.prems" in \<open>simp add: advance.simps [of c m] live_def\<close>)
  qed
  then show "live (advance c m) = dropWhile (\<lambda>s. rs_tMicros s < c) (live m)" "rm_totalBytes (advance c m) = total (live (advance c m))"
    "rm_head (advance c m) \<le> length (rm_samples (advance c m))" "rm_windowMicros (advance c m) = rm_windowMicros m" by simp_all
qed

lemma dropWhile_sorted:
  "sorted (map rs_tMicros ss) \<Longrightarrow> dropWhile (\<lambda>s. rs_tMicros s < c) ss = filter (\<lambda>s. c \<le> rs_tMicros s) ss"
proof (induction ss)
  case (Cons x ss)
  show ?case
  proof (cases "rs_tMicros x < c")
    case False
    then have "\<forall>s \<in> set (x # ss). c \<le> rs_tMicros s" using Cons.prems by auto
    then have "filter (\<lambda>s. c \<le> rs_tMicros s) (x # ss) = x # ss" by (simp only: filter_id_conv)
    then show ?thesis using False by (simp only: dropWhile.simps if_False)
  qed (use Cons in simp)
qed simp

section \<open>Histories\<close>

text \<open>What a connection does with its meter: bytes sent at a time, or the rate read at a time.\<close>

datatype meter_op = MAdd int int | MRate int

fun op_time :: "meter_op \<Rightarrow> int" where
  "op_time (MAdd n t) = t"
| "op_time (MRate t) = t"

fun meter_exec :: "meter_op \<Rightarrow> SendRateMeter \<Rightarrow> SendRateMeter" where
  "meter_exec (MAdd n t) m = RateMeter_Add n t m"
| "meter_exec (MRate t) m = snd (RateMeter_Rate t m)"

text \<open>Everything that was sent, and the part of it in the window before a time.\<close>

fun sent :: "meter_op list \<Rightarrow> (int \<times> int) list" where
  "sent [] = []"
| "sent (MAdd n t # ops) = (n, t) # sent ops"
| "sent (MRate t # ops) = sent ops"

definition in_window :: "int \<Rightarrow> int \<Rightarrow> (int \<times> int) list \<Rightarrow> (int \<times> int) list" where
  "in_window w now ss = filter (\<lambda>(n, t). now - w \<le> t) ss"

text \<open>The reference: bytes sent in the window, per second, over the time since the oldest of them.\<close>

definition rate_spec :: "int \<Rightarrow> int \<Rightarrow> (int \<times> int) list \<Rightarrow> 64 word" where
  "rate_spec w now ss =
     (case in_window w now ss of
        [] \<Rightarrow> 0
      | (n, t) # rest \<Rightarrow> if now \<le> t then 0
          else of_int (sum_list (map fst ((n, t) # rest))) * 1000000 div of_int (now - t))"

definition sample_of :: "int \<times> int \<Rightarrow> rateSample" where
  "sample_of p = \<lparr>rs_tMicros = snd p, rs_bytes = of_int (fst p)\<rparr>"

definition meter_inv :: "int \<Rightarrow> (int \<times> int) list \<Rightarrow> int \<Rightarrow> SendRateMeter \<Rightarrow> bool" where
  "meter_inv w ss now m \<longleftrightarrow> 0 \<le> w \<and> rm_head m \<le> length (rm_samples m) \<and> rm_totalBytes m = total (live m) \<and> rm_windowMicros m = w \<and>
     (\<exists>since \<le> now - w. live m = map sample_of (filter (\<lambda>p. since \<le> snd p) ss)) \<and> sorted (map snd ss) \<and> (\<forall>p \<in> set ss. snd p \<le> now)"

lemma ucast_of_int_32: "0 \<le> n \<Longrightarrow> n < 2 ^ 32 \<Longrightarrow> ucast (of_int n :: 32 word) = (of_int n :: 64 word)"
  by transfer (simp add: take_bit_int_eq_self)

lemma filter_sorted_window:
  assumes "sorted (map snd ss)" "since \<le> c"
  shows "dropWhile (\<lambda>s. rs_tMicros s < c) (map sample_of (filter (\<lambda>p. since \<le> snd p) ss)) = map sample_of (filter (\<lambda>p. c \<le> snd p) ss)"
proof -
  have "map rs_tMicros (map sample_of (filter (\<lambda>p. since \<le> snd p) ss)) = map snd (filter (\<lambda>p. since \<le> snd p) ss)"
    by (simp add: sample_of_def)
  then have "sorted (map rs_tMicros (map sample_of (filter (\<lambda>p. since \<le> snd p) ss)))"
    using sorted_filter [OF assms(1)] by (simp only:)
  then have "dropWhile (\<lambda>s. rs_tMicros s < c) (map sample_of (filter (\<lambda>p. since \<le> snd p) ss)) =
      map sample_of (filter (\<lambda>p. c \<le> snd p) (filter (\<lambda>p. since \<le> snd p) ss))"
    by (simp only: dropWhile_sorted filter_map) (simp add: sample_of_def comp_def)
  moreover have "filter (\<lambda>p. c \<le> snd p) (filter (\<lambda>p. since \<le> snd p) ss) = filter (\<lambda>p. c \<le> snd p) ss"
    using assms(2) by (auto intro: filter_cong)
  ultimately show ?thesis by simp
qed

lemma meter_inv_advance:
  assumes "meter_inv w ss now m" "now \<le> t"
  shows "meter_inv w ss t (advance (t - w) m)" "live (advance (t - w) m) = map sample_of (filter (\<lambda>p. t - w \<le> snd p) ss)"
proof -
  obtain since where s: "since \<le> now - w" "live m = map sample_of (filter (\<lambda>p. since \<le> snd p) ss)"
    using assms(1) by (auto simp: meter_inv_def)
  have A: "rm_head m \<le> length (rm_samples m)" "rm_totalBytes m = total (live m)" "sorted (map snd ss)" "rm_windowMicros m = w"
    "\<forall>p \<in> set ss. snd p \<le> now" "0 \<le> w" using assms(1) by (simp_all add: meter_inv_def)
  have "since \<le> t - w" using s(1) assms(2) by simp
  then show l: "live (advance (t - w) m) = map sample_of (filter (\<lambda>p. t - w \<le> snd p) ss)"
    unfolding advance_live(1) [OF A(1,2)] s(2) by (rule filter_sorted_window [OF A(3)])
  have "\<exists>since \<le> t - w. live (advance (t - w) m) = map sample_of (filter (\<lambda>p. since \<le> snd p) ss)" using l by blast
  moreover have "\<forall>p \<in> set ss. snd p \<le> t" using A(5) assms(2) by force
  ultimately show "meter_inv w ss t (advance (t - w) m)"
    using advance_live [OF A(1,2), of "t - w"] A(3,4,6) by (simp add: meter_inv_def)
qed

lemma meter_inv_Add:
  assumes "meter_inv w ss now m" "now \<le> t" "0 \<le> n" "n < 2 ^ 32"
  shows "meter_inv w (ss @ [(n, t)]) t (RateMeter_Add n t m)"
proof -
  define m1 where "m1 = m\<lparr>rm_samples := rm_samples m @ [\<lparr>rs_tMicros = t, rs_bytes = of_int n\<rparr>], rm_totalBytes := rm_totalBytes m + of_int n\<rparr>"
  obtain since where s: "since \<le> now - w" "live m = map sample_of (filter (\<lambda>p. since \<le> snd p) ss)"
    using assms(1) by (auto simp: meter_inv_def)
  have A: "rm_head m \<le> length (rm_samples m)" "rm_totalBytes m = total (live m)" "sorted (map snd ss)" "rm_windowMicros m = w"
    "\<forall>p \<in> set ss. snd p \<le> now" "0 \<le> w" using assms(1) by (simp_all add: meter_inv_def)
  have l1: "live m1 = live m @ [sample_of (n, t)]" using A(1) by (simp add: m1_def live_def sample_of_def)
  have "rm_totalBytes m1 = total (live m1)"
    unfolding l1 using A(2) ucast_of_int_32 [OF assms(3,4)] by (simp add: m1_def total_def sample_of_def)
  moreover have "\<exists>since \<le> t - w. live m1 = map sample_of (filter (\<lambda>p. since \<le> snd p) (ss @ [(n, t)]))"
    using s assms(2) A(6) l1 by (intro exI [of _ since]) simp
  moreover have "sorted (map snd (ss @ [(n, t)]))" "\<forall>p \<in> set (ss @ [(n, t)]). snd p \<le> t"
    using A(3,5) assms(2) by (force simp: sorted_append)+
  ultimately have "meter_inv w (ss @ [(n, t)]) t m1" using A(1,4,6) by (simp add: meter_inv_def) (simp add: m1_def)
  from meter_inv_advance(1) [OF this order_refl] have m2: "meter_inv w (ss @ [(n, t)]) t (advance (t - w) m1)" .
  have c: "meter_inv w ss' t (q\<lparr>rm_samples := drop (rm_head q) (rm_samples q), rm_head := 0\<rparr>)" if "meter_inv w ss' t q" for ss' q
    using that by (simp add: meter_inv_def live_def)
  have w: "rm_windowMicros m1 = w" by (simp add: m1_def A(4))
  show ?thesis using m2 c [OF m2] unfolding RateMeter_Add_def Let_def m1_def [symmetric] w by simp
qed

lemma meter_inv_Rate: "meter_inv w ss now m \<Longrightarrow> now \<le> t \<Longrightarrow> meter_inv w ss t (snd (RateMeter_Rate t m))"
  using meter_inv_advance(1) [of w ss now m t] by (simp add: RateMeter_Rate_def Let_def meter_inv_def)

lemma meter_inv_fold:
  assumes "meter_inv w ss now m" "sorted (now # map op_time ops)" "\<forall>p \<in> set (sent ops). 0 \<le> fst p \<and> fst p < 2 ^ 32"
  shows "meter_inv w (ss @ sent ops) (last (now # map op_time ops)) (fold meter_exec ops m)"
  using assms
proof (induction ops arbitrary: ss now m)
  case (Cons op ops)
  show ?case
  proof (cases op)
    case (MAdd n t)
    then have "meter_inv w (ss @ [(n, t)]) t (RateMeter_Add n t m)" using Cons.prems by (intro meter_inv_Add) auto
    from Cons.IH [OF this] show ?thesis using Cons.prems MAdd by simp
  next
    case (MRate t)
    then have "meter_inv w ss t (snd (RateMeter_Rate t m))" using Cons.prems by (intro meter_inv_Rate) auto
    from Cons.IH [OF this] show ?thesis using Cons.prems MRate by simp
  qed
qed simp

lemma total_samples:
  "\<forall>p \<in> set ss. 0 \<le> fst p \<and> fst p < 2 ^ 32 \<Longrightarrow> total (map sample_of ss) = of_int (sum_list (map fst ss))"
  by (induction ss) (simp_all add: total_def sample_of_def ucast_of_int_32)

text \<open>C36. The meter against its specification: after any sends and reads in the order of time, each send of less than
  \<open>2 ^ 32\<close> bytes, \<open>Rate\<close> is the number of bytes that were sent within the window, per second over the time since the first of them;
  dropping old samples and compacting the buffer change nothing.\<close>

theorem rate_meter_window:
  assumes "sorted (map op_time ops @ [now])" "\<forall>p \<in> set (sent ops). 0 \<le> fst p \<and> fst p < 2 ^ 32"
  shows "fst (RateMeter_Rate now (fold meter_exec ops (NewSendRateMeter window))) =
    rate_spec ((if window \<le> 0 then 1000000000 else window) div 1000) now (sent ops)"
proof -
  let ?w = "(if window \<le> 0 then 1000000000 else window) div 1000"
  define t0 where "t0 = (case ops of [] \<Rightarrow> now | op # _ \<Rightarrow> op_time op)"
  have "meter_inv ?w [] t0 (NewSendRateMeter window)"
    by (auto simp: meter_inv_def NewSendRateMeter_def live_def total_def)
  moreover have so: "sorted (t0 # map op_time ops)" using assms(1) by (cases ops) (auto simp: t0_def sorted_append)
  ultimately have inv: "meter_inv ?w (sent ops) (last (t0 # map op_time ops)) (fold meter_exec ops (NewSendRateMeter window))"
    using meter_inv_fold [OF _ _ assms(2)] by fastforce
  have "last (t0 # map op_time ops) \<le> now"
    using assms(1) by (cases ops rule: rev_cases) (auto simp: t0_def sorted_append)
  note A = meter_inv_advance [OF inv this]
  define m where "m = advance (now - ?w) (fold meter_exec ops (NewSendRateMeter window))"
  have w: "rm_windowMicros (fold meter_exec ops (NewSendRateMeter window)) = ?w" using inv by (simp add: meter_inv_def)
  have l: "live m = map sample_of (in_window ?w now (sent ops))" using A(2) by (simp add: m_def in_window_def split_def)
  have T: "rm_totalBytes m = of_int (sum_list (map fst (in_window ?w now (sent ops))))"
  proof -
    have "\<forall>p \<in> set (in_window ?w now (sent ops)). 0 \<le> fst p \<and> fst p < 2 ^ 32"
      using assms(2) unfolding in_window_def set_filter by blast
    moreover have "rm_totalBytes m = total (live m)" using A(1) unfolding m_def [symmetric] meter_inv_def by blast
    ultimately show ?thesis unfolding l by (simp only: total_samples)
  qed
  have R: "fst (RateMeter_Rate now (fold meter_exec ops (NewSendRateMeter window))) =
      (if live m = [] then 0 else if now \<le> rs_tMicros (hd (live m)) then 0
       else rm_totalBytes m * 1000000 div of_int (now - rs_tMicros (hd (live m))))"
    unfolding RateMeter_Rate_def w m_def [symmetric] Let_def by (simp add: live_def hd_drop_conv_nth)
  show ?thesis unfolding R rate_spec_def using l T
    by (cases "in_window ?w now (sent ops)") (auto simp: sample_of_def)
qed

theorem rate_meter_window_witness:
  "fst (RateMeter_Rate 1500000 (fold meter_exec [MAdd 700 0, MAdd 1000 600000, MRate 700000, MAdd 2000 1000000] (NewSendRateMeter 0))) =
     rate_spec 1000000 1500000 [(700, 0), (1000, 600000), (2000, 1000000)] \<and>
   rate_spec 1000000 1500000 [(700, 0), (1000, 600000), (2000, 1000000)] = 3333"
  using rate_meter_window [of "[MAdd 700 0, MAdd 1000 600000, MRate 700000, MAdd 2000 1000000]" 1500000 0]
  by (simp add: rate_spec_def in_window_def)

end
