(* ===== verification/Spec2Isabelle.thy ===== *)
theory Spec2Isabelle
  imports Feed_Scheduler Feed_Bidi Server_Resume Recorder_Timeline Delivery Relay_Safety Congestion
begin

text \<open>
  Verification of \<^bold>\<open>quicrtc\<close>, a media and data transport over QUIC and WebTransport written in Go.
\<close>

section \<open>From publisher to subscriber\<close>


definition ex_cam :: Config where
  "ex_cam = Config_zero\<lparr>cfg_TrackName := ''cam''\<rparr>"

definition ex_published_au :: "64 word \<times> AccessUnit" where
  "ex_published_au = (1, AccessUnit_zero\<lparr>au_Keyframe := True, au_Seq := 9, au_Bytes := [77]\<rparr>)"

definition ex_world :: pump_world where
  "ex_world = \<lparr>pw_streams = [], pw_opens = [OpenOK []], pw_log = []\<rparr>"

text \<open>One stream of one frame, drained to its end.\<close>

definition ex_drain :: "client_op list" where
  "ex_drain = CoAccept False (Inr (stream_header_bytes ''cam'' @ feed_frame_bytes (gop_frame ex_cam ex_published_au) @ [])) #
     replicate 6 (CoDrain 0 1)"

lemma ex_pump:
  "\<exists>s \<in> set (pw_streams (snd (runStreamGOP ex_cam [ex_published_au] ChannelClosed ex_world))).
     \<not> ss_reset s \<and> w_out (ss_w s) = stream_header_bytes ''cam'' @ feed_frame_bytes (gop_frame ex_cam ex_published_au) @ []"
proof -
  have cfg: "cfg_TrackName ex_cam = ''cam''" "\<not> cfg_Scheduler ex_cam" "\<not> cfg_AllowLeadingPFrames ex_cam"
    by (simp_all add: ex_cam_def Config_zero_def)
  have hd: "WriteStreamHeader \<lparr>w_out = [], w_script = []\<rparr> ''cam'' = (None, \<lparr>w_out = stream_header_bytes ''cam'', w_script = []\<rparr>)"
    by (simp add: WriteStreamHeader_def io_write_def stream_header_bytes_def MaxStreamHeader_def)
  have fr: "writeFrame ex_cam \<lparr>w_out = pre, w_script = []\<rparr> (gop_type (snd ex_published_au)) (au_PTSMicro (snd ex_published_au))
      (au_Seq (snd ex_published_au)) (gop_flags (snd ex_published_au)) (pubWall ex_cam (fst ex_published_au) (snd ex_published_au))
      (au_Bytes (snd ex_published_au)) = (None, \<lparr>w_out = pre @ feed_frame_bytes (gop_frame ex_cam ex_published_au), w_script = []\<rparr>)" for pre
    by (simp add: writeFrame_def cfg writeFeedFramePooled_def io_write_def appendFeedFrame_bytes gop_frame_def)
       (simp add: ex_published_au_def MaxFeedPayload_def)
  have key: "au_Keyframe (snd ex_published_au)" by (simp add: ex_published_au_def)
  obtain now au where x: "ex_published_au = (now, au)" by fastforce
  show ?thesis using fr key unfolding x
    by (simp add: runStreamGOP_def ex_world_def gop_step_def gop_keyframe_def openGOPStream_def OpenSendStream_def add_stream_def on_stream_def cfg hd
        emit_def gop_ensure_def gop_write_def close_current_def CloseStream_def Let_def)
qed

lemma ex_drained:
  "\<exists>c. client_trace ex_json ex_drain ([], snd (dial_session ex_json ex_opts ''x'' \<lparr>w_out = [], w_script = []\<rparr> (control_frame_bytes (TypeSDP, [])))) =
     Some ([PutAU 0 1 (client_au (gop_frame ex_cam ex_published_au))], c) \<and> length (cl_streams c) = 1 \<and> cs_phase (cl_streams c ! 0) = SEnd \<and>
     \<not> cl_closed c \<and> cs_content (cl_streams c ! 0) = stream_header_bytes ''cam'' @ feed_frame_bytes (gop_frame ex_cam ex_published_au) @ []"
proof -
  let ?f = "gop_frame ex_cam ex_published_au"
  have o: "stream_open (stream_header_bytes ''cam'' @ feed_frame_bytes ?f @ []) = Some (''cam'', feed_frame_bytes ?f @ [])"
    by (simp add: stream_open_def PeekStreamHeader_bytes MaxStreamHeader_def)
  have f: "ReadFeedFrame (feed_frame_bytes ?f @ []) = Inr (?f, [])"
    by (rule ReadFeedFrame_bytes) (simp add: gop_frame_ok ex_published_au_def MaxFeedPayload_def)
  obtain w where w: "snd (dial_session ex_json ex_opts ''x'' \<lparr>w_out = [], w_script = []\<rparr> (control_frame_bytes (TypeSDP, []))) =
     (NewClient ex_opts w [])\<lparr>cl_sdp := Some ex_sdp, cl_assignedSessionID := ''s''\<rparr>" using ex_dial by blast
  show ?thesis unfolding w ex_drain_def
    by (simp add: eval_nat_numeral NewClient_def client_accept_def drain_step_def client_event_def o f set_stream_def trackChan_def kindForTrack_def
        new_queue_def chan_send_def make_chan_def drain_stats_def drain_return_def upd_queue_def Let_def del: append_Nil2)
qed


end
